(* ===== verification/Prelude.thy ===== *)
theory Prelude
  imports Main "HOL-Library.Word" "HOL-Library.Monad_Syntax"
begin

text \<open>
  Shared vocabulary of the development: the machine integer types, the panic monad and the
  standard-library operations (checked arithmetic, indexing, slicing, growing a vector)
  that the Rust code uses, with the lemmas the components share.

  A Rust panic is the value \<^const>\<open>None\<close>: an operation that can panic returns an
  \<open>option\<close>, and operations are sequenced by \<open>Option.bind\<close> (the \<open>do\<close> notation of
  \<open>Monad_Syntax\<close>), so the first panic ends the computation.  A Rust \<open>Result\<close> is a
  sum, \<^const>\<open>Inl\<close> being the error.  Arithmetic is that of the dev and test profile, in
  which \<open>+\<close> and \<open>-\<close> on unsigned integers panic on overflow and \<open>debug_assert!\<close> is
  active; \<open>wrapping_add\<close> and \<open>wrapping_mul\<close> are \<open>+\<close> and \<open>*\<close> of the word type.
  \<open>usize\<close> (node ids, vector lengths) is \<open>nat\<close>, on a 64-bit target, with the conversions to
  and from \<open>u64\<close> written as \<open>as_word\<close> (an \<open>as u64\<close> or \<open>as u32\<close> cast) and \<^const>\<open>unat\<close>.
\<close>

type_synonym u8 = "8 word"
type_synonym u32 = "32 word"
type_synonym u64 = "64 word"
type_synonym bytes = "u8 list"

type_synonym nodeid = nat

named_theorems panic_simps \<open>when the partial library operations return\<close>

section \<open>Casts\<close>

definition as_word :: "nat \<Rightarrow> 'a::len word" where
  "as_word n = word_of_int (int n)"

lemma as_word_of_nat [simp]: "as_word = of_nat"
  by (simp add: as_word_def fun_eq_iff)

section \<open>Checked arithmetic\<close>

definition add64 :: "u64 \<Rightarrow> u64 \<Rightarrow> u64 option" where
  "add64 a b = (if uint a + uint b < 2 ^ 64 then Some (a + b) else None)"

definition sub64 :: "u64 \<Rightarrow> u64 \<Rightarrow> u64 option" where
  "sub64 a b = (if b \<le> a then Some (a - b) else None)"

definition rem64 :: "u64 \<Rightarrow> u64 \<Rightarrow> u64 option" where
  "rem64 a b = (if b = 0 then None else Some (a mod b))"

definition addsz :: "nat \<Rightarrow> nat \<Rightarrow> nat option" where
  "addsz a b = (if int a + int b < 2 ^ 64 then Some (a + b) else None)"

definition saturating_sub64 :: "u64 \<Rightarrow> u64 \<Rightarrow> u64" where
  "saturating_sub64 a b = (if b \<le> a then a - b else 0)"

section \<open>Vectors and slices\<close>

text \<open>
  \<open>vec_get\<close> is \<open>xs[i]\<close>, \<open>vec_set\<close> is \<open>xs[i] = v\<close>, \<open>vec_slice\<close> is \<open>xs[a..b]\<close>; each
  panics out of range.  \<open>vec_extend\<close> grows a vector: \<open>Vec\<close> panics when its capacity
  would exceed \<open>isize::MAX\<close> bytes, so a vector of non-zero-sized elements never has
  \<open>2 ^ 63\<close> elements or more.
\<close>

definition vec_get :: "'a list \<Rightarrow> nat \<Rightarrow> 'a option" where
  "vec_get xs i = (if i < length xs then Some (xs ! i) else None)"

definition vec_set :: "'a list \<Rightarrow> nat \<Rightarrow> 'a \<Rightarrow> 'a list option" where
  "vec_set xs i v = (if i < length xs then Some (xs[i := v]) else None)"

definition vec_slice :: "'a list \<Rightarrow> nat \<Rightarrow> nat \<Rightarrow> 'a list option" where
  "vec_slice xs a b = (if a \<le> b \<and> b \<le> length xs then Some (take (b - a) (drop a xs)) else None)"

definition vec_cap :: nat where
  "vec_cap = 2 ^ 63"

definition vec_extend :: "'a list \<Rightarrow> 'a list \<Rightarrow> 'a list option" where
  "vec_extend xs ys = (if int (length xs) + int (length ys) < 2 ^ 63 then Some (xs @ ys) else None)"

fun map_opt :: "('a \<Rightarrow> 'b option) \<Rightarrow> 'a list \<Rightarrow> 'b list option" where
  "map_opt f [] = Some []"
| "map_opt f (x # xs) = do { y \<leftarrow> f x; ys \<leftarrow> map_opt f xs; Some (y # ys) }"

section \<open>Shared lemmas\<close>

lemma add64_iff:
  "add64 a b = Some c \<longleftrightarrow> c = a + b \<and> unat a + unat b < 18446744073709551616"
proof -
  have "uint a + uint b < 18446744073709551616 \<longleftrightarrow> unat a + unat b < 18446744073709551616"
    unfolding uint_nat by linarith
  then show ?thesis by (auto simp: add64_def)
qed

lemma add64_SomeD: "add64 a b = Some c \<Longrightarrow> c = a + b \<and> unat c = unat a + unat b"
  by (auto simp: add64_iff unat_word_ariths)

lemma add64_Some_unat: "add64 a b = Some c \<Longrightarrow> unat c = unat a + unat b"
  using add64_SomeD by blast

lemma add64_defined [panic_simps]:
  "unat a + unat b < 18446744073709551616 \<Longrightarrow> add64 a b = Some (a + b)"
  by (simp add: add64_iff)

lemma sub64_SomeD: "sub64 a b = Some c \<Longrightarrow> c = a - b \<and> unat c = unat a - unat b \<and> unat b \<le> unat a"
  by (auto simp: sub64_def unat_sub word_le_nat_alt split: if_splits)

lemma addsz_SomeD: "addsz a b = Some c \<Longrightarrow> c = a + b"
  by (auto simp: addsz_def split: if_splits)

lemma vec_get_SomeD: "vec_get xs i = Some x \<Longrightarrow> i < length xs \<and> x = xs ! i"
  by (auto simp: vec_get_def split: if_splits)

lemma vec_get_defined [panic_simps]: "i < length xs \<Longrightarrow> vec_get xs i = Some (xs ! i)"
  by (simp add: vec_get_def)

lemma vec_set_SomeD: "vec_set xs i v = Some ys \<Longrightarrow> i < length xs \<and> ys = xs[i := v]"
  by (auto simp: vec_set_def split: if_splits)

lemma vec_set_defined [panic_simps]: "i < length xs \<Longrightarrow> vec_set xs i v = Some (xs[i := v])"
  by (simp add: vec_set_def)

lemma vec_slice_SomeD:
  "vec_slice xs a b = Some ys \<Longrightarrow> ys = take (b - a) (drop a xs) \<and> a \<le> b \<and> b \<le> length xs"
  by (auto simp: vec_slice_def split: if_splits)

lemma vec_extend_iff:
  "vec_extend xs ys = Some zs \<longleftrightarrow> zs = xs @ ys \<and> length xs + length ys < vec_cap"
  by (auto simp: vec_extend_def vec_cap_def)

lemma vec_extend_SomeD:
  "vec_extend xs ys = Some zs \<Longrightarrow> zs = xs @ ys \<and> length xs + length ys < vec_cap"
  by (simp add: vec_extend_iff)

lemma vec_extend_defined [panic_simps]:
  "length xs + length ys < vec_cap \<Longrightarrow> vec_extend xs ys = Some (xs @ ys)"
  by (simp add: vec_extend_iff)

lemma map_opt_Some_iff:
  "map_opt f xs = Some ys \<longleftrightarrow> length ys = length xs \<and> (\<forall>i < length xs. f (xs ! i) = Some (ys ! i))"
proof (induction xs arbitrary: ys)
  case Nil
  then show ?case by auto
next
  case (Cons x xs)
  show ?case
    by (cases ys) (auto simp: Cons.IH bind_eq_Some_conv nth_Cons All_less_Suc2 split: nat.splits)
qed

lemma map_opt_total:
  "(\<And>x. x \<in> set xs \<Longrightarrow> f x = Some (g x)) \<Longrightarrow> map_opt f xs = Some (map g xs)"
  by (induction xs) auto

lemma map_opt_in_setD:
  "map_opt f xs = Some ys \<Longrightarrow> y \<in> set ys \<Longrightarrow> \<exists>x \<in> set xs. f x = Some y"
  by (induction xs arbitrary: ys) (auto simp: bind_eq_Some_conv)

lemma unat_of_nat_small: "k < vec_cap \<Longrightarrow> unat (of_nat k :: u64) = k"
  by (simp add: vec_cap_def unat_of_nat)

lemma unat_lt_2_64: "unat (x :: u64) < 18446744073709551616"
  using unsigned_less [of x] by simp

lemma take_eq_mono: "take m xs = take m ys \<Longrightarrow> k \<le> m \<Longrightarrow> take k xs = take k ys"
  by (metis min_absorb1 take_take)

lemma take_Suc_eqI:
  "take k xs = take k ys \<Longrightarrow> k < length xs \<Longrightarrow> k < length ys \<Longrightarrow> xs ! k = ys ! k
    \<Longrightarrow> take (Suc k) xs = take (Suc k) ys"
  by (simp add: take_Suc_conv_app_nth)

lemma take_eq_lengthD:
  "take k xs = take k ys \<Longrightarrow> k \<le> length ys \<Longrightarrow> k \<le> length xs"
  by (metis length_take min.absorb_iff2 min.commute)

lemma take_eq_nthD:
  "take k xs = take k ys \<Longrightarrow> i < k \<Longrightarrow> xs ! i = ys ! i"
  by (metis nth_take)

lemma bind_SomeE:
  assumes "Option.bind m f = Some y"
  obtains x where "m = Some x" and "f x = Some y"
  using assms by (auto simp: bind_eq_Some_conv)

end
