(* ===== verification/Bytes.thy ===== *)
theory Bytes
  imports Prelude
begin

text \<open>
  Byte-level integer encodings of the Rust standard library: \<open>to_le_bytes\<close>,
  \<open>from_le_bytes\<close> and \<open>to_be_bytes\<close> at any width, with their round trips in both
  directions.  The codec of the raft messages, the layout of the raft log on sietch and the
  key-value commands all rest on these lemmas.
\<close>

fun le_bytes :: "nat \<Rightarrow> 'a::len word \<Rightarrow> bytes" where
  "le_bytes 0 w = []"
| "le_bytes (Suc k) w = ucast w # le_bytes k (drop_bit 8 w)"

fun le_word :: "bytes \<Rightarrow> 'a::len word" where
  "le_word [] = 0"
| "le_word (b # bs) = or (ucast b) (push_bit 8 (le_word bs))"

definition to_le_bytes64 :: "u64 \<Rightarrow> bytes" where
  "to_le_bytes64 w = le_bytes 8 w"

definition to_le_bytes32 :: "u32 \<Rightarrow> bytes" where
  "to_le_bytes32 w = le_bytes 4 w"

definition to_be_bytes64 :: "u64 \<Rightarrow> bytes" where
  "to_be_bytes64 w = rev (le_bytes 8 w)"

lemma length_le_bytes [simp]: "length (le_bytes k w) = k"
  by (induction k arbitrary: w) auto

lemma bit_ucast_byte: "bit (ucast (w :: 'a::len word) :: u8) m \<longleftrightarrow> m < 8 \<and> bit w m"
  by (auto simp: bit_ucast_iff bit_imp_le_length)

lemma le_word_le_bytes:
  "le_word (le_bytes k w) = (take_bit (8 * k) w :: 'a::len word)"
proof (induction k arbitrary: w)
  case 0
  then show ?case by simp
next
  case (Suc k)
  show ?case
  proof (rule bit_word_eqI)
    fix m assume m: "m < LENGTH('a)"
    have split: "m < 8 \<or> (\<exists>j. m = 8 + j)" by presburger
    show "bit (le_word (le_bytes (Suc k) w) :: 'a word) m = bit (take_bit (8 * Suc k) w) m"
      using m split
      by (auto simp: Suc.IH bit_or_iff bit_push_bit_iff bit_take_bit_iff bit_drop_bit_eq
          bit_ucast_iff bit_imp_le_length add.commute dest: bit_imp_le_length)
  qed
qed

lemma le_bytes_le_word:
  "8 * length bs \<le> LENGTH('a) \<Longrightarrow> le_bytes (length bs) (le_word bs :: 'a::len word) = bs"
proof (induction bs)
  case Nil
  then show ?case by simp
next
  case (Cons b bs)
  have hd: "ucast (or (ucast b) (push_bit 8 (le_word bs)) :: 'a word) = b"
    using Cons.prems
    by (intro bit_word_eqI) (auto simp: bit_or_iff bit_push_bit_iff bit_ucast_iff)
  have tl: "drop_bit 8 (or (ucast b) (push_bit 8 (le_word bs)) :: 'a word) = take_bit (LENGTH('a) - 8) (le_word bs)"
  proof (rule bit_word_eqI)
    fix m assume "m < LENGTH('a)"
    show "bit (drop_bit 8 (or (ucast b) (push_bit 8 (le_word bs)) :: 'a word)) m =
        bit (take_bit (LENGTH('a) - 8) (le_word bs :: 'a word)) m"
      using Cons.prems
      by (auto simp: bit_or_iff bit_push_bit_iff bit_ucast_iff bit_drop_bit_eq bit_take_bit_iff
          dest: bit_imp_le_length)
  qed
  have small: "take_bit (LENGTH('a) - 8) (le_word bs :: 'a word) = le_word bs"
  proof -
    have "8 * length bs \<le> LENGTH('a)" using Cons.prems by simp
    then have "le_word bs = (le_word (le_bytes (length bs) (le_word bs :: 'a word)) :: 'a word)"
      using Cons.IH by simp
    also have "\<dots> = take_bit (8 * length bs) (le_word bs)"
      by (rule le_word_le_bytes)
    finally have eq: "le_word bs = (take_bit (8 * length bs) (le_word bs) :: 'a word)" .
    have "min (LENGTH('a) - 8) (8 * length bs) = 8 * length bs"
      using Cons.prems by simp
    then show ?thesis
      by (subst (1 2) eq) (simp add: take_bit_take_bit)
  qed
  show ?case
    using Cons.prems Cons.IH by (simp only: length_Cons le_bytes.simps le_word.simps hd tl small) simp
qed

lemma length_to_le_bytes [simp]:
  "length (to_le_bytes64 w) = 8" "length (to_le_bytes32 v) = 4" "length (to_be_bytes64 w) = 8"
  by (simp_all add: to_le_bytes64_def to_le_bytes32_def to_be_bytes64_def)

lemma le_word_to_le_bytes64 [simp]: "le_word (to_le_bytes64 w) = w"
  by (simp add: to_le_bytes64_def le_word_le_bytes take_bit_word_eq_self)

lemma le_word_to_le_bytes32 [simp]: "le_word (to_le_bytes32 w) = w"
  by (simp add: to_le_bytes32_def le_word_le_bytes take_bit_word_eq_self)

lemma to_le_bytes64_le_word: "length bs = 8 \<Longrightarrow> to_le_bytes64 (le_word bs) = bs"
  using le_bytes_le_word [of bs, where 'a = 64] by (simp add: to_le_bytes64_def)

lemma to_le_bytes32_le_word: "length bs = 4 \<Longrightarrow> to_le_bytes32 (le_word bs) = bs"
  using le_bytes_le_word [of bs, where 'a = 32] by (simp add: to_le_bytes32_def)

lemma to_le_bytes64_inject [simp]: "to_le_bytes64 a = to_le_bytes64 b \<longleftrightarrow> a = b"
  by (metis le_word_to_le_bytes64)

lemma to_le_bytes32_inject [simp]: "to_le_bytes32 a = to_le_bytes32 b \<longleftrightarrow> a = b"
  by (metis le_word_to_le_bytes32)

lemma to_be_bytes64_inject [simp]: "to_be_bytes64 a = to_be_bytes64 b \<longleftrightarrow> a = b"
  using to_le_bytes64_inject [of a b] by (simp add: to_be_bytes64_def to_le_bytes64_def)

section \<open>Evaluation\<close>

text \<open>Reading by integer arithmetic, which the kernel evaluates faster than bit operations.\<close>

fun le_int :: "bytes \<Rightarrow> int" where
  "le_int [] = 0"
| "le_int (b # bs) = uint b + 256 * le_int bs"

lemma or_shifted_byte: "or (ucast (b :: u8)) (push_bit 8 w) = (ucast b + push_bit 8 w :: 'a::len word)"
  by (rule disjunctive_add [symmetric]) (auto simp: bit_ucast_iff bit_push_bit_iff dest: bit_imp_le_length)

lemma le_word_code [code]: "le_word bs = (word_of_int (le_int bs) :: 'a::len word)"
proof (induction bs)
  case (Cons b bs)
  have "(word_of_int (uint b) :: 'a word) = ucast b" by simp
  then show ?case using Cons.IH
    unfolding le_word.simps or_shifted_byte by (simp add: push_bit_eq_mult)
qed simp

end
