(* ===== verification/Message.thy ===== *)
theory Message
  imports Bytes
begin

text \<open>
  The wire protocol of \<open>crates/raft/src/message.rs\<close>: the four consensus messages, the
  byte reader, the encoder and the decoder.

  A message travels as the payload of a frame of the external \<open>frame\<close> crate.  Its
  \<open>encode\<close> and \<open>decode\<close> are parameters (\<open>enc\<close>, \<open>dec\<close>); of a decoded frame the code
  reads only the type and the payload, and it writes 0 into \<open>sequence\<close> and \<open>flags\<close>,
  whose widths therefore do not matter.  What a theorem needs of the parameters is a named
  hypothesis of that theorem.
\<close>

section \<open>Messages\<close>

record entry =
  e_term :: u64
  command :: bytes

datatype message =
    RequestVote u64 u64 u64              \<comment> \<open>term, last log index, last log term\<close>
  | VoteResponse u64 bool                \<comment> \<open>term, granted\<close>
  | AppendEntries u64 u64 u64 "entry list" u64
      \<comment> \<open>term, prev index, prev term, entries, leader commit\<close>
  | AppendResponse u64 bool u64          \<comment> \<open>term, success, match index\<close>

fun msg_term :: "message \<Rightarrow> u64" where
  "msg_term (RequestVote t _ _) = t"
| "msg_term (VoteResponse t _) = t"
| "msg_term (AppendEntries t _ _ _ _) = t"
| "msg_term (AppendResponse t _ _) = t"

datatype 'e codec_error =
    Frame 'e
  | UnknownType u8
  | Truncated
  | TrailingBytes
  | BadBool u8

record frame =
  frame_type :: u8
  sequence :: nat
  flags :: nat
  payload :: bytes

section \<open>The reader\<close>

text \<open>\<open>and_then r f\<close> is Rust's \<open>f(r?)\<close>: the first error is the result.\<close>

fun and_then :: "'e + 'a \<Rightarrow> ('a \<Rightarrow> 'e + 'b) \<Rightarrow> 'e + 'b" where
  "and_then (Inl e) f = Inl e"
| "and_then (Inr x) f = f x"

type_synonym ('e, 'a) reader = "bytes \<Rightarrow> 'e codec_error + ('a \<times> bytes)"

definition take_bytes :: "nat \<Rightarrow> ('e, bytes) reader" where
  "take_bytes n r = (if length r < n then Inl Truncated else Inr (take n r, drop n r))"

definition read_u64 :: "('e, u64) reader" where
  "read_u64 r = and_then (take_bytes 8 r) (\<lambda>(b, r'). Inr (le_word b, r'))"

definition read_u32 :: "('e, u32) reader" where
  "read_u32 r = and_then (take_bytes 4 r) (\<lambda>(b, r'). Inr (le_word b, r'))"

definition read_bool :: "('e, bool) reader" where
  "read_bool r = and_then (take_bytes 1 r) (\<lambda>(b, r').
     if b ! 0 = 0 then Inr (False, r')
     else if b ! 0 = 1 then Inr (True, r')
     else Inl (BadBool (b ! 0)))"

section \<open>Encoding\<close>

definition u8_of_bool :: "bool \<Rightarrow> u8" where
  "u8_of_bool b = (if b then 1 else 0)"

definition encode_entry :: "entry \<Rightarrow> bytes" where
  "encode_entry e = to_le_bytes64 (e_term e)
     @ to_le_bytes32 (as_word (length (command e))) @ command e"

text \<open>The frame type and the payload bytes of a message.\<close>

fun encode_payload :: "message \<Rightarrow> u8 \<times> bytes" where
  "encode_payload (RequestVote t li lt) =
     (1, to_le_bytes64 t @ to_le_bytes64 li @ to_le_bytes64 lt)"
| "encode_payload (VoteResponse t g) = (2, to_le_bytes64 t @ [u8_of_bool g])"
| "encode_payload (AppendEntries t p pt es lc) =
     (3, to_le_bytes64 t @ to_le_bytes64 p @ to_le_bytes64 pt @ to_le_bytes64 lc
         @ to_le_bytes32 (as_word (length es)) @ concat (map encode_entry es))"
| "encode_payload (AppendResponse t s m) =
     (4, to_le_bytes64 t @ [u8_of_bool s] @ to_le_bytes64 m)"

definition frame_of :: "message \<Rightarrow> frame" where
  "frame_of m = \<lparr>frame_type = fst (encode_payload m), sequence = 0, flags = 0,
                 payload = snd (encode_payload m)\<rparr>"

definition encode_message :: "(frame \<Rightarrow> bytes) \<Rightarrow> message \<Rightarrow> bytes" where
  "encode_message enc m = enc (frame_of m)"

section \<open>Decoding\<close>

fun read_entries :: "nat \<Rightarrow> ('e, entry list) reader" where
  "read_entries 0 r = Inr ([], r)"
| "read_entries (Suc k) r =
     and_then (read_u64 r) (\<lambda>(t, r).
     and_then (read_u32 r) (\<lambda>(len, r).
     and_then (take_bytes (unat len) r) (\<lambda>(c, r).
     and_then (read_entries k r) (\<lambda>(es, r).
       Inr (\<lparr>e_term = t, command = c\<rparr> # es, r)))))"

text \<open>
  The fields of an \<open>AppendEntries\<close> before its entries, up to the check of the declared count.
\<close>

definition append_header :: "('e, u64 \<times> u64 \<times> u64 \<times> u64 \<times> nat) reader" where
  "append_header r =
     and_then (read_u64 r) (\<lambda>(t, r).
     and_then (read_u64 r) (\<lambda>(p, r).
     and_then (read_u64 r) (\<lambda>(pt, r).
     and_then (read_u64 r) (\<lambda>(lc, r).
     and_then (read_u32 r) (\<lambda>(count, r).
       if unat count > length r div 12 then Inl Truncated
       else Inr ((t, p, pt, lc, unat count), r))))))"

definition decode_append :: "('e, message) reader" where
  "decode_append r =
     and_then (append_header r) (\<lambda>((t, p, pt, lc, count), r).
     and_then (read_entries count r) (\<lambda>(es, r).
       Inr (AppendEntries t p pt es lc, r)))"

text \<open>
  The capacity with which the decoder of a payload creates the vector of entries
  (\<open>Vec::with_capacity(count)\<close>), or \<^const>\<open>None\<close> where it does not get that far.
\<close>

definition reserved_capacity :: "u8 \<Rightarrow> bytes \<Rightarrow> nat option" where
  "reserved_capacity kind r =
     (if kind = 3 then
        (case (append_header r :: unit codec_error + _) of
           Inr ((t, p, pt, lc, count), r) \<Rightarrow> Some count
         | Inl e \<Rightarrow> None)
      else None)"

definition decode_payload :: "u8 \<Rightarrow> ('e, message) reader" where
  "decode_payload kind r =
     (if kind = 1 then
        and_then (read_u64 r) (\<lambda>(t, r).
        and_then (read_u64 r) (\<lambda>(li, r).
        and_then (read_u64 r) (\<lambda>(lt, r). Inr (RequestVote t li lt, r))))
      else if kind = 2 then
        and_then (read_u64 r) (\<lambda>(t, r).
        and_then (read_bool r) (\<lambda>(g, r). Inr (VoteResponse t g, r)))
      else if kind = 3 then decode_append r
      else if kind = 4 then
        and_then (read_u64 r) (\<lambda>(t, r).
        and_then (read_bool r) (\<lambda>(s, r).
        and_then (read_u64 r) (\<lambda>(m, r). Inr (AppendResponse t s m, r))))
      else Inl (UnknownType kind))"

fun lift_frame_error :: "'e + 'a \<Rightarrow> 'e codec_error + 'a" where
  "lift_frame_error (Inl e) = Inl (Frame e)"
| "lift_frame_error (Inr x) = Inr x"

definition decode_message :: "(bytes \<Rightarrow> 'e + frame) \<Rightarrow> bytes \<Rightarrow> 'e codec_error + message" where
  "decode_message dec datagram =
     and_then (lift_frame_error (dec datagram)) (\<lambda>f.
     and_then (decode_payload (frame_type f) (payload f)) (\<lambda>(m, r).
       if r \<noteq> [] then Inl TrailingBytes else Inr m))"

text \<open>
  The sizes the encoder can represent: it casts the number of entries and the length of
  each command to \<open>u32\<close>.
\<close>

fun sizes_fit :: "message \<Rightarrow> bool" where
  "sizes_fit (AppendEntries _ _ _ es _) \<longleftrightarrow>
     length es < 2 ^ 32 \<and> (\<forall>e \<in> set es. length (command e) < 2 ^ 32)"
| "sizes_fit _ \<longleftrightarrow> True"

end
