(* ===== verification/Message_Codec.thy ===== *)
theory Message_Codec
  imports Message
begin

text \<open>
  Correctness of the wire codec.  The reader lemmas come in three forms, one per question
  about a decoder: what it does on bytes the encoder wrote (\<open>read_*_encoded\<close>), what bytes a
  successful read consumed (\<open>read_*_InrD\<close>), and that a result does not depend on the bytes
  after the ones consumed (\<open>extends\<close>), from which truncation and trailing bytes follow.
\<close>

named_theorems codec_simps \<open>reading what the encoder wrote\<close>

section \<open>Reading encoded bytes\<close>

lemma take_bytes_encoded [codec_simps]: "length b = n \<Longrightarrow> take_bytes n (b @ r) = Inr (b, r)"
  by (simp add: take_bytes_def)

lemma read_u64_encoded [codec_simps]: "read_u64 (to_le_bytes64 w @ r) = Inr (w, r)"
  by (simp add: read_u64_def take_bytes_encoded)

lemma read_u32_encoded [codec_simps]: "read_u32 (to_le_bytes32 w @ r) = Inr (w, r)"
  by (simp add: read_u32_def take_bytes_encoded)

lemma read_bool_encoded [codec_simps]: "read_bool (u8_of_bool b # r) = Inr (b, r)"
  by (simp add: read_bool_def take_bytes_def u8_of_bool_def)

lemma length_encode_entry [simp]: "length (encode_entry e) = 12 + length (command e)"
  by (simp add: encode_entry_def)

lemma length_encode_entries: "12 * length es \<le> length (concat (map encode_entry es))"
  by (induction es) auto

lemma unat_of_nat_u32: "k < 2 ^ 32 \<Longrightarrow> unat (of_nat k :: u32) = k"
  by (simp add: unat_of_nat)

lemma read_entries_encoded [codec_simps]:
  "\<forall>e \<in> set es. length (command e) < 2 ^ 32 \<Longrightarrow>
    read_entries (length es) (concat (map encode_entry es) @ r) = Inr (es, r)"
  by (induction es) (simp_all add: encode_entry_def codec_simps unat_of_nat_u32)

lemma decode_payload_encoded:
  assumes "sizes_fit m" and "encode_payload m = (kind, p)"
  shows "decode_payload kind (p @ r) = Inr (m, r)"
proof (cases m)
  case (AppendEntries t pi pt es lc)
  have "12 * length es \<le> length (concat (map encode_entry es) @ r)"
    using length_encode_entries [of es] by simp
  then have "length es \<le> length (concat (map encode_entry es) @ r) div 12"
    by (simp add: less_eq_div_iff_mult_less_eq)
  then show ?thesis
    using assms AppendEntries
    by (auto simp: decode_payload_def decode_append_def append_header_def codec_simps unat_of_nat_u32
        simp del: length_concat length_append)
qed (use assms in \<open>auto simp: decode_payload_def codec_simps\<close>)

section \<open>What a successful read consumed\<close>

lemma and_then_InrD: "and_then x f = Inr y \<Longrightarrow> \<exists>v. x = Inr v \<and> f v = Inr y"
  by (cases x) auto

lemma and_then_Inr_iff: "and_then x f = Inr y \<longleftrightarrow> (\<exists>v. x = Inr v \<and> f v = Inr y)"
  by (cases x) auto

lemma take_bytes_InrD: "take_bytes n r = Inr (b, r') \<Longrightarrow> r = b @ r' \<and> length b = n"
  by (auto simp: take_bytes_def split: if_splits)

lemma read_u64_InrD: "read_u64 r = Inr (w, r') \<Longrightarrow> r = to_le_bytes64 w @ r'"
  by (auto simp: read_u64_def and_then_Inr_iff to_le_bytes64_le_word dest!: take_bytes_InrD)

lemma read_u32_InrD: "read_u32 r = Inr (w, r') \<Longrightarrow> r = to_le_bytes32 w @ r'"
  by (auto simp: read_u32_def and_then_Inr_iff to_le_bytes32_le_word dest!: take_bytes_InrD)

lemma read_bool_InrD: "read_bool r = Inr (b, r') \<Longrightarrow> r = u8_of_bool b # r'"
  by (auto simp: read_bool_def and_then_Inr_iff u8_of_bool_def length_Suc_conv
      dest!: take_bytes_InrD split: if_splits)

lemma read_entries_InrD:
  "(read_entries k r :: 'e codec_error + (entry list \<times> bytes)) = Inr (es, r') \<Longrightarrow>
    r = concat (map encode_entry es) @ r' \<and> length es = k
    \<and> (\<forall>e \<in> set es. length (command e) < 2 ^ 32)"
proof (induction k arbitrary: r es)
  case 0
  then show ?case by simp
next
  case (Suc k)
  from Suc.prems obtain t r1 len r2 c r3 es' r4 where
      reads: "(read_u64 :: ('e, _) reader) r = Inr (t, r1)" "(read_u32 :: ('e, _) reader) r1 = Inr (len, r2)"
        "(take_bytes (unat len) :: ('e, _) reader) r2 = Inr (c, r3)"
        "(read_entries k :: ('e, _) reader) r3 = Inr (es', r4)"
    and eq: "es = \<lparr>e_term = t, command = c\<rparr> # es'" "r4 = r'"
    by (auto simp: and_then_Inr_iff)
  have c: "length c = unat len" and r: "r = to_le_bytes64 t @ to_le_bytes32 len @ c @ r3"
    using reads by (auto dest!: read_u64_InrD read_u32_InrD take_bytes_InrD)
  have "of_nat (length c) = len" "length c < 2 ^ 32"
    using c unsigned_less [of len] by simp_all
  then show ?case
    using Suc.IH [of r3 es'] reads(4) eq r by (simp add: encode_entry_def)
qed

lemma decode_append_InrD:
  "(decode_append :: ('e, _) reader) r = Inr (m, r') \<Longrightarrow>
    \<exists>t p pt es lc. m = AppendEntries t p pt es lc \<and> sizes_fit m
      \<and> r = snd (encode_payload m) @ r' \<and> 12 * length es \<le> length r"
proof -
  assume "(decode_append :: ('e, _) reader) r = Inr (m, r')"
  then obtain t r1 p r2 pt r3 lc r4 n r5 es where
      reads: "(read_u64 :: ('e, _) reader) r = Inr (t, r1)" "(read_u64 :: ('e, _) reader) r1 = Inr (p, r2)"
        "(read_u64 :: ('e, _) reader) r2 = Inr (pt, r3)" "(read_u64 :: ('e, _) reader) r3 = Inr (lc, r4)"
        "(read_u32 :: ('e, _) reader) r4 = Inr (n, r5)" "(read_entries (unat n) :: ('e, _) reader) r5 = Inr (es, r')"
    and m: "m = AppendEntries t p pt es lc"
    by (auto simp: decode_append_def append_header_def and_then_Inr_iff split: if_splits)
  note es = read_entries_InrD [OF reads(6)]
  have "of_nat (length es) = n" "length es < 2 ^ 32"
    using es unsigned_less [of n] by auto
  moreover have "12 * length es \<le> length r5"
    using es length_encode_entries [of es] by simp
  ultimately show ?thesis
    using reads es m by (auto dest!: read_u64_InrD read_u32_InrD)
qed

lemma decode_payload_InrD:
  assumes "decode_payload kind r = Inr (m, r')"
  shows "sizes_fit m \<and> fst (encode_payload m) = kind \<and> r = snd (encode_payload m) @ r'"
  using assms
  by (auto simp: decode_payload_def and_then_Inr_iff split: if_splits
      dest!: read_u64_InrD read_bool_InrD decode_append_InrD)

lemma decode_message_InrD:
  "(decode_message dec d :: 'e codec_error + message) = Inr m \<Longrightarrow>
    \<exists>f. dec d = Inr f \<and> (decode_payload (frame_type f) :: ('e, _) reader) (payload f) = Inr (m, [])"
  unfolding decode_message_def
  by (cases "dec d") (auto simp: and_then_Inr_iff split: if_splits)

section \<open>Independence of what follows\<close>

definition extends :: "('e, 'a) reader \<Rightarrow> bool" where
  "extends f \<longleftrightarrow> (\<forall>r x.
     (\<forall>v r'. f r = Inr (v, r') \<longrightarrow> f (r @ x) = Inr (v, r' @ x))
   \<and> (\<forall>e. f r = Inl e \<longrightarrow> e \<noteq> Truncated \<longrightarrow> f (r @ x) = Inl e))"

lemma extends_InrD: "extends f \<Longrightarrow> f r = Inr (v, r') \<Longrightarrow> f (r @ x) = Inr (v, r' @ x)"
  unfolding extends_def by blast

lemma extends_InlD: "extends f \<Longrightarrow> f r = Inl e \<Longrightarrow> e \<noteq> Truncated \<Longrightarrow> f (r @ x) = Inl e"
  unfolding extends_def by blast

lemma extends_and_then [intro]:
  assumes f: "extends f" and g: "\<And>v. extends (g v)"
  shows "extends (\<lambda>r. and_then (f r) (\<lambda>(v, r'). g v r'))"
  unfolding extends_def
proof (intro allI conjI impI)
  fix r x w r2
  assume "and_then (f r) (\<lambda>(v, r'). g v r') = Inr (w, r2)"
  then obtain v r1 where "f r = Inr (v, r1)" and "g v r1 = Inr (w, r2)"
    by (auto simp: and_then_Inr_iff)
  then show "and_then (f (r @ x)) (\<lambda>(v, r'). g v r') = Inr (w, r2 @ x)"
    by (simp add: extends_InrD [OF f] extends_InrD [OF g])
next
  fix r x e
  assume *: "and_then (f r) (\<lambda>(v, r'). g v r') = Inl e" and e: "e \<noteq> Truncated"
  show "and_then (f (r @ x)) (\<lambda>(v, r'). g v r') = Inl e"
  proof (cases "f r")
    case (Inl a)
    then show ?thesis using * e extends_InlD [OF f Inl, of x] by auto
  next
    case (Inr a)
    then show ?thesis using * e extends_InrD [OF f, of r] extends_InlD [OF g]
      by (cases a) auto
  qed
qed

lemma extends_return [intro, simp]: "extends (\<lambda>r. Inr (v, r))" "extends (\<lambda>r. Inl e)"
  by (simp_all add: extends_def)

lemma extends_take_bytes [intro, simp]: "extends (take_bytes n)"
  by (auto simp: extends_def take_bytes_def)

lemma extends_read_u64 [intro, simp]: "extends read_u64"
  unfolding read_u64_def [abs_def] by (rule extends_and_then) auto

lemma extends_read_u32 [intro, simp]: "extends read_u32"
  unfolding read_u32_def [abs_def] by (rule extends_and_then) auto

lemma extends_if [intro]: "extends f \<Longrightarrow> extends g \<Longrightarrow> extends (\<lambda>r. if P then f r else g r)"
  by (cases P) auto

lemma extends_read_bool [intro, simp]: "extends read_bool"
  unfolding read_bool_def [abs_def] by (intro extends_and_then extends_if) auto

lemma extends_read_entries [intro, simp]: "extends (read_entries k)"
  by (induction k) (unfold read_entries.simps [abs_def], auto intro!: extends_and_then)

lemma extends_count_check:
  "extends f \<Longrightarrow> extends (\<lambda>r. if count > length r div 12 then Inl Truncated else f r)"
  unfolding extends_def
  by (auto split: if_splits dest: order.strict_trans2 [OF _ div_le_mono, rotated])

lemma extends_append_header [intro, simp]: "extends append_header"
  unfolding append_header_def [abs_def]
  by (intro extends_and_then extends_count_check) auto

lemma extends_decode_append [intro, simp]: "extends decode_append"
  unfolding decode_append_def [abs_def]
  by (auto simp: case_prod_beta intro!: extends_and_then)

lemma extends_decode_payload [intro, simp]: "extends (decode_payload kind)"
  unfolding decode_payload_def [abs_def]
  by (intro extends_if extends_and_then) auto

lemma decode_payload_prefix:
  assumes fit: "sizes_fit m" and enc: "encode_payload m = (kind, p @ q)" and "q \<noteq> []"
  shows "(decode_payload kind :: ('e, _) reader) p = Inl Truncated"
proof (cases "(decode_payload kind :: ('e, _) reader) p")
  case (Inl e)
  have "(decode_payload kind :: ('e, _) reader) (p @ q) = Inr (m, [])"
    using decode_payload_encoded [OF fit enc, of "[]"] by simp
  then show ?thesis
    using Inl extends_InlD [OF extends_decode_payload Inl, of q] by auto
next
  case (Inr a)
  then obtain m' r' where "(decode_payload kind :: ('e, _) reader) p = Inr (m', r')" by (cases a) auto
  then have "(decode_payload kind :: ('e, _) reader) (p @ q) = Inr (m', r' @ q)"
    by (rule extends_InrD [OF extends_decode_payload])
  moreover have "(decode_payload kind :: ('e, _) reader) (p @ q) = Inr (m, [])"
    using decode_payload_encoded [OF fit enc, of "[]"] by simp
  ultimately show ?thesis
    using \<open>q \<noteq> []\<close> by simp
qed

section \<open>Properties of the codec\<close>

text \<open>
  A frame codec for concrete instances: the type byte, then the payload.
\<close>

definition plain_enc :: "frame \<Rightarrow> bytes" where
  "plain_enc f = frame_type f # payload f"

fun plain_dec :: "bytes \<Rightarrow> unit + frame" where
  "plain_dec [] = Inl ()"
| "plain_dec (k # p) = Inr \<lparr>frame_type = k, sequence = 0, flags = 0, payload = p\<rparr>"

lemma decode_message_frame:
  assumes "dec d = Inr f"
  shows "decode_message dec d = and_then (decode_payload (frame_type f) (payload f))
    (\<lambda>(m, r). if r \<noteq> [] then Inl TrailingBytes else Inr m)"
  using assms by (simp add: decode_message_def)

lemma decode_message_encoded:
  assumes "sizes_fit m" and "dec d = Inr f" and "frame_type f = fst (encode_payload m)"
    and "payload f = snd (encode_payload m) @ r"
  shows "decode_message dec d = (if r \<noteq> [] then Inl TrailingBytes else Inr m)"
proof -
  have "encode_payload m = (fst (encode_payload m), snd (encode_payload m))" by simp
  then show ?thesis
    using assms(2-4) by (simp add: decode_message_frame decode_payload_encoded [OF assms(1)])
qed

lemma plain_roundtrip: "sizes_fit m \<Longrightarrow> decode_message plain_dec (plain_enc (frame_of m)) = Inr m"
  using decode_message_encoded [of m plain_dec "plain_enc (frame_of m)" "frame_of m" "[]"]
  by (simp add: plain_enc_def frame_of_def)

text \<open>
  C25: Round trip.  Where the frame codec returns the frame it was given, a message is decoded
  to itself exactly when its sizes fit the 32-bit length fields the encoder writes.
\<close>

theorem message_roundtrip:
  assumes "dec (enc (frame_of m)) = Inr (frame_of m)"
  shows "decode_message dec (encode_message enc m) = Inr m \<longleftrightarrow> sizes_fit m"
proof
  assume "decode_message dec (encode_message enc m) = Inr m"
  then show "sizes_fit m" using decode_message_InrD decode_payload_InrD by blast
next
  assume "sizes_fit m"
  then show "decode_message dec (encode_message enc m) = Inr m"
    using decode_message_encoded [of m dec "enc (frame_of m)" "frame_of m" "[]"] assms
    by (simp add: encode_message_def frame_of_def)
qed

theorem message_roundtrip_witness:
  "decode_message plain_dec (encode_message plain_enc (AppendEntries 3 1 2 [\<lparr>e_term = 3, command = [7, 8]\<rparr>] 1))
    = Inr (AppendEntries 3 1 2 [\<lparr>e_term = 3, command = [7, 8]\<rparr>] 1)"
proof -
  let ?m = "AppendEntries 3 1 2 [\<lparr>e_term = 3, command = [7, 8]\<rparr>] 1"
  have "plain_dec (plain_enc (frame_of ?m)) = Inr (frame_of ?m)"
    by (simp add: plain_enc_def frame_of_def)
  then show ?thesis by (subst message_roundtrip) simp_all
qed

text \<open>
  C26: The decoder accepts only what the encoder writes: a decoded message's encoding is the
  payload and the type of the frame, byte for byte, so no two payloads mean the same message.
\<close>

theorem decode_canonical:
  assumes "decode_message dec d = Inr m"
  shows "\<exists>f. dec d = Inr f \<and> encode_payload m = (frame_type f, payload f)"
proof -
  obtain f where f: "dec d = Inr f" "sizes_fit m \<and> fst (encode_payload m) = frame_type f
      \<and> payload f = snd (encode_payload m) @ []"
    using decode_message_InrD [OF assms] decode_payload_InrD by blast
  then show ?thesis by (intro exI [of _ f]) (simp add: prod_eq_iff)
qed

theorem decode_canonical_witness:
  "\<exists>f. plain_dec (plain_enc (frame_of (VoteResponse 5 True))) = Inr f
    \<and> encode_payload (VoteResponse 5 True) = (frame_type f, payload f)"
  by (rule decode_canonical, rule plain_roundtrip) simp

text \<open>
  C27: Truncation.  A frame that holds a proper prefix of a message's payload is rejected as
  truncated, wherever it was cut.
\<close>

theorem truncated_rejected:
  assumes "dec d = Inr f" and "encode_payload m = (frame_type f, payload f @ rest)"
    and "rest \<noteq> []" and "sizes_fit m"
  shows "decode_message dec d = Inl Truncated"
  using assms(1) by (simp add: decode_message_frame decode_payload_prefix [OF assms(4,2,3)])

theorem truncated_rejected_witness:
  "decode_message plain_dec [2, 5, 0, 0] = Inl Truncated"
proof (rule truncated_rejected)
  show "plain_dec [2, 5, 0, 0] = Inr \<lparr>frame_type = 2, sequence = 0, flags = 0, payload = [5, 0, 0]\<rparr>"
    by simp
  show "encode_payload (VoteResponse 5 True) = (frame_type \<lparr>frame_type = 2, sequence = 0, flags = 0, payload = [5, 0, 0]\<rparr>,
      payload \<lparr>frame_type = 2, sequence = 0, flags = 0, payload = [5, 0, 0]\<rparr> @ [0, 0, 0, 0, 0, 1])"
    by code_simp
qed simp_all

text \<open>Trailing bytes.  Bytes after a complete message make the decoder reject it.\<close>

theorem trailing_rejected:
  assumes "dec d = Inr f" and "frame_type f = fst (encode_payload m)"
    and "payload f = snd (encode_payload m) @ extra" and "extra \<noteq> []" and "sizes_fit m"
  shows "decode_message dec d = Inl TrailingBytes"
  using decode_message_encoded [of m dec d f extra] assms by simp

theorem trailing_rejected_witness:
  "decode_message plain_dec (2 # to_le_bytes64 5 @ [1] @ [9]) = Inl TrailingBytes"
proof (rule trailing_rejected [where m = "VoteResponse 5 True" and extra = "[9]"])
  show "plain_dec (2 # to_le_bytes64 5 @ [1] @ [9])
    = Inr \<lparr>frame_type = 2, sequence = 0, flags = 0, payload = to_le_bytes64 5 @ [1] @ [9]\<rparr>" by simp
qed (simp_all add: u8_of_bool_def)

text \<open>The header of a payload, with the bytes that follow it.\<close>

lemma append_header_Inr_iff:
  "(append_header r :: 'e codec_error + _) = Inr ((t, p, pt, lc, count), r') \<longleftrightarrow>
    r = to_le_bytes64 t @ to_le_bytes64 p @ to_le_bytes64 pt @ to_le_bytes64 lc @ to_le_bytes32 (of_nat count) @ r'
    \<and> 12 * count \<le> length r' \<and> count < 2 ^ 32"
proof
  assume "(append_header r :: 'e codec_error + _) = Inr ((t, p, pt, lc, count), r')"
  then obtain r1 r2 r3 r4 k where
      reads: "(read_u64 :: ('e, _) reader) r = Inr (t, r1)" "(read_u64 :: ('e, _) reader) r1 = Inr (p, r2)"
        "(read_u64 :: ('e, _) reader) r2 = Inr (pt, r3)" "(read_u64 :: ('e, _) reader) r3 = Inr (lc, r4)"
        "(read_u32 :: ('e, _) reader) r4 = Inr (k, r')"
    and k: "count = unat k" "unat k \<le> length r' div 12"
    by (auto simp: append_header_def and_then_Inr_iff not_less split: if_splits)
  have "12 * count \<le> length r'" using k by (simp add: less_eq_div_iff_mult_less_eq)
  moreover have "count < 2 ^ 32" using k(1) unsigned_less [of k] by simp
  ultimately show "r = to_le_bytes64 t @ to_le_bytes64 p @ to_le_bytes64 pt @ to_le_bytes64 lc @ to_le_bytes32 (of_nat count) @ r'
    \<and> 12 * count \<le> length r' \<and> count < 2 ^ 32"
    using reads k(1) by (auto dest!: read_u64_InrD read_u32_InrD)
next
  assume "r = to_le_bytes64 t @ to_le_bytes64 p @ to_le_bytes64 pt @ to_le_bytes64 lc @ to_le_bytes32 (of_nat count) @ r'
    \<and> 12 * count \<le> length r' \<and> count < 2 ^ 32"
  then show "(append_header r :: 'e codec_error + _) = Inr ((t, p, pt, lc, count), r')"
    by (simp add: append_header_def codec_simps unat_of_nat_u32 less_eq_div_iff_mult_less_eq not_less)
qed

lemma reserved_Some_iff:
  "reserved_capacity kind r = Some count \<longleftrightarrow>
    kind = 3 \<and> (\<exists>t p pt lc r'. (append_header r :: unit codec_error + _) = Inr ((t, p, pt, lc, count), r'))"
  by (auto simp: reserved_capacity_def split: sum.splits)

lemma reserved_bound: "reserved_capacity kind r = Some count \<Longrightarrow> 36 + 12 * count \<le> length r"
  by (auto simp: reserved_Some_iff append_header_Inr_iff simp del: of_nat_Suc)

lemma reserved_entries:
  assumes "(decode_payload kind r :: 'e codec_error + _) = Inr (AppendEntries t p pt es lc, r')"
  shows "reserved_capacity kind r = Some (length es)"
proof -
  have d: "sizes_fit (AppendEntries t p pt es lc)" "kind = 3"
    "r = snd (encode_payload (AppendEntries t p pt es lc)) @ r'"
    using decode_payload_InrD [OF assms] by auto
  let ?b = "concat (map encode_entry es) @ r'"
  have "12 * length es \<le> length ?b" using length_encode_entries [of es] by simp
  then have "(append_header r :: unit codec_error + _) = Inr ((t, p, pt, lc, length es), ?b)"
    unfolding append_header_Inr_iff using d(1,3) by simp
  then show ?thesis using d(2) by (auto simp: reserved_Some_iff)
qed

lemma forged_count:
  assumes "length h = 32" and "length b < 12 * unat declared"
  shows "(append_header (h @ to_le_bytes32 declared @ b) :: 'e codec_error + _) = Inl Truncated"
proof -
  define h1 h2 h3 h4 where hs: "h1 = take 8 h" "h2 = take 8 (drop 8 h)" "h3 = take 8 (drop 16 h)" "h4 = drop 24 h"
  have "drop 8 h = h2 @ drop 16 h" "drop 16 h = h3 @ h4" "h = h1 @ drop 8 h"
    using append_take_drop_id [of 8 "drop 8 h"] append_take_drop_id [of 8 "drop 16 h"] by (simp_all add: hs)
  then have "h = h1 @ h2 @ h3 @ h4" by simp
  moreover have "length h1 = 8" "length h2 = 8" "length h3 = 8" "length h4 = 8" using assms(1) by (simp_all add: hs)
  ultimately have h: "h = to_le_bytes64 (le_word h1) @ to_le_bytes64 (le_word h2) @ to_le_bytes64 (le_word h3)
      @ to_le_bytes64 (le_word h4)"
    by (simp add: to_le_bytes64_le_word)
  have "length b div 12 < unat declared" using assms(2) by (simp add: div_less_iff_less_mult mult.commute)
  then show ?thesis by (subst h) (simp add: append_header_def codec_simps)
qed

text \<open>
  C28: Allocation.  The capacity the decoder reserves for the entries is covered by the payload,
  12 bytes for each entry after the 36 bytes of the header, whatever count the payload declares
  and whether or not it then decodes; when it decodes, it is the number of entries of the message.
  A count that the rest of the payload cannot hold is refused before anything is reserved.
\<close>

theorem reservation_bounded:
  "(reserved_capacity kind r = Some count \<longrightarrow> 36 + 12 * count \<le> length r)
   \<and> ((decode_payload kind r :: 'e codec_error + _) = Inr (AppendEntries t p pt es lc, r') \<longrightarrow>
       reserved_capacity kind r = Some (length es))
   \<and> (length h = 32 \<longrightarrow> length b < 12 * unat declared \<longrightarrow>
       reserved_capacity 3 (h @ to_le_bytes32 declared @ b) = None
       \<and> (decode_payload 3 (h @ to_le_bytes32 declared @ b) :: 'e codec_error + _) = Inl Truncated)"
proof (intro conjI impI)
  show "reserved_capacity kind r = Some count \<Longrightarrow> 36 + 12 * count \<le> length r" by (rule reserved_bound)
  show "(decode_payload kind r :: 'e codec_error + _) = Inr (AppendEntries t p pt es lc, r') \<Longrightarrow>
       reserved_capacity kind r = Some (length es)" by (rule reserved_entries)
  assume h: "length h = 32" and b: "length b < 12 * unat declared"
  note F = forged_count [OF h b]
  show "reserved_capacity 3 (h @ to_le_bytes32 declared @ b) = None"
    by (simp add: reserved_capacity_def F)
  show "(decode_payload 3 (h @ to_le_bytes32 declared @ b) :: 'e codec_error + _) = Inl Truncated"
    by (simp add: decode_payload_def decode_append_def F)
qed

text \<open>A payload that declares 2 ^ 32 - 1 entries, and one with a single entry.\<close>

theorem reservation_bounded_witness:
  "reserved_capacity 3 (replicate 32 0 @ to_le_bytes32 0xFFFFFFFF @ []) = None
   \<and> reserved_capacity 3 (snd (encode_payload (AppendEntries 3 1 2 [\<lparr>e_term = 3, command = [7, 8]\<rparr>] 1))) = Some 1"
proof -
  let ?m = "AppendEntries 3 1 2 [\<lparr>e_term = 3, command = [7, 8]\<rparr>] 1"
  have d: "(decode_payload 3 (snd (encode_payload ?m)) :: unit codec_error + _) = Inr (?m, [])"
    using decode_payload_encoded [of ?m 3 "snd (encode_payload ?m)" "[]"] by simp
  have "reserved_capacity 3 (snd (encode_payload ?m)) = Some 1"
    using reservation_bounded [THEN conjunct2, THEN conjunct1, rule_format, OF d] by simp
  moreover have "reserved_capacity 3 (replicate 32 0 @ to_le_bytes32 0xFFFFFFFF @ []) = None"
    using reservation_bounded [where 'e = unit and h = "replicate 32 0" and b = "[]" and declared = "0xFFFFFFFF", THEN conjunct2, THEN conjunct2]
    by simp
  ultimately show ?thesis by blast
qed

end
