(* ===== verification/Protocol.thy ===== *)
theory Protocol
  imports Message
begin

text \<open>
  The abstract protocol the node implements: Raft over unbounded natural numbers, as a step
  relation on the state of a whole cluster of \<open>N\<close> nodes and a network that remembers every
  message ever sent (so a message may be lost, delayed, reordered and duplicated).

  The state carries history variables, which no step reads in its guard: who led a term
  (\<open>ldr\<close>), the log of that leader (\<open>llog\<close>, and \<open>elog\<close> at its election), every vote ever cast
  (\<open>cast\<close>) with the voter's log at that time (\<open>vlog\<close>, recorded while the term has no leader),
  and every acknowledgement (\<open>acks\<close>: node, term, number of entries).
\<close>

section \<open>Logs\<close>

definition tm :: "entry \<Rightarrow> nat" where
  "tm e = unat (e_term e)"

definition last_tm :: "entry list \<Rightarrow> nat" where
  "last_tm L = (if L = [] then 0 else tm (last L))"

text \<open>The term of the entry before position \<open>p\<close>, 0 at the start.\<close>

definition tm_before :: "entry list \<Rightarrow> nat \<Rightarrow> nat" where
  "tm_before L p = (if p = 0 then 0 else tm (L ! (p - 1)))"

text \<open>A log described by \<open>(li, lt)\<close> is at least as up to date as \<open>L\<close>.\<close>

definition up_to_date :: "nat \<Rightarrow> nat \<Rightarrow> entry list \<Rightarrow> bool" where
  "up_to_date li lt L \<longleftrightarrow> lt > last_tm L \<or> (lt = last_tm L \<and> li \<ge> length L)"

text \<open>
  Receiving entries from position \<open>p\<close> on: skip what is already there, cut at the first
  conflict, append the rest.
\<close>

fun merge :: "entry list \<Rightarrow> nat \<Rightarrow> entry list \<Rightarrow> entry list" where
  "merge L p [] = L"
| "merge L p (e # es) =
     (if p < length L \<and> tm (L ! p) = tm e then merge L (Suc p) es
      else take p L @ e # es)"

section \<open>State\<close>

datatype arole = AFollower | ACandidate | ALeader

datatype amsg =
    AReq nat nat nat                      \<comment> \<open>term, last index, last term\<close>
  | AVote nat                             \<comment> \<open>a granted vote in a term\<close>
  | AApp nat nat nat "entry list" nat     \<comment> \<open>term, prev index, prev term, entries, commit\<close>
  | AAck nat nat                          \<comment> \<open>term, matched entries\<close>

record raft =
  tmx :: "nodeid \<Rightarrow> nat"
  vot :: "nodeid \<Rightarrow> nodeid option"
  lg :: "nodeid \<Rightarrow> entry list"
  rl :: "nodeid \<Rightarrow> arole"
  ci :: "nodeid \<Rightarrow> nat"
  vs :: "nodeid \<Rightarrow> nodeid set"
  mi :: "nodeid \<Rightarrow> nodeid \<Rightarrow> nat"
  net :: "(nodeid \<times> nodeid \<times> amsg) set"
  ldr :: "nat \<Rightarrow> nodeid option"
  llog :: "nat \<Rightarrow> entry list"
  elog :: "nat \<Rightarrow> entry list"
  cast :: "nodeid \<Rightarrow> nat \<Rightarrow> nodeid option"
  vlog :: "nodeid \<Rightarrow> nat \<Rightarrow> entry list option"
  acks :: "(nodeid \<times> nat \<times> nat) set"

definition init_raft :: raft where
  "init_raft = \<lparr>tmx = (\<lambda>_. 0), vot = (\<lambda>_. None), lg = (\<lambda>_. []), rl = (\<lambda>_. AFollower),
     ci = (\<lambda>_. 0), vs = (\<lambda>_. {}), mi = (\<lambda>_ _. 0), net = {}, ldr = (\<lambda>_. None),
     llog = (\<lambda>_. []), elog = (\<lambda>_. []), cast = (\<lambda>_ _. None), vlog = (\<lambda>_ _. None), acks = {}\<rparr>"

section \<open>Quorums\<close>

locale quorum_system =
  fixes is_quorum :: "nodeid set \<Rightarrow> bool"
  assumes quorums_meet: "is_quorum Q \<Longrightarrow> is_quorum Q' \<Longrightarrow> \<exists>j. j \<in> Q \<and> j \<in> Q'"
begin

lemma quorum_nonempty: "is_quorum Q \<Longrightarrow> Q \<noteq> {}"
  using quorums_meet by blast

text \<open>Two values that a quorum each attests through the same function are equal.\<close>

lemma attested_unique:
  assumes "is_quorum Q" and "\<And>j. j \<in> Q \<Longrightarrow> f j = Some a"
    and "is_quorum Q'" and "\<And>j. j \<in> Q' \<Longrightarrow> f j = Some b"
  shows "a = b"
  using assms quorums_meet [OF assms(1,3)] by force

end

text \<open>\<open>cluster_size / 2 + 1\<close> nodes, out of \<open>N\<close>.\<close>

definition majority :: "nat \<Rightarrow> nodeid set \<Rightarrow> bool" where
  "majority N Q \<longleftrightarrow> Q \<subseteq> {..<N} \<and> card Q \<ge> N div 2 + 1"

interpretation maj: quorum_system "majority N" for N
proof
  fix Q Q' assume Q: "majority N Q" and Q': "majority N Q'"
  show "\<exists>j. j \<in> Q \<and> j \<in> Q'"
  proof (rule ccontr)
    assume "\<nexists>j. j \<in> Q \<and> j \<in> Q'"
    then have "Q \<inter> Q' = {}" by blast
    moreover have fin: "finite Q" "finite Q'"
      using Q Q' unfolding majority_def by (auto intro: finite_subset)
    ultimately have "card (Q \<union> Q') = card Q + card Q'"
      by (rule card_Un_disjoint [rotated 2])
    moreover have "card (Q \<union> Q') \<le> N"
      using Q Q' card_mono [of "{..<N}" "Q \<union> Q'"] by (simp add: majority_def)
    moreover have "N < 2 * (N div 2 + 1)" by presburger
    moreover have "N div 2 + 1 \<le> card Q" "N div 2 + 1 \<le> card Q'"
      using Q Q' by (simp_all add: majority_def)
    ultimately show False by linarith
  qed
qed

section \<open>Steps\<close>

text \<open>A vote, with the voter's log if the term has no leader yet.\<close>

definition cast_vote :: "nodeid \<Rightarrow> nodeid \<Rightarrow> raft \<Rightarrow> raft" where
  "cast_vote i c s = s\<lparr>vot := (vot s)(i := Some c),
     cast := (cast s)(i := (cast s i)(tmx s i := Some c)),
     vlog := (if ldr s (tmx s i) = None
              then (vlog s)(i := (vlog s i)(tmx s i := Some (lg s i))) else vlog s)\<rparr>"

definition send :: "nodeid \<Rightarrow> nodeid \<Rightarrow> amsg \<Rightarrow> raft \<Rightarrow> raft" where
  "send i j m s = s\<lparr>net := insert (i, j, m) (net s)\<rparr>"

definition bump :: "nodeid \<Rightarrow> nat \<Rightarrow> raft \<Rightarrow> raft" where
  "bump i t s = s\<lparr>tmx := (tmx s)(i := t), vot := (vot s)(i := None), rl := (rl s)(i := AFollower)\<rparr>"

definition become_candidate :: "nodeid \<Rightarrow> raft \<Rightarrow> raft" where
  "become_candidate i s = s\<lparr>rl := (rl s)(i := ACandidate), vs := (vs s)(i := {i})\<rparr>"

definition timeout :: "nodeid \<Rightarrow> raft \<Rightarrow> raft" where
  "timeout i s = become_candidate i (cast_vote i i (bump i (Suc (tmx s i)) s))"

definition append_own :: "nodeid \<Rightarrow> entry \<Rightarrow> raft \<Rightarrow> raft" where
  "append_own i e s = s\<lparr>lg := (lg s)(i := lg s i @ [e]),
     llog := (llog s)(tmx s i := lg s i @ [e]),
     acks := insert (i, tmx s i, Suc (length (lg s i))) (acks s)\<rparr>"

definition lead :: "nodeid \<Rightarrow> entry \<Rightarrow> raft \<Rightarrow> raft" where
  "lead i e s = append_own i e (s\<lparr>rl := (rl s)(i := ALeader), mi := (mi s)(i := (\<lambda>_. 0)),
     ldr := (ldr s)(tmx s i := Some i), elog := (elog s)(tmx s i := lg s i)\<rparr>)"

definition accept :: "nodeid \<Rightarrow> nat \<Rightarrow> entry list \<Rightarrow> nat \<Rightarrow> raft \<Rightarrow> raft" where
  "accept i p es lc s = s\<lparr>lg := (lg s)(i := merge (lg s i) p es),
     acks := insert (i, tmx s i, p + length es) (acks s),
     ci := (ci s)(i := if lc > ci s i then min lc (p + length es) else ci s i)\<rparr>"

text \<open>Half of a merge: the log is cut at a conflict, and nothing is appended yet.\<close>

definition cut :: "nodeid \<Rightarrow> nat \<Rightarrow> raft \<Rightarrow> raft" where
  "cut i q s = s\<lparr>lg := (lg s)(i := take q (lg s i))\<rparr>"

inductive rstep :: "nat \<Rightarrow> raft \<Rightarrow> raft \<Rightarrow> bool" for N :: nat where
  r_bump: "i < N \<Longrightarrow> t > tmx s i \<Longrightarrow> rstep N s (bump i t s)"
| r_timeout: "i < N \<Longrightarrow> rstep N s (timeout i s)"
| r_follow: "i < N \<Longrightarrow> rl s i \<noteq> ALeader \<Longrightarrow> rstep N s (s\<lparr>rl := (rl s)(i := AFollower)\<rparr>)"
| r_crash: "i < N \<Longrightarrow> rstep N s (s\<lparr>rl := (rl s)(i := AFollower), ci := (ci s)(i := 0)\<rparr>)"
| r_request: "i < N \<Longrightarrow> rl s i = ACandidate \<Longrightarrow>
    rstep N s (send i j (AReq (tmx s i) (length (lg s i)) (last_tm (lg s i))) s)"
| r_grant: "i < N \<Longrightarrow> (c, i, AReq (tmx s i) li lt) \<in> net s \<Longrightarrow> vot s i = None \<Longrightarrow>
    up_to_date li lt (lg s i) \<Longrightarrow> rstep N s (cast_vote i c s)"
| r_vote: "i < N \<Longrightarrow> vot s i = Some c \<Longrightarrow> rstep N s (send i c (AVote (tmx s i)) s)"
| r_count: "i < N \<Longrightarrow> j < N \<Longrightarrow> (j, i, AVote (tmx s i)) \<in> net s \<Longrightarrow> rl s i = ACandidate \<Longrightarrow>
    rstep N s (s\<lparr>vs := (vs s)(i := insert j (vs s i))\<rparr>)"
| r_lead: "i < N \<Longrightarrow> rl s i = ACandidate \<Longrightarrow> majority N (vs s i) \<Longrightarrow> tm e = tmx s i \<Longrightarrow>
    rstep N s (lead i e s)"
| r_client: "i < N \<Longrightarrow> rl s i = ALeader \<Longrightarrow> tm e = tmx s i \<Longrightarrow> rstep N s (append_own i e s)"
| r_send: "i < N \<Longrightarrow> rl s i = ALeader \<Longrightarrow> p \<le> length (lg s i) \<Longrightarrow>
    rstep N s (send i j (AApp (tmx s i) p (tm_before (lg s i) p) (take k (drop p (lg s i))) (ci s i)) s)"
| r_accept: "i < N \<Longrightarrow> (l, i, AApp (tmx s i) p pt es lc) \<in> net s \<Longrightarrow> rl s i = AFollower \<Longrightarrow>
    p \<le> length (lg s i) \<Longrightarrow> tm_before (lg s i) p = pt \<Longrightarrow> rstep N s (accept i p es lc s)"
| r_cut: "i < N \<Longrightarrow> (l, i, AApp (tmx s i) p pt es lc) \<in> net s \<Longrightarrow> rl s i = AFollower \<Longrightarrow>
    p \<le> length (lg s i) \<Longrightarrow> tm_before (lg s i) p = pt \<Longrightarrow> q < length (lg s i) \<Longrightarrow>
    q < length (merge (lg s i) p es) \<Longrightarrow> merge (lg s i) p es ! q \<noteq> lg s i ! q \<Longrightarrow> rstep N s (cut i q s)"
| r_ack: "i < N \<Longrightarrow> (i, t, m) \<in> acks s \<Longrightarrow> rstep N s (send i j (AAck t m) s)"
| r_match: "i < N \<Longrightarrow> j < N \<Longrightarrow> (j, i, AAck (tmx s i) m) \<in> net s \<Longrightarrow> rl s i = ALeader \<Longrightarrow>
    rstep N s (s\<lparr>mi := (mi s)(i := (mi s i)(j := max (mi s i j) (min m (length (lg s i)))))\<rparr>)"
| r_commit: "i < N \<Longrightarrow> rl s i = ALeader \<Longrightarrow> 0 < k \<Longrightarrow> k \<le> length (lg s i) \<Longrightarrow>
    tm (lg s i ! (k - 1)) = tmx s i \<Longrightarrow> majority N Q \<Longrightarrow> (\<forall>j \<in> Q. j = i \<or> k \<le> mi s i j) \<Longrightarrow>
    rstep N s (s\<lparr>ci := (ci s)(i := k)\<rparr>)"

inductive rreach :: "nat \<Rightarrow> raft \<Rightarrow> bool" for N :: nat where
  rr_init: "rreach N init_raft"
| rr_step: "rreach N s \<Longrightarrow> rstep N s s' \<Longrightarrow> rreach N s'"

end
