(* ===== verification/Log_Lemmas.thy ===== *)
theory Log_Lemmas
  imports Protocol
begin

text \<open>
  Facts about logs alone: what merging received entries into a log does, when the log agrees
  with the leader's log before the entries' position and positions with equal terms hold
  equal entries (which log matching provides).
\<close>

lemma tm_before_take: "take p L = take p G \<Longrightarrow> p \<le> length G \<Longrightarrow> tm_before L p = tm_before G p"
  unfolding tm_before_def using take_eq_nthD [of p L G "p - 1"] by auto

lemma last_tm_nth: "L \<noteq> [] \<Longrightarrow> last_tm L = tm (L ! (length L - 1))"
  by (simp add: last_tm_def last_conv_nth)

lemma slice_Cons:
  assumes "p + length (e # es) \<le> length G" and "e # es = take (length (e # es)) (drop p G)"
  shows "e = G ! p \<and> Suc p + length es \<le> length G \<and> es = take (length es) (drop (Suc p) G)"
proof -
  have "drop p G = G ! p # drop (Suc p) G"
    using assms(1) by (simp add: Cons_nth_drop_Suc)
  then show ?thesis using assms by simp
qed

lemma take_slice: "es = take (length es) (drop p G) \<Longrightarrow> take p G @ es = take (p + length es) G"
  by (metis take_add)

text \<open>
  The result of a merge is the old log, or the leader's log up to the last received entry;
  in both cases it agrees with the leader's log up to there, and every prefix the two
  logs shared before is still there.
\<close>

lemma merge_props:
  assumes "p \<le> length L" and "take p L = take p G"
    and "p + length es \<le> length G" and "es = take (length es) (drop p G)"
    and "\<And>q. q < length L \<Longrightarrow> q < length G \<Longrightarrow> tm (L ! q) = tm (G ! q) \<Longrightarrow> L ! q = G ! q"
  shows "take (p + length es) (merge L p es) = take (p + length es) G
    \<and> (merge L p es = L \<or> merge L p es = take (p + length es) G)
    \<and> (\<forall>k. k \<le> length G \<longrightarrow> take k L = take k G \<longrightarrow> take k (merge L p es) = take k G)"
  using assms
proof (induction es arbitrary: p)
  case Nil
  then show ?case by simp
next
  case (Cons e es)
  note e = slice_Cons [OF Cons.prems(3,4)]
  have pG: "p < length G" using Cons.prems(3) by simp
  show ?case
  proof (cases "p < length L \<and> tm (L ! p) = tm e")
    case True
    then have "L ! p = G ! p" using Cons.prems(5) [of p] pG e by simp
    then have "take (Suc p) L = take (Suc p) G"
      using True pG Cons.prems(2) by (simp add: take_Suc_conv_app_nth)
    then show ?thesis
      using Cons.IH [of "Suc p"] True e Cons.prems(5) by simp
  next
    case False
    have m: "merge L p (e # es) = take (p + length (e # es)) G"
      using False Cons.prems(2) take_slice [OF Cons.prems(4)] by auto
    have "take k (take (p + length (e # es)) G) = take k G"
      if k: "k \<le> length G" "take k L = take k G" for k
    proof -
      have "k \<le> p"
      proof (rule ccontr)
        assume "\<not> k \<le> p"
        moreover have "k \<le> length L" using k take_eq_lengthD [of k L G] by simp
        ultimately have "p < length L" "L ! p = G ! p"
          using k take_eq_nthD [of k L G p] by auto
        then show False using False e by simp
      qed
      then show ?thesis by simp
    qed
    then show ?thesis using m by (metis min.idem take_take)
  qed
qed

end
