(* ===== verification/Protocol_Inv.thy ===== *)
theory Protocol_Inv
  imports Log_Lemmas
begin

text \<open>
  The invariants of the abstract protocol, in three layers: votes and elections
  (\<open>inv_vote\<close>), the shape of the logs (\<open>inv_log\<close>), acknowledgements and commitment
  (\<open>inv_ack\<close>, \<open>inv_commit\<close>).  Each layer is a conjunction of named facts, preserved step by
  step in the theories that follow.  Election safety, log matching, leader completeness and
  state machine safety are consequences of the layers in any one state.
\<close>

section \<open>Votes\<close>

definition inv_cast :: "nat \<Rightarrow> raft \<Rightarrow> bool" where
  "inv_cast N s \<longleftrightarrow>
     (\<forall>i. cast s i (tmx s i) = vot s i)
   \<and> (\<forall>i t c. cast s i t = Some c \<longrightarrow> t \<le> tmx s i \<and> t \<le> tmx s c)
   \<and> (\<forall>i c t. (i, c, AVote t) \<in> net s \<longrightarrow> cast s i t = Some c)
   \<and> (\<forall>i. rl s i = ACandidate \<longrightarrow> (\<forall>j \<in> vs s i. cast s j (tmx s i) = Some i))
   \<and> (\<forall>c j t li lt. (c, j, AReq t li lt) \<in> net s \<longrightarrow> t \<le> tmx s c
        \<and> (rl s c = ACandidate \<longrightarrow> tmx s c = t \<longrightarrow> li = length (lg s c) \<and> lt = last_tm (lg s c)))"

text \<open>
  The recorded voter logs: a vote cast in a term without a leader has one, and the candidate
  it was cast for is as up to date.
\<close>

definition inv_vlog :: "nat \<Rightarrow> raft \<Rightarrow> bool" where
  "inv_vlog N s \<longleftrightarrow>
     (\<forall>i t c. cast s i t = Some c \<longrightarrow> ldr s t = None \<longrightarrow> vlog s i t \<noteq> None)
   \<and> (\<forall>i t. vlog s i t \<noteq> None \<longrightarrow> cast s i t \<noteq> None)
   \<and> (\<forall>i c L. rl s c = ACandidate \<longrightarrow> cast s i (tmx s c) = Some c \<longrightarrow> vlog s i (tmx s c) = Some L \<longrightarrow>
        up_to_date (length (lg s c)) (last_tm (lg s c)) L)"

definition inv_ldr :: "nat \<Rightarrow> raft \<Rightarrow> bool" where
  "inv_ldr N s \<longleftrightarrow>
     (\<forall>t i. ldr s t = Some i \<longrightarrow> i < N \<and> t \<le> tmx s i \<and> (rl s i = ACandidate \<longrightarrow> t \<noteq> tmx s i)
        \<and> (\<exists>Q. majority N Q \<and> (\<forall>j \<in> Q. cast s j t = Some i
             \<and> (\<exists>L. vlog s j t = Some L \<and> up_to_date (length (elog s t)) (last_tm (elog s t)) L))))
   \<and> (\<forall>i. rl s i = ALeader \<longrightarrow> ldr s (tmx s i) = Some i \<and> llog s (tmx s i) = lg s i)"

section \<open>Logs\<close>

text \<open>
  Every prefix of a log that ends in an entry of term \<open>t\<close> is a prefix of the log of the
  leader of \<open>t\<close>.
\<close>

definition wf_log :: "raft \<Rightarrow> entry list \<Rightarrow> bool" where
  "wf_log s L \<longleftrightarrow> (\<forall>k < length L. ldr s (tm (L ! k)) \<noteq> None \<and> k < length (llog s (tm (L ! k)))
     \<and> take (Suc k) L = take (Suc k) (llog s (tm (L ! k))))"

definition inv_log :: "nat \<Rightarrow> raft \<Rightarrow> bool" where
  "inv_log N s \<longleftrightarrow>
     (\<forall>i. wf_log s (lg s i) \<and> (\<forall>e \<in> set (lg s i). tm e \<le> tmx s i))
   \<and> (\<forall>i t L. vlog s i t = Some L \<longrightarrow> wf_log s L)
   \<and> (\<forall>t. ldr s t \<noteq> None \<longrightarrow> wf_log s (llog s t)
        \<and> (\<forall>e \<in> set (elog s t). tm e < t)
        \<and> (\<exists>more. llog s t = elog s t @ more \<and> (\<forall>e \<in> set more. tm e = t)))"

text \<open>An entry is committed in a term: it is of that term, and a quorum acknowledged it to its leader.\<close>

definition committed :: "nat \<Rightarrow> raft \<Rightarrow> nat \<Rightarrow> nat \<Rightarrow> bool" where
  "committed N s t k \<longleftrightarrow> ldr s t \<noteq> None \<and> 0 < k \<and> k \<le> length (llog s t) \<and> tm (llog s t ! (k - 1)) = t
     \<and> (\<exists>Q. majority N Q \<and> (\<forall>j \<in> Q. \<exists>m \<ge> k. (j, t, m) \<in> acks s))"

text \<open>Up to \<open>lc\<close> entries of a log of term \<open>t\<close> are known to be committed.\<close>

definition covered :: "nat \<Rightarrow> raft \<Rightarrow> nat \<Rightarrow> nat \<Rightarrow> bool" where
  "covered N s t lc \<longleftrightarrow> lc = 0 \<or> (\<exists>t' k. t' \<le> t \<and> lc \<le> k \<and> committed N s t' k)"

text \<open>What an AppendEntries message says: a slice of the leader's log and its commit index.\<close>

definition app_ok :: "nat \<Rightarrow> raft \<Rightarrow> nodeid \<Rightarrow> nat \<Rightarrow> nat \<Rightarrow> nat \<Rightarrow> entry list \<Rightarrow> nat \<Rightarrow> bool" where
  "app_ok N s l t p pt es lc \<longleftrightarrow> ldr s t = Some l \<and> p + length es \<le> length (llog s t)
     \<and> es = take (length es) (drop p (llog s t)) \<and> pt = tm_before (llog s t) p
     \<and> covered N s t lc"

definition inv_app :: "nat \<Rightarrow> raft \<Rightarrow> bool" where
  "inv_app N s \<longleftrightarrow>
     (\<forall>l i t p pt es lc. (l, i, AApp t p pt es lc) \<in> net s \<longrightarrow> app_ok N s l t p pt es lc)"

section \<open>Acknowledgements and commitment\<close>

text \<open>Every leader between the terms \<open>t\<close> and \<open>u\<close> was elected with the first \<open>k\<close> entries of the
  leader of \<open>t\<close>.\<close>

definition kept :: "raft \<Rightarrow> nat \<Rightarrow> nat \<Rightarrow> nat \<Rightarrow> bool" where
  "kept s t k u \<longleftrightarrow> (\<forall>t'. t < t' \<longrightarrow> t' < u \<longrightarrow> ldr s t' \<noteq> None \<longrightarrow>
     take k (elog s t') = take k (llog s t))"

text \<open>
  What an acknowledgement of \<open>m\<close> entries in term \<open>t\<close> guarantees: the node's log, and every log
  it voted with later, still holds them, as long as the leaders in between did.
\<close>

definition ack_ok :: "raft \<Rightarrow> nodeid \<Rightarrow> nat \<Rightarrow> nat \<Rightarrow> bool" where
  "ack_ok s j t m \<longleftrightarrow> ldr s t \<noteq> None \<and> m \<le> length (llog s t) \<and> t \<le> tmx s j
     \<and> (\<forall>k \<le> m. kept s t k (Suc (tmx s j)) \<longrightarrow> take k (lg s j) = take k (llog s t))
     \<and> (\<forall>k \<le> m. \<forall>t' L. t < t' \<longrightarrow> vlog s j t' = Some L \<longrightarrow> kept s t k t' \<longrightarrow>
          take k L = take k (llog s t))"

definition inv_ack :: "nat \<Rightarrow> raft \<Rightarrow> bool" where
  "inv_ack N s \<longleftrightarrow>
     (\<forall>j t m. (j, t, m) \<in> acks s \<longrightarrow> ack_ok s j t m)
   \<and> (\<forall>j i t m. (j, i, AAck t m) \<in> net s \<longrightarrow> (j, t, m) \<in> acks s)
   \<and> (\<forall>i j. rl s i = ALeader \<longrightarrow> mi s i j = 0 \<or> (\<exists>m \<ge> mi s i j. (j, tmx s i, m) \<in> acks s))
   \<and> (\<forall>i. rl s i = ALeader \<longrightarrow> (i, tmx s i, length (lg s i)) \<in> acks s)"

definition inv_commit :: "nat \<Rightarrow> raft \<Rightarrow> bool" where
  "inv_commit N s \<longleftrightarrow>
     (\<forall>i. ci s i = 0 \<or> (\<exists>t k. t \<le> tmx s i \<and> ci s i \<le> k \<and> committed N s t k
        \<and> take (ci s i) (lg s i) = take (ci s i) (llog s t)))"

definition rinv :: "nat \<Rightarrow> raft \<Rightarrow> bool" where
  "rinv N s \<longleftrightarrow> inv_cast N s \<and> inv_vlog N s \<and> inv_ldr N s \<and> inv_log N s \<and> inv_app N s
     \<and> inv_ack N s \<and> inv_commit N s"

lemmas inv_defs = inv_cast_def inv_vlog_def inv_ldr_def inv_log_def inv_app_def inv_ack_def
  inv_commit_def

lemma rinv_init: "rinv N init_raft"
  by (simp add: rinv_def inv_defs init_raft_def wf_log_def)

section \<open>Consequences in one state\<close>

text \<open>Log matching: two well-formed logs with equal terms at a position agree up to it.\<close>

lemma wf_log_matching:
  assumes "wf_log s A" and "wf_log s B" and "q < length A" and "q < length B"
    and "tm (A ! q) = tm (B ! q)"
  shows "take (Suc q) A = take (Suc q) B"
proof -
  have "take (Suc q) A = take (Suc q) (llog s (tm (A ! q)))"
    using assms(1,3) unfolding wf_log_def by blast
  also have "\<dots> = take (Suc q) B"
    using assms(2,4,5) unfolding wf_log_def by simp
  finally show ?thesis .
qed

lemma wf_log_matching_nth:
  assumes "wf_log s A" and "wf_log s B" and "q < length A" and "q < length B"
    and "tm (A ! q) = tm (B ! q)"
  shows "A ! q = B ! q"
  using wf_log_matching [OF assms] assms(3,4) by (metis lessI nth_take)

lemma wf_log_take: "wf_log s L \<Longrightarrow> wf_log s (take n L)"
  unfolding wf_log_def by (auto simp: min_def)

lemma wf_log_prefix_cong: "wf_log s L \<Longrightarrow> take n L' = take n L \<Longrightarrow> n = length L' \<Longrightarrow> wf_log s L'"
  using wf_log_take [of s L n] by simp

lemma inv_log_terms_le:
  "inv_log N s \<Longrightarrow> ldr s t \<noteq> None \<Longrightarrow> e \<in> set (llog s t) \<Longrightarrow> tm e \<le> t"
  unfolding inv_log_def by fastforce

lemma wf_log_terms_sorted:
  assumes "inv_log N s" and "wf_log s L" and "i \<le> k" and "k < length L"
  shows "tm (L ! i) \<le> tm (L ! k)"
proof -
  let ?t = "tm (L ! k)"
  have l: "ldr s ?t \<noteq> None" "k < length (llog s ?t)" "take (Suc k) L = take (Suc k) (llog s ?t)"
    using assms(2,4) unfolding wf_log_def by blast+
  have "L ! i = llog s ?t ! i"
    using take_eq_nthD [OF l(3), of i] assms(3) by simp
  then have "L ! i \<in> set (llog s ?t)"
    using l(2) assms(3) by simp
  then show ?thesis by (rule inv_log_terms_le [OF assms(1) l(1)])
qed

text \<open>Election safety, at the moment of a new election: the term has no leader yet.\<close>

lemma new_leader_fresh:
  assumes "inv_cast N s" and "inv_ldr N s" and "rl s i = ACandidate" and "majority N (vs s i)"
  shows "ldr s (tmx s i) = None"
proof (rule ccontr)
  assume "ldr s (tmx s i) \<noteq> None"
  then obtain l where l: "ldr s (tmx s i) = Some l" by blast
  with assms(2) obtain Q where Q: "majority N Q" "\<And>j. j \<in> Q \<Longrightarrow> cast s j (tmx s i) = Some l"
    unfolding inv_ldr_def by blast
  have "\<And>j. j \<in> vs s i \<Longrightarrow> cast s j (tmx s i) = Some i"
    using assms(1,3) unfolding inv_cast_def by blast
  with Q assms(4) have "l = i"
    by (intro maj.attested_unique [of N Q "\<lambda>j. cast s j (tmx s i)" l "vs s i" i])
  with l assms(2,3) show False unfolding inv_ldr_def by blast
qed

end
