(* ===== verification/Protocol_Safety.thy ===== *)
theory Protocol_Safety
  imports Protocol_Inv
begin

text \<open>
  Leader completeness and state machine safety, as consequences of the invariants in one
  state.
\<close>

lemma wf_log_of_leader: "inv_log N s \<Longrightarrow> ldr s t \<noteq> None \<Longrightarrow> wf_log s (llog s t)"
  unfolding inv_log_def by blast

lemma wf_log_of_election: "inv_log N s \<Longrightarrow> ldr s t \<noteq> None \<Longrightarrow> wf_log s (elog s t)"
  unfolding inv_log_def by (metis append_eq_conv_conj wf_log_take)

lemma llog_prefix_elog: "inv_log N s \<Longrightarrow> ldr s t \<noteq> None \<Longrightarrow> take (length (elog s t)) (llog s t) = elog s t"
  unfolding inv_log_def by (metis append_eq_conv_conj)

lemma elected_with_keeps:
  assumes "inv_log N s" and "ldr s t' \<noteq> None" and "k \<le> length G" and "take k (elog s t') = take k G"
  shows "take k (llog s t') = take k G"
proof -
  have "k \<le> length (elog s t')" using assms(3,4) by (metis take_eq_lengthD)
  then show ?thesis
    using llog_prefix_elog [OF assms(1,2)] assms(4) by (metis min.absorb1 take_take)
qed

lemma kept_llog:
  "inv_log N s \<Longrightarrow> kept s t k u \<Longrightarrow> k \<le> length (llog s t) \<Longrightarrow> t < t' \<Longrightarrow> t' < u \<Longrightarrow> ldr s t' \<noteq> None \<Longrightarrow>
    take k (llog s t') = take k (llog s t)"
  unfolding kept_def by (rule elected_with_keeps) auto

text \<open>
  A log that is at least as up to date as one holding the first \<open>k\<close> entries of the leader of
  \<open>t\<close>, the last of them of term \<open>t\<close>, holds them too, provided every later leader up to
  the term of its last entry does.
\<close>

lemma up_to_date_keeps_prefix:
  assumes inv: "inv_log N s" and t: "ldr s t \<noteq> None" "0 < k" "k \<le> length (llog s t)" "tm (llog s t ! (k - 1)) = t"
    and L: "wf_log s L" "take k L = take k (llog s t)"
    and C: "wf_log s C" "up_to_date (length C) (last_tm C) L"
    and kept: "kept s t k (Suc (last_tm C))"
  shows "take k C = take k (llog s t)"
proof -
  have kL: "k \<le> length L" using L(2) t(3) by (rule take_eq_lengthD)
  then have L0: "L \<noteq> []" using t(2) by auto
  have "L ! (k - 1) = llog s t ! (k - 1)"
    using take_eq_nthD [OF L(2), of "k - 1"] t(2) by simp
  then have tL: "t \<le> last_tm L"
    using wf_log_terms_sorted [OF inv L(1), of "k - 1" "length L - 1"] t(4) kL L0 t(2)
    by (simp add: last_tm_nth)
  have lt: "last_tm L \<le> last_tm C" using C(2) unfolding up_to_date_def by auto
  have C0: "C \<noteq> []"
  proof
    assume "C = []"
    then have "last_tm L = 0" "length L = 0"
      using lt C(2) unfolding up_to_date_def by (auto simp: last_tm_def)
    then show False using L0 by simp
  qed
  let ?u = "last_tm C"
  have u: "ldr s ?u \<noteq> None" "length C \<le> length (llog s ?u)" "C = take (length C) (llog s ?u)"
    using C(1) C0 unfolding wf_log_def last_tm_nth [OF C0]
    by (auto dest!: spec [of _ "length C - 1"] simp: Suc_le_eq)
  have pre: "take k (llog s ?u) = take k (llog s t)"
  proof (cases "?u = t")
    case False
    then have "t < ?u" using tL lt by simp
    then show ?thesis using kept_llog [OF inv kept t(3)] u(1) by simp
  qed simp
  have "k \<le> length C"
  proof (cases "last_tm L = ?u")
    case True
    then show ?thesis using C(2) kL unfolding up_to_date_def by simp
  next
    case False
    then have tu: "t < ?u" using tL lt by simp
    show ?thesis
    proof (rule ccontr)
      assume "\<not> k \<le> length C"
      then have i: "length C - 1 < k" by simp
      then have "llog s ?u ! (length C - 1) = llog s t ! (length C - 1)"
        using pre take_eq_nthD by blast
      moreover have "llog s t ! (length C - 1) \<in> set (llog s t)"
        using i t(3) by simp
      moreover have "C ! (length C - 1) = llog s ?u ! (length C - 1)"
        using u(3) C0 by (metis diff_less length_greater_0_conv nth_take zero_less_one)
      ultimately have "?u \<le> t"
        using inv_log_terms_le [OF inv t(1)] last_tm_nth [OF C0] by metis
      with tu show False by simp
    qed
  qed
  then have "take k C = take k (llog s ?u)"
    by (subst u(3)) (simp add: min_def)
  with pre show ?thesis by simp
qed

lemma election_terms_below:
  "inv_log N s \<Longrightarrow> ldr s t \<noteq> None \<Longrightarrow> elog s t \<noteq> [] \<Longrightarrow> last_tm (elog s t) < t"
  unfolding inv_log_def last_tm_def by simp

lemma elected_with_committed:
  assumes inv: "inv_ldr N s" "inv_log N s" "inv_ack N s" and com: "committed N s t k"
    and "t < t'" and "ldr s t' \<noteq> None"
  shows "take k (elog s t') = take k (llog s t)"
  using assms(5,6)
proof (induction t' rule: less_induct)
  case (less t')
  have kept: "kept s t k t'"
    using less.IH unfolding kept_def by blast
  from com obtain Q where t: "ldr s t \<noteq> None" "0 < k" "k \<le> length (llog s t)" "tm (llog s t ! (k - 1)) = t"
    and Q: "majority N Q" "\<And>j. j \<in> Q \<Longrightarrow> \<exists>m \<ge> k. (j, t, m) \<in> acks s"
    unfolding committed_def by blast
  from less.prems(2) inv(1) obtain Q' where Q': "majority N Q'"
    "\<And>j. j \<in> Q' \<Longrightarrow> \<exists>L. vlog s j t' = Some L \<and> up_to_date (length (elog s t')) (last_tm (elog s t')) L"
    unfolding inv_ldr_def by blast
  obtain j m L where j: "m \<ge> k" "(j, t, m) \<in> acks s" "vlog s j t' = Some L"
    "up_to_date (length (elog s t')) (last_tm (elog s t')) L"
    using maj.quorums_meet [OF Q(1) Q'(1)] Q(2) Q'(2) by blast
  have L: "wf_log s L" "take k L = take k (llog s t)"
    using inv(2,3) j(1-3) less.prems(1) kept unfolding inv_log_def inv_ack_def ack_ok_def by blast+
  show ?case
  proof (rule up_to_date_keeps_prefix [OF inv(2) t L wf_log_of_election [OF inv(2) less.prems(2)] j(4)])
    have "Suc (last_tm (elog s t')) \<le> t'"
    proof (cases "elog s t' = []")
      case True
      then show ?thesis using less.prems(1) by (simp add: last_tm_def)
    qed (use election_terms_below [OF inv(2) less.prems(2)] in simp)
    then show "kept s t k (Suc (last_tm (elog s t')))"
      using kept unfolding kept_def by fastforce
  qed
qed

lemma leader_completeness:
  assumes inv: "inv_ldr N s" "inv_log N s" "inv_ack N s" and com: "committed N s t k"
    and "t < t'" and "ldr s t' \<noteq> None"
  shows "take k (llog s t') = take k (llog s t)"
  using elected_with_keeps [OF inv(2) assms(6)] elected_with_committed [OF assms] com
  unfolding committed_def by blast

lemma leader_completeness_le:
  assumes "inv_ldr N s" "inv_log N s" "inv_ack N s" and "committed N s t k"
    and "t \<le> t'" and "ldr s t' \<noteq> None"
  shows "take k (llog s t') = take k (llog s t)"
  using leader_completeness [OF assms(1-4) _ assms(6)] assms(5) by (cases "t = t'") auto

lemma commit_cases [consumes 1, case_names none some]:
  assumes "inv_commit N s"
  obtains (none) "ci s i = 0"
  | (some) t k where "t \<le> tmx s i" and "0 < ci s i" and "ci s i \<le> k" and "committed N s t k"
      and "take (ci s i) (lg s i) = take (ci s i) (llog s t)"
  using assms unfolding inv_commit_def by (metis gr_zeroI)

text \<open>What is committed in two terms agrees: the shorter is a prefix of the longer.\<close>

lemma committed_agree:
  assumes inv: "inv_ldr N s" "inv_log N s" "inv_ack N s"
    and "committed N s t k" and "committed N s t' k'" and "c \<le> k" and "c \<le> k'"
  shows "take c (llog s t) = take c (llog s t')"
proof (cases "t \<le> t'")
  case True
  have "take k (llog s t') = take k (llog s t)"
    using leader_completeness_le [OF inv assms(4) True] assms(5) unfolding committed_def by blast
  then show ?thesis using assms(6) by (metis take_eq_mono)
next
  case False
  then have "take k' (llog s t) = take k' (llog s t')"
    using leader_completeness_le [OF inv assms(5), of t] assms(4) unfolding committed_def by simp
  then show ?thesis using assms(7) by (metis take_eq_mono)
qed

lemma commit_within_log:
  assumes "inv_commit N s"
  shows "ci s i \<le> length (lg s i)"
  using assms
proof (cases rule: commit_cases [where i = i])
  case (some t k)
  then show ?thesis
    using take_eq_lengthD [of "ci s i" "lg s i" "llog s t"] unfolding committed_def by simp
qed simp

lemma state_machine_safety:
  assumes "rinv N s" and "c \<le> ci s i" and "c \<le> ci s j"
  shows "take c (lg s i) = take c (lg s j)"
proof -
  have inv: "inv_ldr N s" "inv_log N s" "inv_ack N s" "inv_commit N s"
    using assms(1) unfolding rinv_def by blast+
  from inv(4) show ?thesis
  proof (cases rule: commit_cases [where i = i])
    case i: (some t k)
    from inv(4) show ?thesis
    proof (cases rule: commit_cases [where i = j])
      case j: (some t' k')
      have "take c (llog s t) = take c (llog s t')"
        using committed_agree [OF inv(1-3) i(4) j(4)] i(3) j(3) assms(2,3) by simp
      then show ?thesis
        using take_eq_mono [OF i(5) assms(2)] take_eq_mono [OF j(5) assms(3)] by simp
    qed (use assms(3) in simp)
  qed (use assms(2) in simp)
qed

text \<open>A leader holds everything that any node has committed in a term up to its own.\<close>

lemma leader_has_committed:
  assumes "rinv N s" and "rl s l = ALeader" and "committed N s t k" and "t \<le> tmx s l"
  shows "take k (lg s l) = take k (llog s t)"
proof -
  have inv: "inv_ldr N s" "inv_log N s" "inv_ack N s"
    using assms(1) unfolding rinv_def by blast+
  have "ldr s (tmx s l) \<noteq> None" "llog s (tmx s l) = lg s l"
    using inv(1) assms(2) unfolding inv_ldr_def by auto
  then show ?thesis
    using leader_completeness_le [OF inv assms(3,4)] by simp
qed

lemma log_matching:
  assumes "rinv N s" and "q < length (lg s i)" and "q < length (lg s j)"
    and "tm (lg s i ! q) = tm (lg s j ! q)"
  shows "take (Suc q) (lg s i) = take (Suc q) (lg s j)"
  using assms wf_log_matching unfolding rinv_def inv_log_def by blast

lemma election_safety:
  assumes "rinv N s" and "rl s i = ALeader" and "rl s j = ALeader" and "tmx s i = tmx s j"
  shows "i = j"
  using assms unfolding rinv_def inv_ldr_def by (metis option.inject)

end
