(* ===== verification/Protocol_Steps.thy ===== *)
theory Protocol_Steps
  imports Protocol_Safety
begin

text \<open>
  Preservation of the vote and log layers of the invariant by the protocol steps.
\<close>

lemmas step_defs = cast_vote_def send_def bump_def become_candidate_def timeout_def
  append_own_def lead_def accept_def cut_def

section \<open>Frames\<close>

text \<open>
  The predicates on the history variables do not see the other fields.
\<close>

named_theorems frames \<open>what the history predicates do not depend on\<close>

lemma wf_log_frame [frames]:
  "wf_log (s\<lparr>tmx := a\<rparr>) L = wf_log s L" "wf_log (s\<lparr>vot := b\<rparr>) L = wf_log s L"
  "wf_log (s\<lparr>lg := c\<rparr>) L = wf_log s L" "wf_log (s\<lparr>rl := d\<rparr>) L = wf_log s L"
  "wf_log (s\<lparr>ci := e\<rparr>) L = wf_log s L" "wf_log (s\<lparr>vs := f\<rparr>) L = wf_log s L"
  "wf_log (s\<lparr>mi := g\<rparr>) L = wf_log s L" "wf_log (s\<lparr>net := h\<rparr>) L = wf_log s L"
  "wf_log (s\<lparr>cast := i\<rparr>) L = wf_log s L" "wf_log (s\<lparr>vlog := j\<rparr>) L = wf_log s L"
  "wf_log (s\<lparr>acks := k\<rparr>) L = wf_log s L" "wf_log (s\<lparr>elog := l\<rparr>) L = wf_log s L"
  by (simp_all add: wf_log_def)

lemma kept_frame [frames]:
  "kept (s\<lparr>tmx := a\<rparr>) = kept s" "kept (s\<lparr>vot := b\<rparr>) = kept s"
  "kept (s\<lparr>lg := c\<rparr>) = kept s" "kept (s\<lparr>rl := d\<rparr>) = kept s"
  "kept (s\<lparr>ci := e\<rparr>) = kept s" "kept (s\<lparr>vs := f\<rparr>) = kept s"
  "kept (s\<lparr>mi := g\<rparr>) = kept s" "kept (s\<lparr>net := h\<rparr>) = kept s"
  "kept (s\<lparr>cast := i\<rparr>) = kept s" "kept (s\<lparr>vlog := j\<rparr>) = kept s"
  "kept (s\<lparr>acks := k\<rparr>) = kept s"
  by (simp_all add: kept_def fun_eq_iff)

lemma committed_frame [frames]:
  "committed N (s\<lparr>tmx := a\<rparr>) = committed N s" "committed N (s\<lparr>vot := b\<rparr>) = committed N s"
  "committed N (s\<lparr>lg := c\<rparr>) = committed N s" "committed N (s\<lparr>rl := d\<rparr>) = committed N s"
  "committed N (s\<lparr>ci := e\<rparr>) = committed N s" "committed N (s\<lparr>vs := f\<rparr>) = committed N s"
  "committed N (s\<lparr>mi := g\<rparr>) = committed N s" "committed N (s\<lparr>net := h\<rparr>) = committed N s"
  "committed N (s\<lparr>cast := i\<rparr>) = committed N s" "committed N (s\<lparr>vlog := j\<rparr>) = committed N s"
  "committed N (s\<lparr>elog := l\<rparr>) = committed N s"
  by (simp_all add: committed_def fun_eq_iff)

lemma covered_frame [frames]:
  "covered N (s\<lparr>tmx := a\<rparr>) = covered N s" "covered N (s\<lparr>vot := b\<rparr>) = covered N s"
  "covered N (s\<lparr>lg := c\<rparr>) = covered N s" "covered N (s\<lparr>rl := d\<rparr>) = covered N s"
  "covered N (s\<lparr>ci := e\<rparr>) = covered N s" "covered N (s\<lparr>vs := f\<rparr>) = covered N s"
  "covered N (s\<lparr>mi := g\<rparr>) = covered N s" "covered N (s\<lparr>net := h\<rparr>) = covered N s"
  "covered N (s\<lparr>cast := i\<rparr>) = covered N s" "covered N (s\<lparr>vlog := j\<rparr>) = covered N s"
  "covered N (s\<lparr>elog := l\<rparr>) = covered N s"
  by (simp_all add: covered_def frames fun_eq_iff)

section \<open>History only grows\<close>

definition grows :: "raft \<Rightarrow> raft \<Rightarrow> bool" where
  "grows s s' \<longleftrightarrow> (\<forall>t. ldr s t \<noteq> None \<longrightarrow> ldr s' t = ldr s t
      \<and> elog s' t = elog s t \<and> take (length (llog s t)) (llog s' t) = llog s t)
    \<and> acks s \<subseteq> acks s'"

lemma grows_ldr: "grows s s' \<Longrightarrow> ldr s t \<noteq> None \<Longrightarrow> ldr s' t = ldr s t"
  unfolding grows_def by blast

lemma grows_elog: "grows s s' \<Longrightarrow> ldr s t \<noteq> None \<Longrightarrow> elog s' t = elog s t"
  unfolding grows_def by blast

lemma grows_take:
  assumes "grows s s'" and "ldr s t \<noteq> None" and "k \<le> length (llog s t)"
  shows "take k (llog s' t) = take k (llog s t)" and "k \<le> length (llog s' t)"
proof -
  have eq: "take (length (llog s t)) (llog s' t) = llog s t"
    using assms(1,2) unfolding grows_def by blast
  then show "take k (llog s' t) = take k (llog s t)"
    using assms(3) by (metis min.absorb1 take_take)
  then show "k \<le> length (llog s' t)"
    using assms(3) take_eq_lengthD by blast
qed

lemma grows_wf_log:
  assumes g: "grows s s'" and L: "wf_log s L"
  shows "wf_log s' L"
  unfolding wf_log_def
proof (intro allI impI)
  fix k assume k: "k < length L"
  let ?t = "tm (L ! k)"
  have old: "ldr s ?t \<noteq> None" "Suc k \<le> length (llog s ?t)" "take (Suc k) L = take (Suc k) (llog s ?t)"
    using L k unfolding wf_log_def by (auto simp: Suc_le_eq)
  show "ldr s' ?t \<noteq> None \<and> k < length (llog s' ?t) \<and> take (Suc k) L = take (Suc k) (llog s' ?t)"
    using grows_ldr [OF g old(1)] grows_take [OF g old(1,2)] old(1,3) by (simp add: Suc_le_eq)
qed

lemma grows_committed:
  assumes g: "grows s s'" and c: "committed N s t k"
  shows "committed N s' t k"
proof -
  have t: "ldr s t \<noteq> None" "k \<le> length (llog s t)" "0 < k" "tm (llog s t ! (k - 1)) = t"
    using c unfolding committed_def by blast+
  have "llog s' t ! (k - 1) = llog s t ! (k - 1)"
    using take_eq_nthD [OF grows_take(1) [OF g t(1,2)], of "k - 1"] t(3) by simp
  moreover have "\<exists>Q. majority N Q \<and> (\<forall>j \<in> Q. \<exists>m \<ge> k. (j, t, m) \<in> acks s')"
    using c g unfolding committed_def grows_def by blast
  ultimately show ?thesis
    using t grows_ldr [OF g t(1)] grows_take(2) [OF g t(1,2)] unfolding committed_def by simp
qed

lemma grows_covered: "grows s s' \<Longrightarrow> covered N s t lc \<Longrightarrow> covered N s' t lc"
  unfolding covered_def using grows_committed by blast

lemma grows_kept:
  assumes g: "grows s s'" and "ldr s t \<noteq> None" and "k \<le> length (llog s t)" and "kept s' t k u"
  shows "kept s t k u"
  using assms(4) grows_ldr [OF g] grows_elog [OF g] grows_take(1) [OF g assms(2,3)]
  unfolding kept_def by metis

section \<open>Votes\<close>

lemma inv_castD:
  assumes "inv_cast N s"
  shows "cast s i (tmx s i) = vot s i"
    and "cast s i t = Some c \<Longrightarrow> t \<le> tmx s i" and "cast s i t = Some c \<Longrightarrow> t \<le> tmx s c"
    and "(i, c, AVote t) \<in> net s \<Longrightarrow> cast s i t = Some c"
    and "rl s i = ACandidate \<Longrightarrow> j \<in> vs s i \<Longrightarrow> cast s j (tmx s i) = Some i"
    and "(c, j, AReq t li lt) \<in> net s \<Longrightarrow> t \<le> tmx s c"
    and "(c, j, AReq (tmx s c) li lt) \<in> net s \<Longrightarrow> rl s c = ACandidate \<Longrightarrow>
      li = length (lg s c) \<and> lt = last_tm (lg s c)"
  using assms unfolding inv_cast_def by blast+

lemma inv_cast_fresh: "inv_cast N s \<Longrightarrow> tmx s i < t \<Longrightarrow> cast s i t = None"
  using inv_castD(2) [of N s i t] by (cases "cast s i t") auto

text \<open>A history of casts that only adds the current vote of a node.\<close>

lemma inv_cast_frame:
  assumes "inv_cast N s" and "cast s' = cast s" and "\<And>j. tmx s j \<le> tmx s' j"
    and "\<And>j. cast s j (tmx s' j) = vot s' j"
    and "\<And>j c t. (j, c, AVote t) \<in> net s' \<Longrightarrow> (j, c, AVote t) \<in> net s \<or> t = tmx s j \<and> vot s j = Some c"
    and "\<And>c. rl s' c = ACandidate \<Longrightarrow> rl s c = ACandidate \<and> tmx s' c = tmx s c \<and> lg s' c = lg s c
      \<and> (\<forall>j \<in> vs s' c. j \<in> vs s c \<or> cast s j (tmx s c) = Some c)"
    and "\<And>c j t li lt. (c, j, AReq t li lt) \<in> net s' \<Longrightarrow> (c, j, AReq t li lt) \<in> net s
      \<or> t = tmx s c \<and> li = length (lg s c) \<and> lt = last_tm (lg s c)"
  shows "inv_cast N s'"
proof -
  note D = inv_castD [OF assms(1)]
  show ?thesis
    unfolding inv_cast_def assms(2)
  proof (intro conjI allI impI ballI)
    show "t \<le> tmx s' i" if "cast s i t = Some c" for i t c
      using D(2) that assms(3) le_trans by blast
    show "t \<le> tmx s' c" if "cast s i t = Some c" for i t c
      using D(3) that assms(3) le_trans by blast
    show "cast s i t = Some c" if "(i, c, AVote t) \<in> net s'" for i c t
      using assms(5) [OF that] D(1,4) by auto
    show "cast s j (tmx s' i) = Some i" if "rl s' i = ACandidate" "j \<in> vs s' i" for i j
      using assms(6) [OF that(1)] that(2) D(5) by auto
    show "t \<le> tmx s' c" if "(c, j, AReq t li lt) \<in> net s'" for c j t li lt
      using assms(7) [OF that] D(6) assms(3) le_trans by blast
    show "li = length (lg s' c)" "lt = last_tm (lg s' c)"
      if "(c, j, AReq t li lt) \<in> net s'" "rl s' c = ACandidate" "tmx s' c = t" for c j t li lt
      using assms(6) [OF that(2)] assms(7) [OF that(1)] D(7) that(3) by auto
  qed (rule assms(4))
qed

lemma inv_cast_timeout:
  assumes "inv_cast N s"
  shows "inv_cast N (timeout i s)"
proof -
  note D = inv_castD [OF assms] and fresh = inv_cast_fresh [OF assms, of i "Suc (tmx s i)"]
  have new: "j \<noteq> Suc (tmx s i)" if "cast s c j = Some i" for c j using D(3) that by fastforce
  show ?thesis
    unfolding inv_cast_def step_defs
    using D(1) fresh new
    by (auto dest: D(2-7) intro: le_SucI)
qed

lemma inv_cast_grant:
  assumes "inv_cast N s" and "(c, i, AReq (tmx s i) li lt) \<in> net s" and "vot s i = None"
  shows "inv_cast N (cast_vote i c s)"
proof -
  note D = inv_castD [OF assms(1)]
  have "cast s i (tmx s i) = None" using D(1) assms(3) by simp
  then show ?thesis
    using D(1) assms(2) unfolding inv_cast_def step_defs
    by (auto dest: D(2-7))
qed

lemma inv_cast_step: "rstep N s s' \<Longrightarrow> inv_cast N s \<Longrightarrow> inv_cast N s'"
proof (induction rule: rstep.induct)
  case (r_timeout i s)
  then show ?case by (simp add: inv_cast_timeout)
next
  case (r_grant i c s li lt)
  then show ?case by (blast intro: inv_cast_grant)
next
  case (r_bump i t s)
  then show ?case
    by (intro inv_cast_frame [OF r_bump.prems])
      (auto simp: step_defs inv_castD(1) inv_cast_fresh split: if_splits)
qed ((rule inv_cast_frame, assumption, auto simp: step_defs inv_castD(1) dest: inv_castD(4) split: if_splits)[1])+

lemma inv_vlogD:
  assumes "inv_vlog N s"
  shows "cast s i t = Some c \<Longrightarrow> ldr s t = None \<Longrightarrow> \<exists>L. vlog s i t = Some L"
    and "cast s i t = None \<Longrightarrow> vlog s i t = None"
    and "rl s c = ACandidate \<Longrightarrow> cast s i (tmx s c) = Some c \<Longrightarrow> vlog s i (tmx s c) = Some L \<Longrightarrow>
      up_to_date (length (lg s c)) (last_tm (lg s c)) L"
    and "vlog s i t = Some L \<Longrightarrow> \<exists>c. cast s i t = Some c"
  using assms unfolding inv_vlog_def by blast+

lemma inv_vlog_frame:
  assumes "inv_vlog N s" and "cast s' = cast s" and "vlog s' = vlog s"
    and "\<And>t. ldr s' t = None \<Longrightarrow> ldr s t = None"
    and "\<And>c. rl s' c = ACandidate \<Longrightarrow> rl s c = ACandidate \<and> tmx s' c = tmx s c \<and> lg s' c = lg s c"
  shows "inv_vlog N s'"
  unfolding inv_vlog_def assms(2,3)
  using assms(4,5) inv_vlogD [OF assms(1)] by (metis option.distinct(1))

lemma up_to_date_self: "up_to_date (length L) (last_tm L) L"
  by (simp add: up_to_date_def)

lemma inv_vlog_timeout:
  assumes "inv_cast N s" and "inv_vlog N s"
  shows "inv_vlog N (timeout i s)"
proof -
  note D = inv_vlogD [OF assms(2)]
  have new: "cast s j (Suc (tmx s i)) \<noteq> Some i" for j using inv_castD(3) [OF assms(1)] by fastforce
  have "vlog s i (Suc (tmx s i)) = None"
    using D(2) inv_cast_fresh [OF assms(1)] by simp
  then show ?thesis
    unfolding inv_vlog_def step_defs
    using D new by (auto simp: up_to_date_self dest: D(4))
qed

lemma inv_vlog_grant:
  assumes "inv_cast N s" and "inv_vlog N s" and "(c, i, AReq (tmx s i) li lt) \<in> net s"
    and "vot s i = None" and "up_to_date li lt (lg s i)"
  shows "inv_vlog N (cast_vote i c s)"
proof -
  note D = inv_vlogD [OF assms(2)]
  have none: "cast s i (tmx s i) = None" "vlog s i (tmx s i) = None"
    using D(2) inv_castD(1) [OF assms(1)] assms(4) by simp_all
  have "up_to_date (length (lg s c)) (last_tm (lg s c)) (lg s i)"
    if "rl s c = ACandidate" "tmx s i = tmx s c"
    using inv_castD(7) [OF assms(1)] assms(3,5) that by metis
  then show ?thesis
    unfolding inv_vlog_def step_defs
    using D none by (auto split: if_splits dest: D(4))
qed

lemma inv_vlog_step:
  "rstep N s s' \<Longrightarrow> inv_cast N s \<Longrightarrow> inv_vlog N s \<Longrightarrow> inv_vlog N s'"
proof (induction rule: rstep.induct)
  case (r_timeout i s)
  then show ?case by (simp add: inv_vlog_timeout)
next
  case (r_grant i c s li lt)
  then show ?case by (blast intro: inv_vlog_grant)
qed ((rule inv_vlog_frame, assumption, auto simp: step_defs split: if_splits)[1])+

lemma inv_ldrD:
  assumes "inv_ldr N s"
  shows "ldr s t = Some i \<Longrightarrow> i < N" and "ldr s t = Some i \<Longrightarrow> t \<le> tmx s i"
    and "ldr s t = Some i \<Longrightarrow> rl s i = ACandidate \<Longrightarrow> t \<noteq> tmx s i"
    and "ldr s t = Some i \<Longrightarrow> \<exists>Q. majority N Q \<and> (\<forall>j \<in> Q. cast s j t = Some i
      \<and> (\<exists>L. vlog s j t = Some L \<and> up_to_date (length (elog s t)) (last_tm (elog s t)) L))"
    and "rl s i = ALeader \<Longrightarrow> ldr s (tmx s i) = Some i"
    and "rl s i = ALeader \<Longrightarrow> llog s (tmx s i) = lg s i"
  using assms unfolding inv_ldr_def by blast+

lemma inv_ldr_frame:
  assumes "inv_ldr N s" and "ldr s' = ldr s" and "elog s' = elog s"
    and "\<And>j t c. cast s j t = Some c \<Longrightarrow> cast s' j t = Some c"
    and "\<And>j t L. vlog s j t = Some L \<Longrightarrow> vlog s' j t = Some L"
    and "\<And>i. tmx s i \<le> tmx s' i"
    and "\<And>i. rl s' i = ACandidate \<Longrightarrow> tmx s i < tmx s' i \<or> rl s i = ACandidate \<and> tmx s' i = tmx s i"
    and "\<And>i. rl s' i = ALeader \<Longrightarrow> rl s i = ALeader \<and> tmx s' i = tmx s i
      \<and> llog s' (tmx s i) = lg s' i"
  shows "inv_ldr N s'"
proof -
  note D = inv_ldrD [OF assms(1)]
  show ?thesis
    unfolding inv_ldr_def assms(2,3)
  proof (intro conjI allI impI)
    fix t i assume t: "ldr s t = Some i"
    show "i < N" by (rule D(1) [OF t])
    show "t \<le> tmx s' i" using D(2) [OF t] assms(6) le_trans by blast
    show "t \<noteq> tmx s' i" if "rl s' i = ACandidate"
      using assms(7) [OF that] D(2,3) [OF t] by fastforce
    show "\<exists>Q. majority N Q \<and> (\<forall>j \<in> Q. cast s' j t = Some i
        \<and> (\<exists>L. vlog s' j t = Some L \<and> up_to_date (length (elog s t)) (last_tm (elog s t)) L))"
      using D(4) [OF t] assms(4,5) by meson
  next
    fix i assume "rl s' i = ALeader"
    then show "ldr s (tmx s' i) = Some i" "llog s' (tmx s' i) = lg s' i"
      using assms(8) D(5) by auto
  qed
qed

lemma inv_ldr_lead:
  assumes inv: "inv_cast N s" "inv_vlog N s" "inv_ldr N s"
    and i: "i < N" "rl s i = ACandidate" "majority N (vs s i)"
  shows "inv_ldr N (lead i e s)"
proof -
  note D = inv_ldrD [OF inv(3)]
  note fresh = new_leader_fresh [OF inv(1,3) i(2,3)]
  have "\<exists>L. vlog s j (tmx s i) = Some L \<and> up_to_date (length (lg s i)) (last_tm (lg s i)) L"
    if "j \<in> vs s i" for j
    using inv_castD(5) [OF inv(1) i(2) that] inv_vlogD(1,3) [OF inv(2)] fresh i(2) by metis
  then have "\<exists>Q. majority N Q \<and> (\<forall>j \<in> Q. cast s j (tmx s i) = Some i
      \<and> (\<exists>L. vlog s j (tmx s i) = Some L \<and> up_to_date (length (lg s i)) (last_tm (lg s i)) L))"
    using i inv_castD(5) [OF inv(1) i(2)] by blast
  then show ?thesis
    unfolding inv_ldr_def step_defs
    using D fresh i(1) by auto (metis D(5) option.distinct(1))+
qed

lemma inv_ldr_step:
  "rstep N s s' \<Longrightarrow> inv_cast N s \<Longrightarrow> inv_vlog N s \<Longrightarrow> inv_ldr N s \<Longrightarrow> inv_ldr N s'"
proof (induction rule: rstep.induct)
  case (r_timeout i s)
  have none: "cast s i (Suc (tmx s i)) = None" "vlog s i (Suc (tmx s i)) = None"
    using inv_cast_fresh [OF r_timeout(2)] inv_vlogD(2) [OF r_timeout(3)] by simp_all
  then show ?case
    by (intro inv_ldr_frame [OF r_timeout(4)])
      (auto simp: step_defs inv_ldrD(6) [OF r_timeout(4)] split: if_splits)
next
  case (r_grant i c s li lt)
  have none: "cast s i (tmx s i) = None" "vlog s i (tmx s i) = None"
    using inv_castD(1) [OF r_grant(5)] inv_vlogD(2) [OF r_grant(6)] r_grant(3) by simp_all
  then show ?case
    by (intro inv_ldr_frame [OF r_grant(7)])
      (auto simp: step_defs inv_ldrD(6) [OF r_grant(7)] split: if_splits)
next
  case (r_lead i s e)
  then show ?case by (blast intro: inv_ldr_lead)
next
  case (r_client i s e)
  have "j = i" if "rl s j = ALeader" "tmx s j = tmx s i" for j
    using inv_ldrD(5) [OF r_client(6)] that r_client(2) by (metis option.inject)
  then show ?case
    by (intro inv_ldr_frame [OF r_client(6)])
      (auto simp: step_defs inv_ldrD(6) [OF r_client(6)] split: if_splits)
qed ((rule inv_ldr_frame, assumption, auto simp: step_defs inv_ldrD(6) less_imp_le split: if_splits)[1])+

end
