(* ===== verification/Protocol_Logs.thy ===== *)
theory Protocol_Logs
  imports Protocol_Steps
begin

text \<open>
  Preservation of the log layer: history only grows, and every log stays a prefix of leaders'
  logs.
\<close>

lemma grows_step:
  "rstep N s s' \<Longrightarrow> inv_cast N s \<Longrightarrow> inv_ldr N s \<Longrightarrow> grows s s'"
proof (induction rule: rstep.induct)
  case (r_lead i s e)
  then have "ldr s (tmx s i) = None" by (blast intro: new_leader_fresh)
  then show ?case by (auto simp: grows_def step_defs)
next
  case (r_client i s e)
  then show ?case by (auto simp: grows_def step_defs inv_ldrD(6))
qed (auto simp: grows_def step_defs)

lemma inv_logD:
  assumes "inv_log N s"
  shows "wf_log s (lg s i)" and "e \<in> set (lg s i) \<Longrightarrow> tm e \<le> tmx s i"
    and "vlog s i t = Some L \<Longrightarrow> wf_log s L"
    and "ldr s t \<noteq> None \<Longrightarrow> wf_log s (llog s t)"
    and "ldr s t \<noteq> None \<Longrightarrow> e \<in> set (elog s t) \<Longrightarrow> tm e < t"
    and "ldr s t \<noteq> None \<Longrightarrow> \<exists>more. llog s t = elog s t @ more \<and> (\<forall>e \<in> set more. tm e = t)"
  using assms unfolding inv_log_def by blast+

lemma inv_logI:
  assumes "\<And>i. wf_log s (lg s i)" and "\<And>i e. e \<in> set (lg s i) \<Longrightarrow> tm e \<le> tmx s i"
    and "\<And>i t L. vlog s i t = Some L \<Longrightarrow> wf_log s L"
    and "\<And>t. ldr s t \<noteq> None \<Longrightarrow> wf_log s (llog s t)
        \<and> (\<forall>e \<in> set (elog s t). tm e < t)
        \<and> (\<exists>more. llog s t = elog s t @ more \<and> (\<forall>e \<in> set more. tm e = t))"
  shows "inv_log N s"
  unfolding inv_log_def using assms by blast

lemma inv_log_frame:
  assumes inv: "inv_log N s" and g: "grows s s'" and "ldr s' = ldr s" and "llog s' = llog s" and "elog s' = elog s"
    and "\<And>i. wf_log s (lg s' i) \<and> (\<forall>e \<in> set (lg s' i). tm e \<le> tmx s' i)"
    and "\<And>i t L. vlog s' i t = Some L \<Longrightarrow> vlog s i t = Some L \<or> L = lg s i"
  shows "inv_log N s'"
proof (rule inv_logI)
  show "wf_log s' (lg s' i)" for i using assms(6) grows_wf_log [OF g] by blast
  show "tm e \<le> tmx s' i" if "e \<in> set (lg s' i)" for i e using assms(6) that by blast
  show "wf_log s' L" if "vlog s' i t = Some L" for i t L
    using assms(7) [OF that] inv_logD(1,3) [OF inv] grows_wf_log [OF g] by blast
  show "wf_log s' (llog s' t) \<and> (\<forall>e \<in> set (elog s' t). tm e < t)
        \<and> (\<exists>more. llog s' t = elog s' t @ more \<and> (\<forall>e \<in> set more. tm e = t))"
    if "ldr s' t \<noteq> None" for t
    using that inv_logD(4-6) [OF inv, of t] grows_wf_log [OF g] unfolding assms(3-5) by blast
qed

text \<open>A leader's log extended by an entry of its term.\<close>

lemma wf_log_snoc:
  assumes "grows s s'" and "wf_log s L" and "ldr s' (tm e) \<noteq> None" and "llog s' (tm e) = L @ [e]"
  shows "wf_log s' (L @ [e])"
proof -
  have "wf_log s' L" by (rule grows_wf_log [OF assms(1,2)])
  then show ?thesis
    using assms(3,4) unfolding wf_log_def by (auto simp: nth_append less_Suc_eq)
qed

lemma inv_log_lead:
  assumes "inv_cast N s" "inv_ldr N s" and inv: "inv_log N s" and g: "grows s (lead i e s)"
    and i: "rl s i = ACandidate" "majority N (vs s i)" "tm e = tmx s i"
  shows "inv_log N (lead i e s)"
proof -
  let ?s = "lead i e s" and ?t = "tmx s i"
  have fresh: "ldr s ?t = None" by (rule new_leader_fresh [OF assms(1,2) i(1,2)])
  have old: "tm x < ?t" if x: "x \<in> set (lg s i)" for x
  proof -
    obtain k where "k < length (lg s i)" "x = lg s i ! k" using x by (metis in_set_conv_nth)
    then have "ldr s (tm x) \<noteq> None" using inv_logD(1) [OF inv, of i] unfolding wf_log_def by blast
    then have "tm x \<noteq> ?t" using fresh by auto
    then show ?thesis using inv_logD(2) [OF inv x] by simp
  qed
  have new: "wf_log ?s (lg s i @ [e])"
    by (rule wf_log_snoc [OF g inv_logD(1) [OF inv]]) (simp_all add: step_defs i(3))
  have keep: "wf_log ?s L" if "wf_log s L" for L by (rule grows_wf_log [OF g that])
  have l: "ldr ?s t = Some i \<and> llog ?s t = lg s i @ [e] \<and> elog ?s t = lg s i" if "t = ?t" for t
    using that by (simp add: step_defs)
  have l': "ldr ?s t = ldr s t \<and> llog ?s t = llog s t \<and> elog ?s t = elog s t" if "t \<noteq> ?t" for t
    using that by (simp add: step_defs)
  have lg': "lg ?s j = (if j = i then lg s i @ [e] else lg s j)" for j by (simp add: step_defs)
  have same: "vlog ?s = vlog s" "tmx ?s = tmx s" by (simp_all add: step_defs)
  show ?thesis
  proof (rule inv_logI)
    show "wf_log ?s (lg ?s j)" for j using new keep inv_logD(1) [OF inv] lg' by simp
    show "tm x \<le> tmx ?s j" if "x \<in> set (lg ?s j)" for j x
      using that inv_logD(2) [OF inv] i(3) same lg' by (auto split: if_splits)
    show "wf_log ?s L" if "vlog ?s j t = Some L" for j t L
      using that keep inv_logD(3) [OF inv] same by simp
    fix t assume t: "ldr ?s t \<noteq> None"
    show "wf_log ?s (llog ?s t) \<and> (\<forall>e \<in> set (elog ?s t). tm e < t)
        \<and> (\<exists>more. llog ?s t = elog ?s t @ more \<and> (\<forall>e \<in> set more. tm e = t))"
    proof (cases "t = ?t")
      case True
      then show ?thesis using l [OF True] new old i(3) by simp
    next
      case False
      then show ?thesis using l' [OF False] t keep inv_logD(4-6) [OF inv, of t] by simp
    qed
  qed
qed

lemma inv_log_client:
  assumes "inv_ldr N s" and inv: "inv_log N s" and g: "grows s (append_own i e s)"
    and i: "rl s i = ALeader" "tm e = tmx s i"
  shows "inv_log N (append_own i e s)"
proof -
  let ?s = "append_own i e s" and ?t = "tmx s i"
  have ldr: "ldr s ?t \<noteq> None" "llog s ?t = lg s i"
    using inv_ldrD(5,6) [OF assms(1) i(1)] by simp_all
  have new: "wf_log ?s (lg s i @ [e])"
    by (rule wf_log_snoc [OF g inv_logD(1) [OF inv]]) (use ldr in \<open>simp_all add: step_defs i(2)\<close>)
  have keep: "wf_log ?s L" if "wf_log s L" for L by (rule grows_wf_log [OF g that])
  have lg': "lg ?s j = (if j = i then lg s i @ [e] else lg s j)" for j by (simp add: step_defs)
  have llog': "llog ?s t = (if t = ?t then lg s i @ [e] else llog s t)" for t by (simp add: step_defs)
  have same: "vlog ?s = vlog s" "tmx ?s = tmx s" "ldr ?s = ldr s" "elog ?s = elog s"
    by (simp_all add: step_defs)
  show ?thesis
  proof (rule inv_logI)
    show "wf_log ?s (lg ?s j)" for j using new keep inv_logD(1) [OF inv] lg' by simp
    show "tm x \<le> tmx ?s j" if "x \<in> set (lg ?s j)" for j x
      using that inv_logD(2) [OF inv] i(2) same lg' by (auto split: if_splits)
    show "wf_log ?s L" if "vlog ?s j t = Some L" for j t L
      using that keep inv_logD(3) [OF inv] same by simp
    fix t assume t: "ldr ?s t \<noteq> None"
    then obtain more where "llog s t = elog s t @ more" "\<forall>x \<in> set more. tm x = t"
      using inv_logD(6) [OF inv, of t] same by auto
    then have "\<exists>more. llog ?s t = elog ?s t @ more \<and> (\<forall>e \<in> set more. tm e = t)"
      using ldr i(2) same llog' [of t] by (cases "t = ?t") (auto intro: exI [of _ "more @ [e]"])
    then show "wf_log ?s (llog ?s t) \<and> (\<forall>e \<in> set (elog ?s t). tm e < t)
        \<and> (\<exists>more. llog ?s t = elog ?s t @ more \<and> (\<forall>e \<in> set more. tm e = t))"
      using t new keep inv_logD(4,5) [OF inv, of t] same llog' [of t] by simp
  qed
qed

text \<open>Accepting entries makes the log agree with the leader's up to the last of them.\<close>

lemma accept_merge:
  assumes inv: "inv_log N s" "inv_app N s"
    and msg: "(l, i, AApp t p pt es lc) \<in> net s" and p: "p \<le> length (lg s i)" "tm_before (lg s i) p = pt"
  shows "ldr s t \<noteq> None \<and> p + length es \<le> length (llog s t)
    \<and> take (p + length es) (merge (lg s i) p es) = take (p + length es) (llog s t)
    \<and> (merge (lg s i) p es = lg s i \<or> merge (lg s i) p es = take (p + length es) (llog s t))
    \<and> (\<forall>k \<le> length (llog s t). take k (lg s i) = take k (llog s t) \<longrightarrow>
         take k (merge (lg s i) p es) = take k (llog s t))"
proof -
  let ?L = "lg s i" and ?G = "llog s t"
  have m: "ldr s t \<noteq> None" "p + length es \<le> length ?G" "es = take (length es) (drop p ?G)"
    "pt = tm_before ?G p"
    using inv(2) msg unfolding inv_app_def app_ok_def by blast+
  have wf: "wf_log s ?L" "wf_log s ?G"
    using inv_logD(1,4) [OF inv(1)] m(1) by auto
  have pre: "take p ?L = take p ?G"
  proof (cases p)
    case (Suc q)
    then have "take (Suc q) ?L = take (Suc q) ?G"
      using p m(2,4) by (intro wf_log_matching [OF wf]) (auto simp: tm_before_def)
    then show ?thesis using Suc by simp
  qed simp
  show ?thesis
    using merge_props [OF p(1) pre m(2,3) wf_log_matching_nth [OF wf]] m(1,2) by blast
qed

lemma inv_log_accept:
  assumes inv: "inv_log N s" "inv_app N s" and g: "grows s (accept i p es lc s)"
    and msg: "(l, i, AApp (tmx s i) p pt es lc) \<in> net s" and p: "p \<le> length (lg s i)" "tm_before (lg s i) p = pt"
  shows "inv_log N (accept i p es lc s)"
proof (rule inv_log_frame [OF inv(1) g])
  note a = accept_merge [OF inv msg p]
  have G: "wf_log s (take n (llog s (tmx s i)))" for n
    using a inv_logD(4) [OF inv(1)] wf_log_take by blast
  have T: "tm e \<le> tmx s i" if "e \<in> set (take n (llog s (tmx s i)))" for n e
    using a that inv_log_terms_le [OF inv(1)] in_set_takeD by metis
  have "wf_log s (merge (lg s i) p es) \<and> (\<forall>e \<in> set (merge (lg s i) p es). tm e \<le> tmx s i)"
    using a G T inv_logD(1,2) [OF inv(1)] by metis
  then show "wf_log s (lg (accept i p es lc s) j) \<and> (\<forall>e \<in> set (lg (accept i p es lc s) j). tm e \<le> tmx (accept i p es lc s) j)" for j
    using inv_logD(1,2) [OF inv(1)] by (simp add: step_defs)
qed (simp_all add: step_defs)

lemma inv_log_step:
  "rstep N s s' \<Longrightarrow> rinv N s \<Longrightarrow> inv_log N s'"
proof -
  assume step: "rstep N s s'" and rinv: "rinv N s"
  have inv: "inv_cast N s" "inv_ldr N s" "inv_log N s" "inv_app N s"
    using rinv unfolding rinv_def by blast+
  have g: "grows s s'" by (rule grows_step [OF step inv(1,2)])
  from step g show ?thesis
  proof (cases rule: rstep.cases)
    case (r_lead i e)
    then show ?thesis using inv g by (blast intro: inv_log_lead)
  next
    case (r_client i e)
    then show ?thesis using inv g by (blast intro: inv_log_client)
  next
    case (r_accept i l p pt es lc)
    then show ?thesis using inv g by (blast intro: inv_log_accept)
  next
    case (r_cut i l p pt es lc q)
    then show ?thesis
      using inv_logD(1,2) [OF inv(3)] wf_log_take
      by (intro inv_log_frame [OF inv(3) g]) (auto simp: step_defs dest: in_set_takeD)
  next
    case (r_bump i t)
    have "tm e \<le> t" if "e \<in> set (lg s i)" for e
      using inv_logD(2) [OF inv(3) that] r_bump(3) by simp
    then show ?thesis
      using r_bump inv_logD(1,2) [OF inv(3)]
      by (intro inv_log_frame [OF inv(3) g]) (auto simp: step_defs)
  next
    case (r_timeout i)
    then show ?thesis
      using inv_logD(1,2) [OF inv(3)]
      by (intro inv_log_frame [OF inv(3) g]) (auto simp: step_defs le_Suc_eq split: if_splits)
  qed ((rule inv_log_frame [OF inv(3) g];
        (auto simp: step_defs inv_logD(1,2) [OF inv(3)] split: if_splits)))+
qed

end
