(* ===== verification/Protocol_Commit.thy ===== *)
theory Protocol_Commit
  imports Protocol_Logs
begin

text \<open>
  Preservation of the message, acknowledgement and commit layers, and the invariant of every
  reachable state of the protocol.
\<close>

section \<open>Messages carrying entries\<close>

lemma inv_appD:
  assumes "inv_app N s" and "(l, i, AApp t p pt es lc) \<in> net s"
  shows "ldr s t = Some l" and "p + length es \<le> length (llog s t)"
    and "es = take (length es) (drop p (llog s t))" and "pt = tm_before (llog s t) p"
    and "covered N s t lc"
  using assms unfolding inv_app_def app_ok_def by blast+

lemma slice_take_eq: "take n A = take n B \<Longrightarrow> p + k \<le> n \<Longrightarrow> take k (drop p A) = take k (drop p B)"
  by (metis take_drop take_eq_mono add.commute)

lemma tm_before_cong: "take n A = take n B \<Longrightarrow> p \<le> n \<Longrightarrow> tm_before A p = tm_before B p"
  unfolding tm_before_def using take_eq_nthD [of n A B "p - 1"] by auto

lemma inv_app_grows:
  assumes inv: "inv_app N s" and g: "grows s s'"
    and new: "\<And>l i t p pt es lc. (l, i, AApp t p pt es lc) \<in> net s' \<Longrightarrow>
      (l, i, AApp t p pt es lc) \<in> net s \<or> app_ok N s l t p pt es lc"
  shows "inv_app N s'"
  unfolding inv_app_def
proof (intro allI impI)
  fix l i t p pt es lc assume "(l, i, AApp t p pt es lc) \<in> net s'"
  then have "app_ok N s l t p pt es lc" using new inv unfolding inv_app_def by blast
  then have m: "ldr s t = Some l" "p + length es \<le> length (llog s t)"
    "es = take (length es) (drop p (llog s t))" "pt = tm_before (llog s t) p" "covered N s t lc"
    unfolding app_ok_def by blast+
  then have t: "ldr s t \<noteq> None" by simp
  note pre = grows_take [OF g t m(2)]
  show "app_ok N s' l t p pt es lc"
    unfolding app_ok_def
    using m pre(2) grows_ldr [OF g t] grows_covered [OF g m(5)]
      slice_take_eq [OF pre(1), of p "length es"] tm_before_cong [OF pre(1), of p]
    by simp
qed

lemma inv_commit_covered: "inv_commit N s \<Longrightarrow> covered N s (tmx s i) (ci s i)"
  unfolding inv_commit_def covered_def by meson

lemma take_slice_self: "take k (drop p L) = take (length (take k (drop p L))) (drop p L)"
  by (simp add: min_def)

lemma inv_app_step: "rstep N s s' \<Longrightarrow> rinv N s \<Longrightarrow> inv_app N s'"
proof -
  assume step: "rstep N s s'" and rinv: "rinv N s"
  have inv: "inv_cast N s" "inv_ldr N s" "inv_app N s" "inv_commit N s"
    using rinv unfolding rinv_def by blast+
  have g: "grows s s'" by (rule grows_step [OF step inv(1,2)])
  from step show ?thesis
  proof (cases rule: rstep.cases)
    case (r_send i p j k)
    show ?thesis
    proof (rule inv_app_grows [OF inv(3) g])
      fix l i' t p' pt es lc
      assume "(l, i', AApp t p' pt es lc) \<in> net s'"
      then consider "(l, i', AApp t p' pt es lc) \<in> net s"
        | "l = i" "t = tmx s i" "p' = p" "pt = tm_before (lg s i) p" "es = take k (drop p (lg s i))" "lc = ci s i"
        using r_send(1) by (auto simp: send_def)
      then show "(l, i', AApp t p' pt es lc) \<in> net s \<or> app_ok N s l t p' pt es lc"
      proof cases
        case 2
        have "p + length es \<le> length (lg s i)" using 2 r_send(4) by simp
        then have "app_ok N s l t p' pt es lc"
          unfolding app_ok_def using 2 inv_ldrD(5,6) [OF inv(2) r_send(3)] inv_commit_covered [OF inv(4)] r_send(4)
            take_slice_self [of k p "lg s i"]
          by simp
        then show ?thesis ..
      qed simp
    qed
  qed ((rule inv_app_grows [OF inv(3) g]; (auto simp: step_defs)))+
qed

section \<open>Acknowledgements\<close>

lemma inv_ackD:
  assumes "inv_ack N s" and "(j, t, m) \<in> acks s"
  shows "ldr s t \<noteq> None" and "m \<le> length (llog s t)" and "t \<le> tmx s j"
    and "k \<le> m \<Longrightarrow> kept s t k (Suc (tmx s j)) \<Longrightarrow> take k (lg s j) = take k (llog s t)"
    and "k \<le> m \<Longrightarrow> t < t' \<Longrightarrow> vlog s j t' = Some L \<Longrightarrow> kept s t k t' \<Longrightarrow> take k L = take k (llog s t)"
  using assms unfolding inv_ack_def ack_ok_def by blast+

lemma inv_ackD':
  assumes "inv_ack N s"
  shows "(j, i, AAck t m) \<in> net s \<Longrightarrow> (j, t, m) \<in> acks s"
    and "rl s i = ALeader \<Longrightarrow> mi s i j = 0 \<or> (\<exists>m \<ge> mi s i j. (j, tmx s i, m) \<in> acks s)"
    and "rl s i = ALeader \<Longrightarrow> (i, tmx s i, length (lg s i)) \<in> acks s"
  using assms unfolding inv_ack_def ack_ok_def by blast+

lemma kept_mono: "kept s t k u \<Longrightarrow> u' \<le> u \<Longrightarrow> kept s t k u'"
  unfolding kept_def by auto

lemma kept_Suc: "kept s t k u \<Longrightarrow> ldr s u = None \<Longrightarrow> kept s t k (Suc u)"
  unfolding kept_def by (metis less_Suc_eq)

lemma inv_ack_frame:
  assumes inv: "inv_ack N s" "inv_cast N s" "inv_vlog N s" and g: "grows s s'"
    and tmx: "\<And>j. tmx s j \<le> tmx s' j"
    and lg: "\<And>j t k. t \<le> tmx s j \<Longrightarrow> ldr s t \<noteq> None \<Longrightarrow> k \<le> length (llog s t) \<Longrightarrow>
      kept s t k (Suc (tmx s j)) \<Longrightarrow> take k (lg s j) = take k (llog s t) \<Longrightarrow>
      take k (lg s' j) = take k (llog s t)"
    and vlog: "\<And>j t' L. vlog s' j t' = Some L \<Longrightarrow> vlog s j t' = Some L
      \<or> L = lg s j \<and> ldr s t' = None \<and> t' = tmx s' j \<and> t' \<le> Suc (tmx s j)"
    and acks: "\<And>j t m. (j, t, m) \<in> acks s' \<Longrightarrow> (j, t, m) \<in> acks s
      \<or> t = tmx s' j \<and> tmx s' j = tmx s j \<and> ldr s' t \<noteq> None \<and> m \<le> length (llog s' t)
        \<and> take m (lg s' j) = take m (llog s' t)"
    and net: "\<And>j i t m. (j, i, AAck t m) \<in> net s' \<Longrightarrow> (j, i, AAck t m) \<in> net s \<or> (j, t, m) \<in> acks s"
    and mi: "\<And>i j. rl s' i = ALeader \<Longrightarrow> mi s' i j = 0 \<or> (\<exists>m \<ge> mi s' i j. (j, tmx s' i, m) \<in> acks s)
      \<or> rl s i = ALeader \<and> tmx s' i = tmx s i \<and> mi s' i j = mi s i j"
    and own: "\<And>i. rl s' i = ALeader \<Longrightarrow> (i, tmx s' i, length (lg s' i)) \<in> acks s'"
  shows "inv_ack N s'"
proof -
  have mono: "acks s \<subseteq> acks s'" using g unfolding grows_def by blast
  have old: "ack_ok s' j t m" if a: "(j, t, m) \<in> acks s" for j t m
  proof -
    note A = inv_ackD [OF inv(1) a]
    note pre = grows_take [OF g A(1)]
    have now: "take k (lg s' j) = take k (llog s' t)" if "k \<le> m" "kept s' t k (Suc (tmx s' j))" for k
    proof -
      have k: "kept s t k (Suc (tmx s j))" "k \<le> length (llog s t)"
        using that tmx [of j] A(2) kept_mono [OF grows_kept [OF g A(1)]] by (meson Suc_le_mono le_trans)+
      show ?thesis using lg [OF A(3,1) k(2,1) A(4) [OF that(1) k(1)]] pre(1) [OF k(2)] by simp
    qed
    have then_log: "take k L = take k (llog s' t)"
      if k: "k \<le> m" "t < t'" "vlog s' j t' = Some L" "kept s' t k t'" for k t' L
    proof -
      have kl: "k \<le> length (llog s t)" using k(1) A(2) by simp
      have kept: "kept s t k t'" by (rule grows_kept [OF g A(1) kl k(4)])
      have "take k L = take k (llog s t)"
        using vlog [OF k(3)]
      proof
        assume "vlog s j t' = Some L"
        then show ?thesis using A(5) k(1,2) kept by blast
      next
        assume new: "L = lg s j \<and> ldr s t' = None \<and> t' = tmx s' j \<and> t' \<le> Suc (tmx s j)"
        then have "kept s t k (Suc t')" using kept kept_Suc by blast
        then have "kept s t k (Suc (tmx s j))" using new tmx [of j] kept_mono by fastforce
        then show ?thesis using A(4) k(1) new by blast
      qed
      then show ?thesis using pre(1) [OF kl] by simp
    qed
    show ?thesis
      unfolding ack_ok_def
      using now then_log A(1,3) grows_ldr [OF g A(1)] pre(2) [OF A(2)] tmx [of j] by auto
  qed
  have new: "ack_ok s' j t m" if a: "t = tmx s' j \<and> tmx s' j = tmx s j \<and> ldr s' t \<noteq> None \<and> m \<le> length (llog s' t)
        \<and> take m (lg s' j) = take m (llog s' t)" for j t m
  proof -
    have "vlog s' j t' \<noteq> Some L" if t': "t < t'" for t' L
    proof
      assume v: "vlog s' j t' = Some L"
      have "tmx s j < t'" "tmx s' j < t'" using a t' by simp_all
      then have "vlog s j t' = None"
        using inv_cast_fresh [OF inv(2)] inv_vlogD(2) [OF inv(3)] by blast
      then show False using vlog [OF v] \<open>tmx s' j < t'\<close> by simp
    qed
    moreover have "take k (lg s' j) = take k (llog s' t)" if "k \<le> m" for k
      using a take_eq_mono [OF _ that] by blast
    moreover have "t \<le> tmx s' j" using a by simp
    ultimately show ?thesis unfolding ack_ok_def using a by blast
  qed
  show ?thesis
    unfolding inv_ack_def
  proof (intro conjI)
    show "\<forall>j t m. (j, t, m) \<in> acks s' \<longrightarrow> ack_ok s' j t m"
    proof (intro allI impI)
      fix j t m assume "(j, t, m) \<in> acks s'"
      from acks [OF this] show "ack_ok s' j t m" by (rule disjE) (rule old new, assumption)+
    qed
    show "\<forall>j i t m. (j, i, AAck t m) \<in> net s' \<longrightarrow> (j, t, m) \<in> acks s'"
    proof (intro allI impI)
      fix j i t m assume "(j, i, AAck t m) \<in> net s'"
      then have "(j, t, m) \<in> acks s" using net inv_ackD'(1) [OF inv(1)] by blast
      then show "(j, t, m) \<in> acks s'" using mono by blast
    qed
    show "\<forall>i j. rl s' i = ALeader \<longrightarrow> mi s' i j = 0 \<or> (\<exists>m \<ge> mi s' i j. (j, tmx s' i, m) \<in> acks s')"
    proof (intro allI impI)
      fix i j assume "rl s' i = ALeader"
      from mi [OF this, of j] have "mi s' i j = 0 \<or> (\<exists>m \<ge> mi s' i j. (j, tmx s' i, m) \<in> acks s)"
        using inv_ackD'(2) [OF inv(1), of i j] by (elim disjE conjE) simp_all
      then show "mi s' i j = 0 \<or> (\<exists>m \<ge> mi s' i j. (j, tmx s' i, m) \<in> acks s')"
        using mono by blast
    qed
  qed (intro allI impI own; assumption)+
qed

lemma accept_keeps:
  assumes inv: "inv_log N s" "inv_app N s"
    and msg: "(l, i, AApp (tmx s i) p pt es lc) \<in> net s" and p: "p \<le> length (lg s i)" "tm_before (lg s i) p = pt"
    and G: "take k (llog s (tmx s i)) = take k (llog s t)" "k \<le> length (llog s t)"
    and L: "take k (lg s i) = take k (llog s t)"
  shows "take k (merge (lg s i) p es) = take k (llog s t)"
proof -
  have "k \<le> length (llog s (tmx s i))" by (rule take_eq_lengthD [OF G])
  then show ?thesis using accept_merge [OF inv msg p] G(1) L by metis
qed

lemma accept_keeps_kept:
  assumes inv: "inv_log N s" "inv_app N s"
    and msg: "(l, i, AApp (tmx s i) p pt es lc) \<in> net s" and p: "p \<le> length (lg s i)" "tm_before (lg s i) p = pt"
    and t: "t \<le> tmx s i" and k: "k \<le> length (llog s t)" and kept: "kept s t k (Suc (tmx s i))"
    and L: "take k (lg s i) = take k (llog s t)"
  shows "take k (merge (lg s i) p es) = take k (llog s t)"
proof (rule accept_keeps [OF inv msg p _ k L])
  show "take k (llog s (tmx s i)) = take k (llog s t)"
    using kept_llog [OF inv(1) kept k] t accept_merge [OF inv msg p] by (cases "t = tmx s i") auto
qed

text \<open>What a merge keeps lies before the first conflict, so the cut at a conflict keeps it too.\<close>

lemma cut_keeps:
  assumes "take k M = take k G" and "take k L = take k G" and "M ! q \<noteq> L ! q"
  shows "take k (take q L) = take k G"
proof -
  have "k \<le> q"
    using assms take_eq_nthD [of k M L q] by (metis not_le)
  then show ?thesis using assms(2) by (simp add: min_def)
qed

lemma inv_ack_cut:
  assumes rinv: "rinv N s" and g: "grows s (cut i q s)"
    and msg: "(l, i, AApp (tmx s i) p pt es lc) \<in> net s" and "rl s i = AFollower"
    and p: "p \<le> length (lg s i)" "tm_before (lg s i) p = pt" and q: "merge (lg s i) p es ! q \<noteq> lg s i ! q"
  shows "inv_ack N (cut i q s)"
proof -
  have inv: "inv_cast N s" "inv_vlog N s" "inv_log N s" "inv_app N s" "inv_ack N s"
    using rinv unfolding rinv_def by blast+
  have keep: "take k (take q (lg s i)) = take k (llog s t)"
    if "t \<le> tmx s i" "k \<le> length (llog s t)" "kept s t k (Suc (tmx s i))" "take k (lg s i) = take k (llog s t)" for t k
    by (rule cut_keeps [OF accept_keeps_kept [OF inv(3,4) msg p that] that(4) q])
  show ?thesis
    using keep inv_ackD'(1,2,3) [OF inv(5)] \<open>rl s i = AFollower\<close>
    by (intro inv_ack_frame [OF inv(5,1,2) g]) (auto simp: step_defs simp del: take_take split: if_splits)
qed

lemma inv_ack_accept:
  assumes rinv: "rinv N s" and g: "grows s (accept i p es lc s)"
    and msg: "(l, i, AApp (tmx s i) p pt es lc) \<in> net s" and "rl s i = AFollower"
    and p: "p \<le> length (lg s i)" "tm_before (lg s i) p = pt"
  shows "inv_ack N (accept i p es lc s)"
proof -
  have inv: "inv_cast N s" "inv_vlog N s" "inv_log N s" "inv_app N s" "inv_ack N s"
    using rinv unfolding rinv_def by blast+
  note a = accept_merge [OF inv(3,4) msg p] and keep = accept_keeps_kept [OF inv(3,4) msg p]
  show ?thesis
    using a keep inv_ackD'(1,2,3) [OF inv(5)] \<open>rl s i = AFollower\<close>
    by (intro inv_ack_frame [OF inv(5,1,2) g]) (auto simp: step_defs split: if_splits)
qed

lemma inv_ack_lead:
  assumes rinv: "rinv N s" and g: "grows s (lead i e s)"
  shows "inv_ack N (lead i e s)"
proof -
  have inv: "inv_cast N s" "inv_vlog N s" "inv_ack N s"
    using rinv unfolding rinv_def by blast+
  have keep: "take k (lg s i @ [e]) = take k (llog s t)"
    if "take k (lg s i) = take k (llog s t)" "k \<le> length (llog s t)" for k t
    using that take_eq_lengthD [of k "lg s i" "llog s t"] by simp
  show ?thesis
    using keep inv_ackD'(1,2,3) [OF inv(3)]
    by (intro inv_ack_frame [OF inv(3,1,2) g]) (auto simp: step_defs split: if_splits)
qed

lemma inv_ack_client:
  assumes rinv: "rinv N s" and g: "grows s (append_own i e s)" and "rl s i = ALeader"
  shows "inv_ack N (append_own i e s)"
proof -
  have inv: "inv_cast N s" "inv_vlog N s" "inv_ack N s" "inv_ldr N s"
    using rinv unfolding rinv_def by blast+
  have keep: "take k (lg s i @ [e]) = take k (llog s t)"
    if "take k (lg s i) = take k (llog s t)" "k \<le> length (llog s t)" for k t
    using that take_eq_lengthD [of k "lg s i" "llog s t"] by simp
  show ?thesis
    using keep inv_ackD'(1,2,3) [OF inv(3)] inv_ldrD(5) [OF inv(4) assms(3)]
    by (intro inv_ack_frame [OF inv(3,1,2) g]) (auto simp: step_defs split: if_splits)
qed

lemma inv_ack_match:
  assumes "inv_ack N s" and "(j, i, AAck (tmx s i) m) \<in> net s" and "rl s i = ALeader"
    and "x = max (mi s i j) (min m L)"
  shows "x = 0 \<or> (\<exists>m' \<ge> x. (j, tmx s i, m') \<in> acks s)"
proof -
  have ack: "(j, tmx s i, m) \<in> acks s" by (rule inv_ackD'(1) [OF assms(1,2)])
  show ?thesis
  proof (cases "mi s i j \<le> m")
    case True
    then have "x \<le> m" using assms(4) by simp
    then show ?thesis using ack by blast
  next
    case False
    then have "x = mi s i j" using assms(4) by simp
    then show ?thesis using inv_ackD'(2) [OF assms(1,3)] by simp
  qed
qed

lemma inv_ack_step: "rstep N s s' \<Longrightarrow> rinv N s \<Longrightarrow> inv_ack N s'"
proof -
  assume step: "rstep N s s'" and rinv: "rinv N s"
  have inv: "inv_cast N s" "inv_vlog N s" "inv_ldr N s" "inv_ack N s"
    using rinv unfolding rinv_def by blast+
  have g: "grows s s'" by (rule grows_step [OF step inv(1,3)])
  note frame = inv_ack_frame [OF inv(4,1,2) g] and A = inv_ackD'(1,2,3) [OF inv(4)]
  from step show ?thesis
  proof (cases rule: rstep.cases)
    case (r_lead i e)
    then show ?thesis using inv_ack_lead [OF rinv] g by simp
  next
    case (r_client i e)
    then show ?thesis using inv_ack_client [OF rinv] g by simp
  next
    case (r_accept i l p pt es lc)
    then show ?thesis using inv_ack_accept [OF rinv] g by simp
  next
    case (r_cut i l p pt es lc q)
    then show ?thesis using inv_ack_cut [OF rinv] g by simp
  next
    case (r_match i j m)
    then show ?thesis
      using A inv_ack_match [OF inv(4) r_match(4,5) refl, of "length (lg s i)"]
      by (intro frame) (auto split: if_splits)
  next
    case (r_timeout i)
    then show ?thesis using A by (intro frame) (auto simp: step_defs split: if_splits)
  next
    case (r_grant i c li lt)
    then show ?thesis using A by (intro frame) (auto simp: step_defs split: if_splits)
  qed ((rule frame; (use A in \<open>auto simp: step_defs split: if_splits\<close>)))+
qed

section \<open>Commitment\<close>

lemma inv_commit_frame:
  assumes inv: "inv_commit N s" and g: "grows s s'"
    and tmx: "\<And>j. tmx s j \<le> tmx s' j"
    and lg: "\<And>j t k. t \<le> tmx s j \<Longrightarrow> committed N s t k \<Longrightarrow> ci s j \<le> k \<Longrightarrow>
      take (ci s j) (lg s j) = take (ci s j) (llog s t) \<Longrightarrow> take (ci s j) (lg s' j) = take (ci s j) (llog s t)"
    and ci: "\<And>j. ci s' j = ci s j \<or> ci s' j = 0
      \<or> (\<exists>t k. t \<le> tmx s' j \<and> ci s' j \<le> k \<and> committed N s t k
           \<and> take (ci s' j) (lg s' j) = take (ci s' j) (llog s t))"
  shows "inv_commit N s'"
  unfolding inv_commit_def
proof (intro allI)
  fix j
  have new: "\<exists>t k. t \<le> tmx s' j \<and> c \<le> k \<and> committed N s' t k \<and> take c (lg s' j) = take c (llog s' t)"
    if "t \<le> tmx s' j" "c \<le> k" "committed N s t k" "take c (lg s' j) = take c (llog s t)" for t k c
  proof -
    have "ldr s t \<noteq> None" "c \<le> length (llog s t)" using that(2,3) unfolding committed_def by auto
    then show ?thesis using that grows_committed [OF g that(3)] grows_take(1) [OF g] by metis
  qed
  show "ci s' j = 0 \<or> (\<exists>t k. t \<le> tmx s' j \<and> ci s' j \<le> k \<and> committed N s' t k
        \<and> take (ci s' j) (lg s' j) = take (ci s' j) (llog s' t))"
    using ci [of j]
  proof (elim disjE)
    assume eq: "ci s' j = ci s j"
    from inv show ?thesis
    proof (cases rule: commit_cases [where i = j])
      case (some t k)
      have "t \<le> tmx s' j" using some(1) tmx le_trans by blast
      then show ?thesis using new some(3,4) lg [OF some(1,4,3,5)] unfolding eq by blast
    qed (use eq in simp)
  qed (use new in blast)+
qed

text \<open>No received entries overwrite a committed prefix.\<close>

lemma accept_keeps_committed:
  assumes rinv: "rinv N s" and msg: "(l, i, AApp (tmx s i) p pt es lc) \<in> net s"
    and p: "p \<le> length (lg s i)" "tm_before (lg s i) p = pt"
    and c: "t \<le> tmx s i" "committed N s t k" "c \<le> k" "take c (lg s i) = take c (llog s t)"
  shows "take c (merge (lg s i) p es) = take c (llog s t)"
proof -
  have inv: "inv_ldr N s" "inv_log N s" "inv_ack N s" "inv_app N s"
    using rinv unfolding rinv_def by blast+
  note a = accept_merge [OF inv(2,4) msg p]
  have "take k (llog s (tmx s i)) = take k (llog s t) \<and> k \<le> length (llog s t)"
    using leader_completeness_le [OF inv(1-3) c(2,1)] a c(2) unfolding committed_def by blast
  then show ?thesis
    using accept_keeps [OF inv(2,4) msg p _ _ c(4)] c(3) by (meson le_trans take_eq_mono)
qed

lemma inv_commit_accept:
  assumes rinv: "rinv N s" and g: "grows s (accept i p es lc s)"
    and msg: "(l, i, AApp (tmx s i) p pt es lc) \<in> net s"
    and p: "p \<le> length (lg s i)" "tm_before (lg s i) p = pt"
  shows "inv_commit N (accept i p es lc s)"
proof -
  have inv: "inv_ldr N s" "inv_log N s" "inv_ack N s" "inv_app N s" "inv_commit N s"
    using rinv unfolding rinv_def by blast+
  note a = accept_merge [OF inv(2,4) msg p]
  have lead: "take k (llog s (tmx s i)) = take k (llog s t) \<and> k \<le> length (llog s t)"
    if "t \<le> tmx s i" "committed N s t k" for t k
    using leader_completeness_le [OF inv(1-3) that(2,1)] a that(2) unfolding committed_def by blast
  note keep = accept_keeps_committed [OF rinv msg p]
  have new: "c = 0 \<or> (\<exists>t k. t \<le> tmx s i \<and> c \<le> k \<and> committed N s t k
      \<and> take c (merge (lg s i) p es) = take c (llog s t))" if c: "c = min lc (p + length es)" for c
  proof (cases "lc = 0")
    case False
    then obtain t k where t: "t \<le> tmx s i" "lc \<le> k" "committed N s t k"
      using inv_appD(5) [OF inv(4) msg] unfolding covered_def by blast
    have "take c (merge (lg s i) p es) = take c (llog s (tmx s i))"
      using a c by (meson min.cobounded2 take_eq_mono)
    also have "\<dots> = take c (llog s t)"
      using lead [OF t(1,3)] t(2) c by (meson le_trans min.cobounded1 take_eq_mono)
    finally have "take c (merge (lg s i) p es) = take c (llog s t)" .
    moreover have "c \<le> k" using c t(2) by simp
    ultimately show ?thesis using t by blast
  qed (use c in simp)
  show ?thesis
  proof (rule inv_commit_frame [OF inv(5) g])
    show "ci (accept i p es lc s) j = ci s j \<or> ci (accept i p es lc s) j = 0
      \<or> (\<exists>t k. t \<le> tmx (accept i p es lc s) j \<and> ci (accept i p es lc s) j \<le> k \<and> committed N s t k
        \<and> take (ci (accept i p es lc s) j) (lg (accept i p es lc s) j) =
            take (ci (accept i p es lc s) j) (llog s t))" for j
      using new [OF refl] by (simp add: accept_def)
  qed (use keep in \<open>auto simp: accept_def split: if_splits\<close>)
qed

lemma inv_commit_commit:
  assumes rinv: "rinv N s" and i: "rl s i = ALeader" "0 < k" "k \<le> length (lg s i)"
    "tm (lg s i ! (k - 1)) = tmx s i" "majority N Q" "\<forall>j \<in> Q. j = i \<or> k \<le> mi s i j"
  shows "committed N s (tmx s i) k"
proof -
  have inv: "inv_ldr N s" "inv_ack N s" using rinv unfolding rinv_def by blast+
  have l: "ldr s (tmx s i) \<noteq> None" "llog s (tmx s i) = lg s i"
    using inv_ldrD(5,6) [OF inv(1) i(1)] by simp_all
  have "\<exists>m \<ge> k. (j, tmx s i, m) \<in> acks s" if "j \<in> Q" for j
  proof (cases "j = i")
    case True
    then show ?thesis using inv_ackD'(3) [OF inv(2) i(1)] i(3) by blast
  next
    case False
    then have "k \<le> mi s i j" using i(6) that by blast
    then obtain m where "m \<ge> mi s i j" "(j, tmx s i, m) \<in> acks s"
      using inv_ackD'(2) [OF inv(2) i(1), of j] i(2) by auto
    then show ?thesis using \<open>k \<le> mi s i j\<close> le_trans by blast
  qed
  then show ?thesis using l i unfolding committed_def by auto
qed

lemma inv_commit_step: "rstep N s s' \<Longrightarrow> rinv N s \<Longrightarrow> inv_commit N s'"
proof -
  assume step: "rstep N s s'" and rinv: "rinv N s"
  have inv: "inv_cast N s" "inv_ldr N s" "inv_commit N s"
    using rinv unfolding rinv_def by blast+
  have g: "grows s s'" by (rule grows_step [OF step inv(1,2)])
  note frame = inv_commit_frame [OF inv(3) g]
  have own: "take (ci s i) (lg s i @ [e]) = take (ci s i) (lg s i)" for i e
    using commit_within_log [OF inv(3)] by simp
  from step show ?thesis
  proof (cases rule: rstep.cases)
    case (r_lead i e)
    then show ?thesis using own by (intro frame) (auto simp: step_defs)
  next
    case (r_client i e)
    then show ?thesis using own by (intro frame) (auto simp: step_defs)
  next
    case (r_accept i l p pt es lc)
    then show ?thesis using inv_commit_accept [OF rinv] g by simp
  next
    case (r_cut i l p pt es lc q)
    note keep = cut_keeps [OF accept_keeps_committed [OF rinv r_cut(3,5,6)] _ r_cut(9)]
    show ?thesis
      using keep unfolding r_cut(1) by (intro frame [unfolded r_cut(1)]) (auto simp: step_defs simp del: take_take split: if_splits)
  next
    case (r_commit i k Q)
    have "take k (lg s i) = take k (llog s (tmx s i))"
      using inv_ldrD(6) [OF inv(2) r_commit(3)] by simp
    then show ?thesis
      using r_commit inv_commit_commit [OF rinv r_commit(3-8)]
      by (intro frame) auto
  qed ((rule frame; (auto simp: step_defs)))+
qed

section \<open>A committed prefix is never lost\<close>

text \<open>Node \<open>i\<close> holds the first \<open>c\<close> entries that were committed in a term it has reached.\<close>

definition holds :: "nat \<Rightarrow> raft \<Rightarrow> nodeid \<Rightarrow> nat \<Rightarrow> bool" where
  "holds N s i c \<longleftrightarrow> (\<exists>t k. t \<le> tmx s i \<and> committed N s t k \<and> c \<le> k
     \<and> take c (lg s i) = take c (llog s t))"

lemma holds_frame:
  assumes "holds N s i c" and g: "grows s s'" and "tmx s i \<le> tmx s' i"
    and lg: "\<And>t k. t \<le> tmx s i \<Longrightarrow> committed N s t k \<Longrightarrow> c \<le> k \<Longrightarrow> c \<le> length (lg s i) \<Longrightarrow>
      take c (lg s i) = take c (llog s t) \<Longrightarrow> take c (lg s' i) = take c (llog s t)"
  shows "holds N s' i c"
proof -
  obtain t k where h: "t \<le> tmx s i" "committed N s t k" "c \<le> k" "take c (lg s i) = take c (llog s t)"
    using assms(1) unfolding holds_def by blast
  have l: "ldr s t \<noteq> None" "c \<le> length (llog s t)" using h(2,3) unfolding committed_def by auto
  have "c \<le> length (lg s i)" using take_eq_lengthD [OF h(4) l(2)] by simp
  then have "take c (lg s' i) = take c (llog s' t)"
    using lg [OF h(1-3) _ h(4)] grows_take(1) [OF g l] by simp
  then show ?thesis
    using h(1,3) assms(3) grows_committed [OF g h(2)] unfolding holds_def by (meson le_trans)
qed

lemma holds_step:
  assumes step: "rstep N s s'" and rinv: "rinv N s" and h: "holds N s i c"
  shows "holds N s' i c"
proof -
  have inv: "inv_cast N s" "inv_ldr N s" using rinv unfolding rinv_def by blast+
  have g: "grows s s'" by (rule grows_step [OF step inv])
  note frame = holds_frame [OF h g]
  from step show ?thesis
  proof (cases rule: rstep.cases)
    case (r_lead j e)
    then show ?thesis by (intro frame) (auto simp: step_defs)
  next
    case (r_client j e)
    then show ?thesis by (intro frame) (auto simp: step_defs)
  next
    case (r_accept j l p pt es lc)
    then show ?thesis using accept_keeps_committed [OF rinv]
      by (intro frame) (auto simp: step_defs split: if_splits)
  next
    case (r_cut j l p pt es lc q)
    note keep = cut_keeps [OF accept_keeps_committed [OF rinv r_cut(3,5,6)] _ r_cut(9)]
    show ?thesis
      using keep unfolding r_cut(1) by (intro frame [unfolded r_cut(1)]) (auto simp: step_defs simp del: take_take split: if_splits)
  qed ((rule frame; (auto simp: step_defs)))+
qed

section \<open>Reachable states\<close>

lemma rinv_step: "rstep N s s' \<Longrightarrow> rinv N s \<Longrightarrow> rinv N s'"
proof -
  assume step: "rstep N s s'" and rinv: "rinv N s"
  then have "inv_cast N s" "inv_vlog N s" "inv_ldr N s" unfolding rinv_def by blast+
  then show ?thesis
    using inv_cast_step [OF step] inv_vlog_step [OF step] inv_ldr_step [OF step]
      inv_log_step [OF step rinv] inv_app_step [OF step rinv] inv_ack_step [OF step rinv]
      inv_commit_step [OF step rinv]
    unfolding rinv_def by blast
qed

lemma rreach_rinv: "rreach N s \<Longrightarrow> rinv N s"
  by (induction rule: rreach.induct) (auto intro: rinv_init rinv_step)

end
