(* ===== verification/Storage.thy ===== *)
theory Storage
  imports Message
begin

text \<open>
  The persistent state of a node and the \<open>Storage\<close> trait of
  \<open>crates/raft/src/storage.rs\<close>, with its in-memory implementation \<open>MemStorage\<close>.

  A \<open>Box<dyn Storage>\<close> is a state together with a table of the trait's methods
  (\<open>storage_ops\<close>).  Methods that fail stop, so \<^const>\<open>None\<close> is the panic of a failed
  write.  The locale \<open>storage\<close> is the contract of the trait: \<open>view\<close> is the persistent
  state a handle stands for.
\<close>

record persistent =
  p_term :: u64
  p_voted_for :: "nodeid option"
  p_log :: "entry list"

record 's storage_ops =
  load :: "'s \<Rightarrow> ('s \<times> persistent) option"
  save_hard_state :: "'s \<Rightarrow> u64 \<Rightarrow> nodeid option \<Rightarrow> 's option"
  append_entries :: "'s \<Rightarrow> entry list \<Rightarrow> 's option"
  truncate_from :: "'s \<Rightarrow> u64 \<Rightarrow> 's option"

definition empty_persistent :: persistent where
  "empty_persistent = \<lparr>p_term = 0, p_voted_for = None, p_log = []\<rparr>"

section \<open>The in-memory storage\<close>

text \<open>
  \<open>MemStorage\<close> is an \<open>Arc<Mutex<Persistent>>\<close>: every clone of a handle denotes the same
  cell, so the state of a handle is the content of the cell.
\<close>

type_synonym mem_storage = persistent

definition mem_load :: "mem_storage \<Rightarrow> (mem_storage \<times> persistent) option" where
  "mem_load p = Some (p, p)"

definition mem_save_hard_state :: "mem_storage \<Rightarrow> u64 \<Rightarrow> nodeid option \<Rightarrow> mem_storage option" where
  "mem_save_hard_state p t v = Some (p\<lparr>p_term := t, p_voted_for := v\<rparr>)"

definition mem_append :: "mem_storage \<Rightarrow> entry list \<Rightarrow> mem_storage option" where
  "mem_append p es = do { l \<leftarrow> vec_extend (p_log p) es; Some (p\<lparr>p_log := l\<rparr>) }"

definition mem_truncate_from :: "mem_storage \<Rightarrow> u64 \<Rightarrow> mem_storage option" where
  "mem_truncate_from p index = Some (p\<lparr>p_log := take (unat (saturating_sub64 index 1)) (p_log p)\<rparr>)"

definition mem_ops :: "mem_storage storage_ops" where
  "mem_ops = \<lparr>load = mem_load, save_hard_state = mem_save_hard_state,
              append_entries = mem_append, truncate_from = mem_truncate_from\<rparr>"

section \<open>The contract of the trait\<close>

text \<open>
  The vote a storage must be able to record: a node id is below the cluster size, so it is
  never \<open>u64::MAX\<close>, which \<open>SietchStorage\<close> uses for "no vote".
\<close>

definition vote_storable :: "nodeid option \<Rightarrow> bool" where
  "vote_storable v \<longleftrightarrow> (\<forall>i. v = Some i \<longrightarrow> i < 2 ^ 64 - 1)"

locale storage =
  fixes ops :: "'s storage_ops"
    and view :: "'s \<Rightarrow> persistent"
    and ok :: "'s \<Rightarrow> bool"
  assumes load_ok: "ok s \<Longrightarrow> load ops s = Some (s', p) \<Longrightarrow> ok s' \<and> view s' = view s \<and> p = view s"
    and save_ok: "ok s \<Longrightarrow> vote_storable v \<Longrightarrow> save_hard_state ops s t v = Some s' \<Longrightarrow>
      ok s' \<and> view s' = (view s)\<lparr>p_term := t, p_voted_for := v\<rparr>"
    and append_ok: "ok s \<Longrightarrow> length (p_log (view s)) + length es < vec_cap \<Longrightarrow> append_entries ops s es = Some s' \<Longrightarrow>
      ok s' \<and> view s' = (view s)\<lparr>p_log := p_log (view s) @ es\<rparr>"
    and truncate_ok: "ok s \<Longrightarrow> truncate_from ops s i = Some s' \<Longrightarrow>
      ok s' \<and> view s' = (view s)\<lparr>p_log := take (unat i - 1) (p_log (view s))\<rparr>"
    and view_ok: "ok s \<Longrightarrow> length (p_log (view s)) < vec_cap \<and> vote_storable (p_voted_for (view s))"
begin

text \<open>What the node relies on: overwriting a conflicting suffix is a truncation and an append.\<close>

lemma overwrite_suffix:
  assumes "ok s" and "truncate_from ops s i = Some s1" and "append_entries ops s1 es = Some s2"
    and "length (p_log (view s)) + length es < vec_cap"
  shows "ok s2 \<and> view s2 = (view s)\<lparr>p_log := take (unat i - 1) (p_log (view s)) @ es\<rparr>"
proof -
  note t = truncate_ok [OF assms(1,2)]
  then show ?thesis using append_ok [OF _ _ assms(3)] assms(4) by simp
qed

lemma save_keeps_log:
  "ok s \<Longrightarrow> vote_storable v \<Longrightarrow> save_hard_state ops s t v = Some s' \<Longrightarrow> p_log (view s') = p_log (view s)"
  using save_ok [of s v t s'] by simp

lemma append_keeps_hard_state:
  "ok s \<Longrightarrow> length (p_log (view s)) + length es < vec_cap \<Longrightarrow> append_entries ops s es = Some s' \<Longrightarrow>
    p_term (view s') = p_term (view s) \<and> p_voted_for (view s') = p_voted_for (view s)"
  using append_ok [of s es s'] by simp

end

text \<open>
  A storage whose writes never fail (as long as the log fits in a vector): the node on it
  panics only for reasons of its own.
\<close>

locale total_storage = storage +
  assumes load_total: "ok s \<Longrightarrow> \<exists>s' p. load ops s = Some (s', p)"
    and save_total: "ok s \<Longrightarrow> \<exists>s'. save_hard_state ops s t v = Some s'"
    and append_total: "ok s \<Longrightarrow> length (p_log (view s)) + length es < vec_cap \<Longrightarrow>
      \<exists>s'. append_entries ops s es = Some s'"
    and truncate_total: "ok s \<Longrightarrow> \<exists>s'. truncate_from ops s i = Some s'"

section \<open>MemStorage keeps the contract\<close>

definition mem_view :: "mem_storage \<Rightarrow> persistent" where
  "mem_view p = p"

definition mem_ok :: "mem_storage \<Rightarrow> bool" where
  "mem_ok p \<longleftrightarrow> length (p_log p) < vec_cap \<and> vote_storable (p_voted_for p)"

lemmas mem_defs = mem_ops_def mem_load_def mem_save_hard_state_def mem_append_def
  mem_truncate_from_def mem_view_def mem_ok_def

lemma unat_saturating_pred: "unat (saturating_sub64 i 1) = unat i - 1"
  by (cases "i = 0") (simp_all add: saturating_sub64_def unat_sub word_le_nat_alt unat_gt_0 Suc_leI)

interpretation mem: total_storage mem_ops mem_view mem_ok
  by unfold_locales
    (auto simp: mem_defs bind_eq_Some_conv unat_saturating_pred vec_extend_iff panic_simps)

end
