(* ===== verification/Node.thy ===== *)
theory Node
  imports Storage
begin

text \<open>
  The consensus node of \<open>crates/raft/src/node.rs\<close>, operation by operation.  A method
  taking \<open>&mut self\<close> returns the updated node; a method that can panic (an index out of
  range, an arithmetic overflow, a failed write, the \<open>debug_assert!\<close>) returns an
  \<open>option\<close>, \<^const>\<open>None\<close> being the panic.  \<open>st\<close> is the method table of the node's
  storage.
\<close>

section \<open>State\<close>

datatype role = Follower | Candidate | Leader

record config =
  cfg_id :: nodeid
  cluster_size :: nat
  election_timeout :: "u64 \<times> u64"
  heartbeat_interval :: u64
  max_batch :: nat
  cfg_seed :: u64

definition config_new :: "nodeid \<Rightarrow> nat \<Rightarrow> u64 \<Rightarrow> config" where
  "config_new i n seed = \<lparr>cfg_id = i, cluster_size = n, election_timeout = (150, 300),
     heartbeat_interval = 50, max_batch = 32, cfg_seed = seed\<rparr>"

record outgoing =
  to :: nodeid
  message :: message

datatype propose_error = NotLeader "nodeid option"

record 's node =
  cfg :: config
  store :: 's
  n_term :: u64
  voted_for :: "nodeid option"
  n_log :: "entry list"
  role :: role
  leader_id :: "nodeid option"
  commit_index :: u64
  applied_index :: u64
  votes :: "bool list"
  next_index :: "u64 list"
  match_index :: "u64 list"
  election_deadline :: u64
  heartbeat_deadline :: u64
  rng :: u64

section \<open>Small helpers\<close>

definition last_index :: "'s node \<Rightarrow> u64" where
  "last_index n = as_word (length (n_log n))"

definition quorum :: "'s node \<Rightarrow> nat" where
  "quorum n = cluster_size (cfg n) div 2 + 1"

text \<open>SplitMix64.\<close>

definition next_rand :: "'s node \<Rightarrow> 's node \<times> u64" where
  "next_rand n =
     (let r = rng n + 0x9E3779B97F4A7C15;
          z = r;
          z = (xor z (drop_bit 30 z)) * 0xBF58476D1CE4E5B9;
          z = (xor z (drop_bit 27 z)) * 0x94D049BB133111EB
      in (n\<lparr>rng := r\<rparr>, xor z (drop_bit 31 z)))"

definition reset_election_timer :: "'s node \<Rightarrow> u64 \<Rightarrow> 's node option" where
  "reset_election_timer n now = do {
     let (lo, hi) = election_timeout (cfg n);
     d \<leftarrow> sub64 hi lo;
     span \<leftarrow> add64 d 1;
     base \<leftarrow> add64 now lo;
     let (n, r) = next_rand n;
     off \<leftarrow> rem64 r span;
     deadline \<leftarrow> add64 base off;
     Some (n\<lparr>election_deadline := deadline\<rparr>) }"

definition node_new :: "'s storage_ops \<Rightarrow> config \<Rightarrow> 's \<Rightarrow> u64 \<Rightarrow> 's node option" where
  "node_new st c s now =
     (if \<not> cfg_id c < cluster_size c then None
      else if \<not> (fst (election_timeout c) > 0
                 \<and> fst (election_timeout c) \<le> snd (election_timeout c)) then None
      else do {
        (s, p) \<leftarrow> load st s;
        let r = xor (xor (cfg_seed c) (as_word (cfg_id c) * 0x9E3779B97F4A7C15)) (p_term p);
        reset_election_timer
          \<lparr>cfg = c, store = s, n_term = p_term p, voted_for = p_voted_for p, n_log = p_log p,
           role = Follower, leader_id = None, commit_index = 0, applied_index = 0,
           votes = replicate (cluster_size c) False,
           next_index = replicate (cluster_size c) 1,
           match_index = replicate (cluster_size c) 0,
           election_deadline = 0, heartbeat_deadline = 0, rng = r\<rparr> now })"

definition term_at :: "'s node \<Rightarrow> u64 \<Rightarrow> u64 option" where
  "term_at n index =
     (if index = 0 then Some 0
      else do { e \<leftarrow> vec_get (n_log n) (unat index - 1); Some (e_term e) })"

definition last_term :: "'s node \<Rightarrow> u64 option" where
  "last_term n = term_at n (last_index n)"

definition persist_hard_state :: "'s storage_ops \<Rightarrow> 's node \<Rightarrow> 's node option" where
  "persist_hard_state st n = do {
     s \<leftarrow> save_hard_state st (store n) (n_term n) (voted_for n);
     Some (n\<lparr>store := s\<rparr>) }"

definition step_down :: "'s storage_ops \<Rightarrow> 's node \<Rightarrow> u64 \<Rightarrow> u64 \<Rightarrow> 's node option" where
  "step_down st n now t = do {
     n \<leftarrow> persist_hard_state st (n\<lparr>n_term := t, voted_for := None\<rparr>);
     reset_election_timer (n\<lparr>role := Follower, leader_id := None\<rparr>) now }"

definition peers :: "'s node \<Rightarrow> nodeid list" where
  "peers n = filter (\<lambda>p. p \<noteq> cfg_id (cfg n)) [0..<cluster_size (cfg n)]"

text \<open>\<open>self.votes.iter().filter(|v| **v).count()\<close>\<close>

definition vote_count :: "'s node \<Rightarrow> nat" where
  "vote_count n = length (filter (\<lambda>v. v) (votes n))"

text \<open>\<open>self.storage.append(entries)\<close> followed by \<open>self.log.extend_from_slice(entries)\<close>.\<close>

definition log_append :: "'s storage_ops \<Rightarrow> 's node \<Rightarrow> entry list \<Rightarrow> 's node option" where
  "log_append st n es = do {
     s \<leftarrow> append_entries st (store n) es;
     l \<leftarrow> vec_extend (n_log n) es;
     Some (n\<lparr>store := s, n_log := l\<rparr>) }"

section \<open>Commit\<close>

text \<open>
  The loop of \<open>advance_commit\<close> over the candidate indices, highest first: it stops at the
  first entry that is not of the current term, or at the first one a quorum stores.
\<close>

definition replicas :: "'s node \<Rightarrow> u64 \<Rightarrow> nat option" where
  "replicas n i = do {
     ms \<leftarrow> map_opt (vec_get (match_index n)) (peers n);
     Some (1 + length (filter (\<lambda>m. m \<ge> i) ms)) }"

fun commit_loop :: "'s node \<Rightarrow> u64 list \<Rightarrow> 's node option" where
  "commit_loop n [] = Some n"
| "commit_loop n (i # is) = do {
     t \<leftarrow> term_at n i;
     if t \<noteq> n_term n then Some n
     else do {
       r \<leftarrow> replicas n i;
       if r \<ge> quorum n then Some (n\<lparr>commit_index := i\<rparr>)
       else commit_loop n is } }"

definition advance_commit :: "'s node \<Rightarrow> 's node option" where
  "advance_commit n = do {
     lo \<leftarrow> add64 (commit_index n) 1;
     commit_loop n (rev (map as_word [unat lo..<Suc (unat (last_index n))])) }"

section \<open>Sending entries\<close>

definition append_for :: "'s node \<Rightarrow> nodeid \<Rightarrow> outgoing option" where
  "append_for n peer = do {
     next \<leftarrow> vec_get (next_index n) peer;
     prev_index \<leftarrow> sub64 next 1;
     let start = unat prev_index;
     lim \<leftarrow> addsz start (max_batch (cfg n));
     let end = min (length (n_log n)) lim;
     prev_term \<leftarrow> term_at n prev_index;
     entries \<leftarrow> vec_slice (n_log n) start end;
     Some \<lparr>to = peer,
           message = AppendEntries (n_term n) prev_index prev_term entries (commit_index n)\<rparr> }"

definition broadcast_append :: "'s node \<Rightarrow> outgoing list option" where
  "broadcast_append n = map_opt (append_for n) (peers n)"

section \<open>Elections\<close>

definition become_leader :: "'s storage_ops \<Rightarrow> 's node \<Rightarrow> u64 \<Rightarrow> ('s node \<times> outgoing list) option" where
  "become_leader st n now = do {
     let n = n\<lparr>role := Leader, leader_id := Some (cfg_id (cfg n))\<rparr>;
     next \<leftarrow> add64 (last_index n) 1;
     let n = n\<lparr>next_index := replicate (cluster_size (cfg n)) next,
               match_index := replicate (cluster_size (cfg n)) 0\<rparr>;
     n \<leftarrow> log_append st n [\<lparr>e_term = n_term n, command = []\<rparr>];
     n \<leftarrow> advance_commit n;
     hb \<leftarrow> add64 now (heartbeat_interval (cfg n));
     let n = n\<lparr>heartbeat_deadline := hb\<rparr>;
     out \<leftarrow> broadcast_append n;
     Some (n, out) }"

definition start_election :: "'s storage_ops \<Rightarrow> 's node \<Rightarrow> u64 \<Rightarrow> ('s node \<times> outgoing list) option" where
  "start_election st n now = do {
     t \<leftarrow> add64 (n_term n) 1;
     n \<leftarrow> persist_hard_state st (n\<lparr>n_term := t, voted_for := Some (cfg_id (cfg n))\<rparr>);
     let n = n\<lparr>role := Candidate, leader_id := None\<rparr>;
     vs \<leftarrow> vec_set (replicate (cluster_size (cfg n)) False) (cfg_id (cfg n)) True;
     n \<leftarrow> reset_election_timer (n\<lparr>votes := vs\<rparr>) now;
     if vote_count n \<ge> quorum n then become_leader st n now
     else do {
       lt \<leftarrow> last_term n;
       let msg = RequestVote (n_term n) (last_index n) lt;
       Some (n, map (\<lambda>p. \<lparr>to = p, message = msg\<rparr>) (peers n)) } }"

definition tick :: "'s storage_ops \<Rightarrow> 's node \<Rightarrow> u64 \<Rightarrow> ('s node \<times> outgoing list) option" where
  "tick st n now =
     (case role n of
        Leader \<Rightarrow>
          (if now \<ge> heartbeat_deadline n then do {
             hb \<leftarrow> add64 now (heartbeat_interval (cfg n));
             let n = n\<lparr>heartbeat_deadline := hb\<rparr>;
             out \<leftarrow> broadcast_append n;
             Some (n, out) }
           else Some (n, []))
      | _ \<Rightarrow>
          (if now \<ge> election_deadline n then start_election st n now
           else Some (n, [])))"

section \<open>Client commands\<close>

text \<open>An error leaves the node unchanged.\<close>

definition propose :: "'s storage_ops \<Rightarrow> 's node \<Rightarrow> u64 \<Rightarrow> bytes
    \<Rightarrow> ('s node \<times> (propose_error + (u64 \<times> outgoing list))) option" where
  "propose st n now cmd =
     (if role n \<noteq> Leader then Some (n, Inl (NotLeader (leader_id n)))
      else do {
        n \<leftarrow> log_append st n [\<lparr>e_term = n_term n, command = cmd\<rparr>];
        n \<leftarrow> advance_commit n;
        out \<leftarrow> broadcast_append n;
        Some (n, Inr (last_index n, out)) })"

section \<open>Message handlers\<close>

definition reply :: "nodeid \<Rightarrow> message \<Rightarrow> outgoing list" where
  "reply p m = [\<lparr>to = p, message = m\<rparr>]"

definition on_request_vote :: "'s storage_ops \<Rightarrow> 's node \<Rightarrow> u64 \<Rightarrow> nodeid \<Rightarrow> u64 \<Rightarrow> u64 \<Rightarrow> u64
    \<Rightarrow> ('s node \<times> outgoing list) option" where
  "on_request_vote st n now src t last_log_index last_log_term =
     (if t = n_term n then do {
        lt \<leftarrow> last_term n;
        let up_to_date = (last_log_term > lt
                          \<or> (last_log_term = lt \<and> last_log_index \<ge> last_index n));
        let can_vote = (voted_for n = None \<or> voted_for n = Some src);
        if can_vote \<and> up_to_date then do {
          n \<leftarrow> persist_hard_state st (n\<lparr>voted_for := Some src\<rparr>);
          n \<leftarrow> reset_election_timer n now;
          Some (n, reply src (VoteResponse (n_term n) True)) }
        else Some (n, reply src (VoteResponse (n_term n) False)) }
      else Some (n, reply src (VoteResponse (n_term n) False)))"

definition on_vote_response :: "'s storage_ops \<Rightarrow> 's node \<Rightarrow> u64 \<Rightarrow> nodeid \<Rightarrow> u64 \<Rightarrow> bool
    \<Rightarrow> ('s node \<times> outgoing list) option" where
  "on_vote_response st n now src t granted =
     (if role n \<noteq> Candidate \<or> t \<noteq> n_term n \<or> \<not> granted then Some (n, [])
      else do {
        vs \<leftarrow> vec_set (votes n) src True;
        let n = n\<lparr>votes := vs\<rparr>;
        if vote_count n \<ge> quorum n then become_leader st n now
        else Some (n, []) })"

text \<open>
  The loop over the received entries.  \<open>k\<close> counts the entries already seen and the list
  is \<open>entries[k..]\<close>; the loop ends after the first entry that has to be written.
\<close>

fun append_loop :: "'s storage_ops \<Rightarrow> 's node \<Rightarrow> u64 \<Rightarrow> nat \<Rightarrow> entry list \<Rightarrow> 's node option" where
  "append_loop st n prev_index k [] = Some n"
| "append_loop st n prev_index k (e # es) = do {
     i \<leftarrow> add64 prev_index 1;
     idx \<leftarrow> add64 i (as_word k);
     if idx \<le> last_index n then do {
       t \<leftarrow> term_at n idx;
       if t = e_term e then append_loop st n prev_index (Suc k) es
       else do {
         s \<leftarrow> truncate_from st (store n) idx;
         let n = n\<lparr>store := s, n_log := take (unat idx - 1) (n_log n)\<rparr>;
         log_append st n (e # es) } }
     else log_append st n (e # es) }"

definition on_append_entries :: "'s storage_ops \<Rightarrow> 's node \<Rightarrow> u64 \<Rightarrow> nodeid \<Rightarrow> u64 \<Rightarrow> u64 \<Rightarrow> u64
    \<Rightarrow> entry list \<Rightarrow> u64 \<Rightarrow> ('s node \<times> outgoing list) option" where
  "on_append_entries st n now src t prev_index prev_term entries leader_commit =
     (if t < n_term n then Some (n, reply src (AppendResponse (n_term n) False 0))
      else if role n = Leader then None
      else do {
        n \<leftarrow> reset_election_timer (n\<lparr>role := Follower, leader_id := Some src\<rparr>) now;
        if prev_index > last_index n
        then Some (n, reply src (AppendResponse (n_term n) False (last_index n)))
        else do {
          pt \<leftarrow> term_at n prev_index;
          if pt \<noteq> prev_term
          then Some (n, reply src (AppendResponse (n_term n) False (saturating_sub64 prev_index 1)))
          else do {
            n \<leftarrow> append_loop st n prev_index 0 entries;
            matched \<leftarrow> add64 prev_index (as_word (length entries));
            let n = (if leader_commit > commit_index n
                     then n\<lparr>commit_index := min leader_commit matched\<rparr> else n);
            Some (n, reply src (AppendResponse (n_term n) True matched)) } } })"

definition on_append_response :: "'s node \<Rightarrow> nodeid \<Rightarrow> u64 \<Rightarrow> bool \<Rightarrow> u64
    \<Rightarrow> ('s node \<times> outgoing list) option" where
  "on_append_response n src t success mi =
     (if role n \<noteq> Leader \<or> t \<noteq> n_term n then Some (n, [])
      else if success then do {
        old \<leftarrow> vec_get (match_index n) src;
        let m = max old (min mi (last_index n));
        ms \<leftarrow> vec_set (match_index n) src m;
        next \<leftarrow> add64 m 1;
        ns \<leftarrow> vec_set (next_index n) src next;
        n \<leftarrow> advance_commit (n\<lparr>match_index := ms, next_index := ns\<rparr>);
        if next \<le> last_index n then do { o1 \<leftarrow> append_for n src; Some (n, [o1]) }
        else Some (n, []) }
      else do {
        old \<leftarrow> vec_get (match_index n) src;
        lowest \<leftarrow> add64 old 1;
        nxt \<leftarrow> vec_get (next_index n) src;
        hint \<leftarrow> add64 mi 1;
        ns \<leftarrow> vec_set (next_index n) src (max lowest (min nxt hint));
        let n = n\<lparr>next_index := ns\<rparr>;
        o1 \<leftarrow> append_for n src;
        Some (n, [o1]) })"

definition handle :: "'s storage_ops \<Rightarrow> 's node \<Rightarrow> u64 \<Rightarrow> nodeid \<Rightarrow> message
    \<Rightarrow> ('s node \<times> outgoing list) option" where
  "handle st n now src msg =
     (if src = cfg_id (cfg n) \<or> src \<ge> cluster_size (cfg n) then Some (n, [])
      else do {
        n \<leftarrow> (if msg_term msg > n_term n then step_down st n now (msg_term msg) else Some n);
        (case msg of
           RequestVote t li lt \<Rightarrow> on_request_vote st n now src t li lt
         | VoteResponse t g \<Rightarrow> on_vote_response st n now src t g
         | AppendEntries t p pt es lc \<Rightarrow> on_append_entries st n now src t p pt es lc
         | AppendResponse t s m \<Rightarrow> on_append_response n src t s m) })"

section \<open>Delivery to the state machine\<close>

definition take_committed :: "'s node \<Rightarrow> ('s node \<times> (u64 \<times> entry) list) option" where
  "take_committed n = do {
     lo \<leftarrow> add64 (applied_index n) 1;
     out \<leftarrow> map_opt (\<lambda>i. do { e \<leftarrow> vec_get (n_log n) (i - 1); Some (as_word i, e) })
                    [unat lo..<Suc (unat (commit_index n))];
     Some (n\<lparr>applied_index := commit_index n\<rparr>, out) }"

end
