(* ===== verification/Node_Lemmas.thy ===== *)
theory Node_Lemmas
  imports Node
begin

text \<open>
  What the helpers of the node do when they return: which fields they change, and the numbers
  the machine words stand for.
\<close>

definition log_fits :: "'s node \<Rightarrow> bool" where
  "log_fits n \<longleftrightarrow> length (n_log n) < vec_cap"

lemma log_fits_update [simp]:
  "log_fits (n\<lparr>role := a\<rparr>) = log_fits n" "log_fits (n\<lparr>store := b\<rparr>) = log_fits n"
  "log_fits (n\<lparr>n_term := c\<rparr>) = log_fits n" "log_fits (n\<lparr>voted_for := d\<rparr>) = log_fits n"
  "log_fits (n\<lparr>leader_id := e\<rparr>) = log_fits n" "log_fits (n\<lparr>commit_index := f\<rparr>) = log_fits n"
  "log_fits (n\<lparr>votes := g\<rparr>) = log_fits n" "log_fits (n\<lparr>next_index := h\<rparr>) = log_fits n"
  "log_fits (n\<lparr>match_index := i\<rparr>) = log_fits n" "log_fits (n\<lparr>election_deadline := j\<rparr>) = log_fits n"
  "log_fits (n\<lparr>heartbeat_deadline := k\<rparr>) = log_fits n" "log_fits (n\<lparr>rng := l\<rparr>) = log_fits n"
  by (simp_all add: log_fits_def)

section \<open>Indices and terms\<close>

lemma unat_last_index: "log_fits n \<Longrightarrow> unat (last_index n) = length (n_log n)"
  by (simp add: last_index_def log_fits_def unat_of_nat_small)

lemma last_index_update [simp]:
  "last_index (n\<lparr>role := a\<rparr>) = last_index n" "last_index (n\<lparr>store := b\<rparr>) = last_index n"
  "last_index (n\<lparr>n_term := c\<rparr>) = last_index n" "last_index (n\<lparr>voted_for := d\<rparr>) = last_index n"
  "last_index (n\<lparr>leader_id := e\<rparr>) = last_index n" "last_index (n\<lparr>commit_index := f\<rparr>) = last_index n"
  "last_index (n\<lparr>votes := g\<rparr>) = last_index n" "last_index (n\<lparr>next_index := h\<rparr>) = last_index n"
  "last_index (n\<lparr>match_index := i\<rparr>) = last_index n" "last_index (n\<lparr>election_deadline := j\<rparr>) = last_index n"
  "last_index (n\<lparr>heartbeat_deadline := k\<rparr>) = last_index n" "last_index (n\<lparr>rng := l\<rparr>) = last_index n"
  by (simp_all add: last_index_def)

lemma term_at_SomeD:
  "term_at n i = Some t \<Longrightarrow> unat i \<le> length (n_log n)
    \<and> t = (if i = 0 then 0 else e_term (n_log n ! (unat i - 1)))"
  by (auto simp: term_at_def bind_eq_Some_conv dest!: vec_get_SomeD split: if_splits)

lemma term_at_defined:
  "unat i \<le> length (n_log n) \<Longrightarrow>
    term_at n i = Some (if i = 0 then 0 else e_term (n_log n ! (unat i - 1)))"
  using unat_gt_0 [of i] by (cases "i = 0") (auto simp: term_at_def vec_get_def)

section \<open>The election timer\<close>

text \<open>Resetting the timer writes the random state and the deadline and nothing else.\<close>

lemma reset_election_timer_SomeD:
  "reset_election_timer n now = Some n' \<Longrightarrow> \<exists>r d. n' = n\<lparr>rng := r, election_deadline := d\<rparr>"
  by (auto simp: reset_election_timer_def next_rand_def bind_eq_Some_conv Let_def split: prod.splits)

text \<open>
  It never panics while the clock leaves room for the longest timeout, and the deadline it
  sets is within the configured range.
\<close>

lemma reset_election_timer_defined:
  assumes "election_timeout (cfg n) = (lo, hi)" and "0 < lo" and "lo \<le> hi"
    and "unat now + unat hi < 2 ^ 64"
  shows "\<exists>r d. reset_election_timer n now = Some (n\<lparr>rng := r, election_deadline := d\<rparr>)
    \<and> unat now + unat lo \<le> unat d \<and> unat d \<le> unat now + unat hi"
proof -
  obtain n1 x where nr: "next_rand n = (n1, x)" by (cases "next_rand n")
  then obtain r where n1: "n1 = n\<lparr>rng := r\<rparr>" by (auto simp: next_rand_def Let_def)
  have lohi: "unat lo \<le> unat hi" "0 < unat lo"
    using assms(2,3) by (simp_all add: word_le_nat_alt unat_gt_0)
  have d: "unat (hi - lo) = unat hi - unat lo" using assms(3) by (simp add: unat_sub)
  have "unat (hi - lo) + unat (1 :: u64) < 18446744073709551616"
    unfolding d using lohi unat_lt_2_64 [of hi] by simp
  then have span: "add64 (hi - lo) 1 = Some (hi - lo + 1)" "unat (hi - lo + 1) = unat hi - unat lo + 1"
    using d add64_Some_unat [of "hi - lo" 1 "hi - lo + 1"] by (simp_all only: add64_defined) simp_all
  have "unat now + unat lo < 18446744073709551616" using lohi assms(4) by simp
  then have base: "add64 now lo = Some (now + lo)" "unat (now + lo) = unat now + unat lo"
    using add64_Some_unat [of now lo "now + lo"] by (simp_all only: add64_defined)
  have "unat (x mod (hi - lo + 1)) < unat (hi - lo + 1)"
    unfolding unat_mod by (rule mod_less_divisor) (simp only: span(2))
  then have off: "unat (x mod (hi - lo + 1)) \<le> unat hi - unat lo"
    unfolding span(2) by linarith
  have nz: "hi - lo + 1 \<noteq> 0" using span(2) by auto
  have room: "unat (now + lo) + unat (x mod (hi - lo + 1)) < 18446744073709551616"
    using off base(2) lohi assms(4) by simp
  note dl1 = add64_defined [OF room]
  note dl = dl1 add64_Some_unat [OF dl1, unfolded base(2)]
  have "reset_election_timer n now
      = Some (n\<lparr>rng := r, election_deadline := now + lo + x mod (hi - lo + 1)\<rparr>)"
    using assms(1,3) span(1) base(1) dl(1) nz nr n1
    by (simp add: reset_election_timer_def sub64_def rem64_def)
  then show ?thesis using dl(2) off lohi by fastforce
qed

section \<open>Growing the log\<close>

lemma log_append_SomeD:
  "log_append st n es = Some n' \<Longrightarrow> \<exists>s. append_entries st (store n) es = Some s
    \<and> n' = n\<lparr>store := s, n_log := n_log n @ es\<rparr> \<and> log_fits n'"
  by (auto simp: log_append_def log_fits_def bind_eq_Some_conv dest!: vec_extend_SomeD)

section \<open>Commit\<close>

lemma commit_loop_SomeD:
  "commit_loop n is = Some n' \<Longrightarrow> n' = n \<or>
    (\<exists>k r. k \<in> set is \<and> n' = n\<lparr>commit_index := k\<rparr> \<and> term_at n k = Some (n_term n)
       \<and> replicas n k = Some r \<and> r \<ge> quorum n)"
  by (induction "is") (auto simp: bind_eq_Some_conv split: if_splits)

lemma advance_commit_SomeD:
  assumes "advance_commit n = Some n'" and "log_fits n"
  shows "n' = n \<or> (\<exists>k r. n' = n\<lparr>commit_index := k\<rparr> \<and> unat (commit_index n) < unat k
      \<and> unat k \<le> length (n_log n) \<and> term_at n k = Some (n_term n)
      \<and> replicas n k = Some r \<and> r \<ge> quorum n)"
proof -
  obtain lo where lo: "add64 (commit_index n) 1 = Some lo"
    and loop: "commit_loop n (rev (map of_nat [unat lo..<Suc (unat (last_index n))])) = Some n'"
    using assms(1) by (auto simp: advance_commit_def bind_eq_Some_conv)
  have ulo: "unat lo = unat (commit_index n) + 1" using add64_Some_unat [OF lo] by simp
  have mem: "unat (commit_index n) < unat k \<and> unat k \<le> length (n_log n)"
    if "k \<in> of_nat ` {unat lo..<Suc (unat (last_index n))}" for k :: u64
  proof -
    obtain j where j: "k = of_nat j" "unat lo \<le> j" "j \<le> length (n_log n)"
      using \<open>k \<in> of_nat ` {unat lo..<Suc (unat (last_index n))}\<close> assms(2)
      by (auto simp: unat_last_index)
    then have "j < vec_cap" using assms(2) unfolding log_fits_def by linarith
    then have "unat k = j" using j(1) unat_of_nat_small [of j] by simp
    then show ?thesis using j ulo by simp
  qed
  show ?thesis
    using commit_loop_SomeD [OF loop] mem unfolding set_rev set_map set_upt by blast
qed

text \<open>The nodes that are counted as replicas of an entry.\<close>

definition replica_set :: "'s node \<Rightarrow> u64 \<Rightarrow> nodeid set" where
  "replica_set n k = insert (cfg_id (cfg n))
     {p. p < cluster_size (cfg n) \<and> p \<noteq> cfg_id (cfg n) \<and> k \<le> match_index n ! p}"

lemma set_peers: "set (peers n) = {p. p < cluster_size (cfg n) \<and> p \<noteq> cfg_id (cfg n)}"
  by (auto simp: peers_def)

lemma distinct_peers: "distinct (peers n)"
  by (simp add: peers_def)

lemma replicas_eq:
  assumes "length (match_index n) = cluster_size (cfg n)"
  shows "replicas n k = Some (card (replica_set n k))"
proof -
  have ms: "map_opt (vec_get (match_index n)) (peers n) = Some (map (\<lambda>p. match_index n ! p) (peers n))"
    using assms by (intro map_opt_total) (simp add: set_peers panic_simps)
  have "length (filter (\<lambda>m. m \<ge> k) (map (\<lambda>p. match_index n ! p) (peers n)))
      = card {p. p < cluster_size (cfg n) \<and> p \<noteq> cfg_id (cfg n) \<and> k \<le> match_index n ! p}"
    using distinct_card [OF distinct_filter [OF distinct_peers], of "\<lambda>p. k \<le> match_index n ! p" n]
    by (simp add: filter_map comp_def set_peers Collect_conj_eq [symmetric] conj_assoc)
  then show ?thesis
    using ms by (simp add: replicas_def replica_set_def card_insert_if)
qed

lemma vote_count_eq: "vote_count n = card {j. j < length (votes n) \<and> votes n ! j}"
  by (simp add: vote_count_def length_filter_conv_card)

section \<open>Sending entries\<close>

lemma append_for_SomeD:
  assumes "append_for n peer = Some o1"
  shows "\<exists>p t k. o1 = \<lparr>to = peer, message = AppendEntries (n_term n) p t (take k (drop (unat p) (n_log n))) (commit_index n)\<rparr>
    \<and> unat p \<le> length (n_log n) \<and> term_at n p = Some t"
  using assms
  by (auto simp: append_for_def bind_eq_Some_conv Let_def dest!: vec_slice_SomeD addsz_SomeD)

lemma broadcast_append_SomeD:
  "broadcast_append n = Some out \<Longrightarrow> o1 \<in> set out \<Longrightarrow>
    \<exists>p \<in> set (peers n). append_for n p = Some o1"
  unfolding broadcast_append_def by (rule map_opt_in_setD)

section \<open>Received entries\<close>

text \<open>
  The loop over received entries computes the merge of the log, writing the storage at most
  once: a truncation where an entry conflicts, then one append of the rest.
\<close>

lemma take_pred_unat: "unat (idx :: u64) = p + 1 \<Longrightarrow> take (unat idx - 1) L = take p L"
  by simp

end
