(* ===== verification/Node_Sim.thy ===== *)
theory Node_Sim
  imports Protocol_Commit Node_Lemmas
begin

text \<open>
  The node refines the protocol: every operation of a node that returns is a sequence of
  protocol steps of that node, and every message it returns is one the protocol has sent.
  The lemmas are proved for any storage that keeps the contract of the trait (inside
  \<open>context storage\<close>).
\<close>

section \<open>Steps of one node\<close>

text \<open>The steps of node \<open>i\<close> leave the state of every other node alone.\<close>

definition local_to :: "nodeid \<Rightarrow> raft \<Rightarrow> raft \<Rightarrow> bool" where
  "local_to i a a' \<longleftrightarrow> net a \<subseteq> net a' \<and> (\<forall>j. j \<noteq> i \<longrightarrow> tmx a' j = tmx a j \<and> vot a' j = vot a j
     \<and> lg a' j = lg a j \<and> rl a' j = rl a j \<and> ci a' j = ci a j \<and> vs a' j = vs a j \<and> mi a' j = mi a j)"

definition nstep :: "nat \<Rightarrow> nodeid \<Rightarrow> raft \<Rightarrow> raft \<Rightarrow> bool" where
  "nstep N i a a' \<longleftrightarrow> rstep N a a' \<and> local_to i a a'"

definition nsteps :: "nat \<Rightarrow> nodeid \<Rightarrow> raft \<Rightarrow> raft \<Rightarrow> bool" where
  "nsteps N i = (nstep N i)\<^sup>*\<^sup>*"

lemma local_to_refl [simp]: "local_to i a a"
  by (simp add: local_to_def)

lemma local_to_trans: "local_to i a b \<Longrightarrow> local_to i b c \<Longrightarrow> local_to i a c"
  unfolding local_to_def by auto

lemma nsteps_refl [simp, intro]: "nsteps N i a a"
  by (simp add: nsteps_def)

lemma nsteps_trans: "nsteps N i a b \<Longrightarrow> nsteps N i b c \<Longrightarrow> nsteps N i a c"
  unfolding nsteps_def by (rule rtranclp_trans)

lemma nsteps_one: "rstep N a b \<Longrightarrow> local_to i a b \<Longrightarrow> nsteps N i a b"
  unfolding nsteps_def nstep_def by blast

lemma nsteps_local: "nsteps N i a b \<Longrightarrow> local_to i a b"
  unfolding nsteps_def
  by (induction rule: rtranclp_induct) (auto simp: nstep_def intro: local_to_trans)

lemma nsteps_rinv: "nsteps N i a b \<Longrightarrow> rinv N a \<Longrightarrow> rinv N b"
  unfolding nsteps_def
  by (induction rule: rtranclp_induct) (auto simp: nstep_def intro: rinv_step)

lemma nsteps_net: "nsteps N i a b \<Longrightarrow> net a \<subseteq> net b"
  using nsteps_local unfolding local_to_def by blast

section \<open>The abstraction\<close>

fun abs_role :: "role \<Rightarrow> arole" where
  "abs_role Follower = AFollower"
| "abs_role Candidate = ACandidate"
| "abs_role Leader = ALeader"

lemma abs_role_iff [simp]:
  "abs_role r = AFollower \<longleftrightarrow> r = Follower" "abs_role r = ACandidate \<longleftrightarrow> r = Candidate"
  "abs_role r = ALeader \<longleftrightarrow> r = Leader"
  by (cases r; simp)+

text \<open>
  A sent message has its protocol counterpart in the network; a refusal has none, but its
  resume hint is an index that fits a vector.
\<close>

fun msg_sim :: "nodeid \<Rightarrow> nodeid \<Rightarrow> message \<Rightarrow> (nodeid \<times> nodeid \<times> amsg) set \<Rightarrow> bool" where
  "msg_sim i j (RequestVote t li lt) S \<longleftrightarrow> (i, j, AReq (unat t) (unat li) (unat lt)) \<in> S"
| "msg_sim i j (VoteResponse t g) S \<longleftrightarrow> (g \<longrightarrow> (i, j, AVote (unat t)) \<in> S)"
| "msg_sim i j (AppendEntries t p pt es lc) S \<longleftrightarrow>
     (i, j, AApp (unat t) (unat p) (unat pt) es (unat lc)) \<in> S"
| "msg_sim i j (AppendResponse t s m) S \<longleftrightarrow>
     (if s then (i, j, AAck (unat t) (unat m)) \<in> S else unat m < vec_cap)"

lemma msg_sim_mono: "msg_sim i j m S \<Longrightarrow> S \<subseteq> S' \<Longrightarrow> msg_sim i j m S'"
  by (cases m) (auto split: if_splits)

definition outs_sim :: "nodeid \<Rightarrow> outgoing list \<Rightarrow> raft \<Rightarrow> bool" where
  "outs_sim i out a \<longleftrightarrow> (\<forall>o1 \<in> set out. msg_sim i (to o1) (message o1) (net a))"

lemma outs_sim_Nil [simp]: "outs_sim i [] a"
  by (simp add: outs_sim_def)

lemma outs_sim_mono: "outs_sim i out a \<Longrightarrow> net a \<subseteq> net b \<Longrightarrow> outs_sim i out b"
  unfolding outs_sim_def using msg_sim_mono by blast

definition node_sim :: "nodeid \<Rightarrow> 's node \<Rightarrow> raft \<Rightarrow> bool" where
  "node_sim i n a \<longleftrightarrow> tmx a i = unat (n_term n) \<and> vot a i = voted_for n \<and> lg a i = n_log n
     \<and> rl a i = abs_role (role n) \<and> ci a i = unat (commit_index n)
     \<and> (role n = Candidate \<longrightarrow> vs a i = {j. j < length (votes n) \<and> votes n ! j})
     \<and> (role n = Leader \<longrightarrow> (\<forall>j < length (match_index n). mi a i j = unat (match_index n ! j)))"

text \<open>
  The node's own invariant: its storage holds exactly its term, vote and log, and its
  vectors have one entry per node of the cluster.
\<close>

definition node_ok :: "('s \<Rightarrow> persistent) \<Rightarrow> ('s \<Rightarrow> bool) \<Rightarrow> nat \<Rightarrow> nodeid \<Rightarrow> 's node \<Rightarrow> bool" where
  "node_ok view ok N i n \<longleftrightarrow> ok (store n)
     \<and> view (store n) = \<lparr>p_term = n_term n, p_voted_for = voted_for n, p_log = n_log n\<rparr>
     \<and> cluster_size (cfg n) = N \<and> cfg_id (cfg n) = i \<and> i < N \<and> N < 2 ^ 64
     \<and> length (votes n) = N \<and> length (next_index n) = N \<and> length (match_index n) = N
     \<and> log_fits n"

definition related :: "('s \<Rightarrow> persistent) \<Rightarrow> ('s \<Rightarrow> bool) \<Rightarrow> nat \<Rightarrow> nodeid \<Rightarrow> 's node \<Rightarrow> raft \<Rightarrow> bool" where
  "related view ok N i n a \<longleftrightarrow> node_ok view ok N i n \<and> node_sim i n a"

text \<open>From the protocol state \<open>a\<close>, steps of node \<open>i\<close> lead to a state that matches the result.\<close>

definition simulated :: "('s \<Rightarrow> persistent) \<Rightarrow> ('s \<Rightarrow> bool) \<Rightarrow> nat \<Rightarrow> nodeid \<Rightarrow> raft \<Rightarrow> 's node \<Rightarrow> outgoing list \<Rightarrow> bool" where
  "simulated view ok N i a n out \<longleftrightarrow> (\<exists>a'. nsteps N i a a' \<and> related view ok N i n a' \<and> outs_sim i out a')"

lemma simulatedI: "nsteps N i a a' \<Longrightarrow> related view ok N i n a' \<Longrightarrow> outs_sim i out a' \<Longrightarrow> simulated view ok N i a n out"
  unfolding simulated_def by blast

lemma simulated_refl: "related view ok N i n a \<Longrightarrow> outs_sim i out a \<Longrightarrow> simulated view ok N i a n out"
  unfolding simulated_def by blast

lemma simulated_after: "nsteps N i a b \<Longrightarrow> simulated view ok N i b n out \<Longrightarrow> simulated view ok N i a n out"
  unfolding simulated_def using nsteps_trans by blast

lemma simulated_Cons:
  assumes "simulated view ok N i a n out"
    and "\<And>b. related view ok N i n b \<Longrightarrow> simulated view ok N i b n [o1]"
  shows "simulated view ok N i a n (o1 # out)"
proof -
  obtain b where b: "nsteps N i a b" "related view ok N i n b" "outs_sim i out b"
    using assms(1) unfolding simulated_def by blast
  obtain c where c: "nsteps N i b c" "related view ok N i n c" "outs_sim i [o1] c"
    using assms(2) [OF b(2)] unfolding simulated_def by blast
  have "outs_sim i (o1 # out) c"
    using c(3) outs_sim_mono [OF b(3) nsteps_net [OF c(1)]] unfolding outs_sim_def by simp
  then show ?thesis using simulatedI [OF nsteps_trans [OF b(1) c(1)] c(2)] by blast
qed

text \<open>Messages that each can be sent from any related state can all be sent.\<close>

lemma simulated_all:
  assumes "related view ok N i n a"
    and "\<And>o1 b. o1 \<in> set out \<Longrightarrow> related view ok N i n b \<Longrightarrow> simulated view ok N i b n [o1]"
  shows "simulated view ok N i a n out"
  using assms by (induction out) (auto intro: simulated_refl simulated_Cons)

text \<open>Fields the protocol does not know.\<close>

lemma related_update [simp]:
  "related view ok N i (n\<lparr>rng := a1\<rparr>) a = related view ok N i n a"
  "related view ok N i (n\<lparr>election_deadline := a2\<rparr>) a = related view ok N i n a"
  "related view ok N i (n\<lparr>heartbeat_deadline := a3\<rparr>) a = related view ok N i n a"
  "related view ok N i (n\<lparr>leader_id := a4\<rparr>) a = related view ok N i n a"
  "related view ok N i (n\<lparr>applied_index := a5\<rparr>) a = related view ok N i n a"
  by (simp_all add: related_def node_ok_def node_sim_def log_fits_def)

lemma related_next_index: "related view ok N i n a \<Longrightarrow> length ns = N \<Longrightarrow> related view ok N i (n\<lparr>next_index := ns\<rparr>) a"
  by (simp add: related_def node_ok_def node_sim_def)

lemma node_simD:
  assumes "node_sim i n a"
  shows "tmx a i = unat (n_term n)" and "vot a i = voted_for n" and "lg a i = n_log n"
    and "rl a i = abs_role (role n)" and "ci a i = unat (commit_index n)"
    and "role n = Candidate \<Longrightarrow> vs a i = {j. j < length (votes n) \<and> votes n ! j}"
    and "role n = Leader \<Longrightarrow> j < length (match_index n) \<Longrightarrow> mi a i j = unat (match_index n ! j)"
  using assms unfolding node_sim_def by blast+

lemma node_okD:
  assumes "node_ok view ok N i n"
  shows "ok (store n)" and "view (store n) = \<lparr>p_term = n_term n, p_voted_for = voted_for n, p_log = n_log n\<rparr>"
    and "cluster_size (cfg n) = N" and "cfg_id (cfg n) = i" and "i < N" and "N < 2 ^ 64"
    and "length (votes n) = N" and "length (next_index n) = N" and "length (match_index n) = N"
    and "log_fits n"
  using assms unfolding node_ok_def by blast+

lemma relatedD:
  assumes "related view ok N i n a"
  shows "node_ok view ok N i n" and "node_sim i n a"
  using assms unfolding related_def by blast+

lemma vote_storable_id: "i < N \<Longrightarrow> N < 2 ^ 64 \<Longrightarrow> vote_storable (Some i)"
  by (simp add: vote_storable_def)

section \<open>Terms of positions\<close>

lemma unat_term_at:
  "term_at n p = Some t \<Longrightarrow> unat t = tm_before (n_log n) (unat p) \<and> unat p \<le> length (n_log n)"
  using term_at_SomeD [of n p t] unat_gt_0 [of p]
  by (cases "p = 0") (auto simp: tm_before_def tm_def)

lemma last_tm_before: "tm_before L (length L) = last_tm L"
  by (simp add: tm_before_def last_tm_def last_conv_nth)

lemma unat_last_term: "last_term n = Some t \<Longrightarrow> log_fits n \<Longrightarrow> unat t = last_tm (n_log n)"
  using unat_term_at [of n "last_index n" t] by (simp add: last_term_def unat_last_index last_tm_before)

end
