(* ===== verification/Node_Refine.thy ===== *)
theory Node_Refine
  imports Node_Sim
begin

text \<open>
  The simulation, operation by operation, inside the contract of the storage trait.
\<close>

section \<open>Merging received entries\<close>

lemma merge_length_ge: "p \<le> length L \<Longrightarrow> p + length es \<le> length (merge L p es)"
proof (induction es arbitrary: p)
  case (Cons e es)
  then show ?case using Cons.IH [of "Suc p"] by auto
qed simp

lemma tm_eq_iff: "tm a = tm b \<longleftrightarrow> e_term a = e_term b"
  by (simp add: tm_def flip: word_unat_eq_iff)

lemma unat_max64: "unat (max a b :: u64) = max (unat a) (unat b)"
  by (simp add: max_def word_le_nat_alt)

lemma unat_min64: "unat (min a b :: u64) = min (unat a) (unat b)"
  by (simp add: min_def word_le_nat_alt)

text \<open>The messages a proposal returns.\<close>

fun proposed_out :: "propose_error + (u64 \<times> outgoing list) \<Rightarrow> outgoing list" where
  "proposed_out (Inl e) = []"
| "proposed_out (Inr (i, out)) = out"

text \<open>The ways through \<open>on_append_entries\<close>.\<close>

lemma on_append_entries_cases [consumes 2, case_names stale refused accepted]:
  assumes run: "on_append_entries st n now src t p pt es lc = Some (n', out)" and fits: "log_fits n"
  obtains (stale) "t < n_term n" and "n' = n" and "out = reply src (AppendResponse (n_term n) False 0)"
    | (refused) n0 rr d h where "n_term n \<le> t" and "role n \<noteq> Leader"
        and "n0 = n\<lparr>role := Follower, leader_id := Some src, rng := rr, election_deadline := d\<rparr>"
        and "n' = n0" and "out = reply src (AppendResponse (n_term n0) False h)" and "unat h < vec_cap"
    | (accepted) n0 rr d n1 matched where "n_term n \<le> t" and "role n \<noteq> Leader"
        and "n0 = n\<lparr>role := Follower, leader_id := Some src, rng := rr, election_deadline := d\<rparr>"
        and "unat p \<le> length (n_log n0)" and "term_at n0 p = Some pt"
        and "append_loop st n0 p 0 es = Some n1" and "add64 p (of_nat (length es)) = Some matched"
        and "n' = (if lc > commit_index n1 then n1\<lparr>commit_index := min lc matched\<rparr> else n1)"
        and "out = reply src (AppendResponse (n_term n') True matched)"
proof (cases "t < n_term n")
  case True
  then show thesis using run by (intro stale) (auto simp: on_append_entries_def)
next
  case False
  have lead: "role n \<noteq> Leader" using run False by (auto simp: on_append_entries_def)
  have "do {
      n0 \<leftarrow> reset_election_timer (n\<lparr>role := Follower, leader_id := Some src\<rparr>) now;
      if p > last_index n0
        then Some (n0, reply src (AppendResponse (n_term n0) False (last_index n0)))
        else do {
          pt0 \<leftarrow> term_at n0 p;
          if pt0 \<noteq> pt
          then Some (n0, reply src (AppendResponse (n_term n0) False (saturating_sub64 p 1)))
          else do {
            n1 \<leftarrow> append_loop st n0 p 0 es;
            matched \<leftarrow> add64 p (of_nat (length es));
            let n2 = (if lc > commit_index n1 then n1\<lparr>commit_index := min lc matched\<rparr> else n1);
            Some (n2, reply src (AppendResponse (n_term n2) True matched)) } } } = Some (n', out)"
    using run False lead unfolding on_append_entries_def by (simp only: if_False simp_thms as_word_of_nat)
  then obtain n0 where r: "reset_election_timer (n\<lparr>role := Follower, leader_id := Some src\<rparr>) now = Some n0"
    and rest: "(if p > last_index n0
        then Some (n0, reply src (AppendResponse (n_term n0) False (last_index n0)))
        else do {
          pt0 \<leftarrow> term_at n0 p;
          if pt0 \<noteq> pt
          then Some (n0, reply src (AppendResponse (n_term n0) False (saturating_sub64 p 1)))
          else do {
            n1 \<leftarrow> append_loop st n0 p 0 es;
            matched \<leftarrow> add64 p (of_nat (length es));
            let n2 = (if lc > commit_index n1 then n1\<lparr>commit_index := min lc matched\<rparr> else n1);
            Some (n2, reply src (AppendResponse (n_term n2) True matched)) } }) = Some (n', out)"
    by (rule bind_SomeE)
  obtain rr d where n0: "n0 = n\<lparr>role := Follower, leader_id := Some src, rng := rr, election_deadline := d\<rparr>"
    using reset_election_timer_SomeD [OF r] by auto
  have fits0: "log_fits n0" using fits n0 by (simp add: log_fits_def)
  have le: "n_term n \<le> t" using False by simp
  show thesis
  proof (cases "p > last_index n0")
    case True
    then have "n' = n0" "out = reply src (AppendResponse (n_term n0) False (last_index n0))"
      using rest by auto
    moreover have "unat (last_index n0) < vec_cap"
      using fits0 unfolding unat_last_index [OF fits0] log_fits_def .
    ultimately show thesis by (intro refused [OF le lead n0])
  next
    case False
    then have pl: "unat p \<le> length (n_log n0)"
      using unat_last_index [OF fits0] by (simp add: word_le_nat_alt not_less)
    obtain pt0 where pt0: "term_at n0 p = Some pt0"
      and rest1: "(if pt0 \<noteq> pt
          then Some (n0, reply src (AppendResponse (n_term n0) False (saturating_sub64 p 1)))
          else do {
            n1 \<leftarrow> append_loop st n0 p 0 es;
            matched \<leftarrow> add64 p (of_nat (length es));
            let n2 = (if lc > commit_index n1 then n1\<lparr>commit_index := min lc matched\<rparr> else n1);
            Some (n2, reply src (AppendResponse (n_term n2) True matched)) }) = Some (n', out)"
      using rest unfolding if_not_P [OF False] by (rule bind_SomeE)
    show thesis
    proof (cases "pt0 = pt")
      case False
      then have "n' = n0" "out = reply src (AppendResponse (n_term n0) False (saturating_sub64 p 1))"
        using rest1 by auto
      moreover have "unat (saturating_sub64 p 1) < vec_cap"
        using pl fits0 unfolding log_fits_def by (simp add: unat_saturating_pred)
      ultimately show thesis by (intro refused [OF le lead n0])
    next
      case True
      obtain n1 matched where run1: "append_loop st n0 p 0 es = Some n1" "add64 p (of_nat (length es)) = Some matched"
        and n': "n' = (if lc > commit_index n1 then n1\<lparr>commit_index := min lc matched\<rparr> else n1)"
        and out: "out = reply src (AppendResponse (n_term n') True matched)"
        using rest1 True by (simp add: bind_eq_Some_conv Let_def) blast
      show thesis by (rule accepted [OF le lead n0 pl _ run1 n' out]) (use pt0 True in simp)
    qed
  qed
qed

context storage
begin

section \<open>Writing the storage\<close>

lemma persist_SomeD:
  assumes "persist_hard_state ops n = Some n'" and "ok (store n)" and "vote_storable (voted_for n)"
  shows "\<exists>s. n' = n\<lparr>store := s\<rparr> \<and> ok s
    \<and> view s = (view (store n))\<lparr>p_term := n_term n, p_voted_for := voted_for n\<rparr>"
  using assms save_ok unfolding persist_hard_state_def by (auto simp: bind_eq_Some_conv)

lemma log_append_ok:
  assumes "log_append ops n es = Some n'" and "ok (store n)" and "p_log (view (store n)) = n_log n"
  shows "\<exists>s. n' = n\<lparr>store := s, n_log := n_log n @ es\<rparr> \<and> ok s
    \<and> view s = (view (store n))\<lparr>p_log := p_log (view (store n)) @ es\<rparr> \<and> log_fits n'"
proof -
  obtain s where s: "append_entries ops (store n) es = Some s"
    and n': "n' = n\<lparr>store := s, n_log := n_log n @ es\<rparr>" "log_fits n'"
    using log_append_SomeD [OF assms(1)] by blast
  have "length (p_log (view (store n))) + length es < vec_cap"
    using n' assms(3) by (simp add: log_fits_def)
  then show ?thesis using append_ok [OF assms(2) _ s] n' by blast
qed

text \<open>The loop over received entries is \<open>merge\<close>, on the log and on the storage alike.\<close>

lemma append_loop_merge:
  assumes "append_loop ops n prev k es = Some n'" and "ok (store n)" and "log_fits n"
    and "p_log (view (store n)) = n_log n" and "unat prev + k \<le> length (n_log n)"
  shows "\<exists>s. n' = n\<lparr>store := s, n_log := merge (n_log n) (unat prev + k) es\<rparr> \<and> ok s
    \<and> view s = (view (store n))\<lparr>p_log := merge (n_log n) (unat prev + k) es\<rparr> \<and> log_fits n'"
  using assms
proof (induction es arbitrary: k)
  case Nil
  then show ?case by (intro exI [of _ "store n"]) auto
next
  case (Cons e es)
  let ?p = "unat prev + k"
  obtain i idx where i: "add64 prev 1 = Some i" "add64 i (of_nat k) = Some idx"
    using Cons.prems(1) by (auto simp: bind_eq_Some_conv)
  have "k < vec_cap" using Cons.prems(3,5) unfolding log_fits_def by linarith
  then have idx: "unat idx = ?p + 1"
    using add64_Some_unat [OF i(1)] add64_Some_unat [OF i(2)] by (simp add: unat_of_nat_small)
  have le: "idx \<le> last_index n \<longleftrightarrow> ?p < length (n_log n)"
    using idx unat_last_index [OF Cons.prems(3)] by (simp add: word_le_nat_alt Suc_le_eq)
  have at: "term_at n idx = Some (e_term (n_log n ! ?p))" if "?p < length (n_log n)"
    using that idx by (subst term_at_defined) (auto simp: Suc_le_eq)
  show ?case
  proof (cases "?p < length (n_log n) \<and> tm (n_log n ! ?p) = tm e")
    case True
    then have "append_loop ops n prev (Suc k) es = Some n'"
      using Cons.prems(1) i le at by (simp add: tm_eq_iff)
    from Cons.IH [OF this Cons.prems(2-4)] True show ?thesis by simp
  next
    case False
    show ?thesis
    proof (cases "?p < length (n_log n)")
      case True
      with False obtain s1 where s1: "truncate_from ops (store n) idx = Some s1"
        and la: "log_append ops (n\<lparr>store := s1, n_log := take (unat idx - 1) (n_log n)\<rparr>) (e # es) = Some n'"
        using Cons.prems(1) i le at by (auto simp: tm_eq_iff bind_eq_Some_conv)
      note t = truncate_ok [OF Cons.prems(2) s1]
      show ?thesis
        using log_append_ok [OF la] t False True idx Cons.prems(4) by auto
    next
      case beyond: False
      then have "log_append ops n (e # es) = Some n'"
        using Cons.prems(1) i le by simp
      then show ?thesis
        using log_append_ok [of n "e # es" n'] Cons.prems(2,4,5) beyond by auto
    qed
  qed
qed

section \<open>Adopting a term\<close>

lemma step_down_sim:
  assumes rel: "related view ok N i n a" and "step_down ops n now t = Some n'" and "n_term n < t"
  shows "simulated view ok N i a n' []"
    and "n_term n' = t" and "role n' = Follower" and "cfg n' = cfg n"
proof -
  note O = node_okD [OF relatedD(1) [OF rel]] and S = node_simD [OF relatedD(2) [OF rel]]
  obtain n1 where p: "persist_hard_state ops (n\<lparr>n_term := t, voted_for := None\<rparr>) = Some n1"
    and r: "reset_election_timer (n1\<lparr>role := Follower, leader_id := None\<rparr>) now = Some n'"
    using assms(2) by (auto simp: step_down_def bind_eq_Some_conv)
  obtain s where s: "n1 = n\<lparr>n_term := t, voted_for := None, store := s\<rparr>" "ok s"
    "view s = (view (store n))\<lparr>p_term := t, p_voted_for := None\<rparr>"
    using persist_SomeD [OF p] O(1) by (auto simp: vote_storable_def)
  obtain rr d where n': "n' = n\<lparr>n_term := t, voted_for := None, store := s, role := Follower,
      leader_id := None, rng := rr, election_deadline := d\<rparr>"
    using reset_election_timer_SomeD [OF r] s(1) by auto
  have "tmx a i < unat t" using S(1) assms(3) by (simp add: word_less_nat_alt)
  then have "nsteps N i a (bump i (unat t) a)"
    using O(5) by (intro nsteps_one r_bump) (auto simp: local_to_def step_defs)
  moreover have "related view ok N i n' (bump i (unat t) a)"
    using O S s(2,3) unfolding n' related_def node_ok_def node_sim_def by (simp add: step_defs log_fits_def)
  ultimately show "simulated view ok N i a n' []" by (auto intro: simulatedI)
  show "n_term n' = t" "role n' = Follower" "cfg n' = cfg n" unfolding n' by simp_all
qed

section \<open>Leading\<close>

lemma advance_commit_sim:
  assumes rel: "related view ok N i n a" and "role n = Leader" and adv: "advance_commit n = Some n'"
  shows "simulated view ok N i a n' []" and "\<exists>c. n' = n\<lparr>commit_index := c\<rparr>"
proof -
  note O = node_okD [OF relatedD(1) [OF rel]] and S = node_simD [OF relatedD(2) [OF rel]]
  consider "n' = n" | k r where "n' = n\<lparr>commit_index := k\<rparr>" "unat (commit_index n) < unat k"
      "unat k \<le> length (n_log n)" "term_at n k = Some (n_term n)" "replicas n k = Some r" "r \<ge> quorum n"
    using advance_commit_SomeD [OF adv O(10)] by blast
  then show "simulated view ok N i a n' []"
  proof cases
    case 1
    then show ?thesis using rel by (simp add: simulated_refl)
  next
    case (2 k r)
    let ?Q = "replica_set n k"
    have card: "card ?Q \<ge> N div 2 + 1"
      using 2(5,6) replicas_eq [of n k] O(3,9) by (simp add: quorum_def)
    have maj: "majority N ?Q"
      using card O(3-5) unfolding majority_def replica_set_def by auto
    have stored: "\<forall>j \<in> ?Q. j = i \<or> unat k \<le> mi a i j"
      using S(7) assms(2) O(3,4,9) by (auto simp: replica_set_def word_le_nat_alt)
    have own: "tm (lg a i ! (unat k - 1)) = tmx a i"
      using term_at_SomeD [OF 2(4)] 2(2) S(1,3) by (auto simp: tm_def split: if_splits)
    have "rstep N a (a\<lparr>ci := (ci a)(i := unat k)\<rparr>)"
      using r_commit [OF O(5) _ _ _ own maj stored] S(3,4) assms(2) 2(2,3) by simp
    then have "nsteps N i a (a\<lparr>ci := (ci a)(i := unat k)\<rparr>)"
      by (rule nsteps_one) (simp add: local_to_def)
    moreover have "related view ok N i n' (a\<lparr>ci := (ci a)(i := unat k)\<rparr>)"
      using O S unfolding 2(1) related_def node_ok_def node_sim_def by (simp add: log_fits_def)
    ultimately show ?thesis by (auto intro: simulatedI)
  qed
  show "\<exists>c. n' = n\<lparr>commit_index := c\<rparr>"
    using advance_commit_SomeD [OF adv O(10)] by (auto intro: exI [of _ "commit_index n"])
qed

lemma append_for_sim:
  assumes rel: "related view ok N i n a" and "role n = Leader" and "append_for n peer = Some o1"
  shows "simulated view ok N i a n [o1]"
proof -
  note O = node_okD [OF relatedD(1) [OF rel]] and S = node_simD [OF relatedD(2) [OF rel]]
  obtain p t k where o1: "o1 = \<lparr>to = peer, message = AppendEntries (n_term n) p t
      (take k (drop (unat p) (n_log n))) (commit_index n)\<rparr>"
    and p: "unat p \<le> length (n_log n)" "term_at n p = Some t"
    using append_for_SomeD [OF assms(3)] by blast
  let ?b = "send i peer (AApp (tmx a i) (unat p) (tm_before (lg a i) (unat p))
      (take k (drop (unat p) (lg a i))) (ci a i)) a"
  have "rstep N a ?b" using O(5) S(3,4) assms(2) p(1) by (intro r_send) auto
  then have "nsteps N i a ?b" by (rule nsteps_one) (auto simp: local_to_def send_def)
  moreover have "related view ok N i n ?b"
    using rel unfolding related_def node_ok_def node_sim_def by (simp add: send_def)
  moreover have "outs_sim i [o1] ?b"
    using S(1,3,5) unat_term_at [OF p(2)] unfolding o1 by (simp add: outs_sim_def send_def)
  ultimately show ?thesis by (rule simulatedI)
qed

lemma broadcast_sim:
  assumes rel: "related view ok N i n a" and "role n = Leader" and "broadcast_append n = Some out"
  shows "simulated view ok N i a n out"
proof (rule simulated_all [OF rel])
  fix o1 b assume o1: "o1 \<in> set out" and b: "related view ok N i n b"
  obtain p where "append_for n p = Some o1"
    using broadcast_append_SomeD [OF assms(3) o1] by blast
  then show "simulated view ok N i b n [o1]" by (rule append_for_sim [OF b assms(2)])
qed

text \<open>Commit, then broadcast: what a leader does after every change of its log.\<close>

lemma commit_broadcast_sim:
  assumes rel: "related view ok N i n a" and "role n = Leader" and "advance_commit n = Some n1"
    and "broadcast_append (n1\<lparr>heartbeat_deadline := h\<rparr>) = Some out"
  shows "simulated view ok N i a (n1\<lparr>heartbeat_deadline := h\<rparr>) out"
proof -
  obtain b where b: "nsteps N i a b" "related view ok N i n1 b"
    using advance_commit_sim(1) [OF assms(1-3)] unfolding simulated_def by blast
  have "role (n1\<lparr>heartbeat_deadline := h\<rparr>) = Leader"
    using advance_commit_sim(2) [OF assms(1-3)] assms(2) by auto
  then show ?thesis
    using b assms(4) by (intro simulated_after [OF b(1)] broadcast_sim) simp_all
qed

lemma lead_sim:
  assumes rel: "related view ok N i n a" and "role n = Candidate" and "vote_count n \<ge> quorum n"
    and "log_append ops (n\<lparr>role := Leader, leader_id := x, next_index := ns,
           match_index := replicate N 0\<rparr>) [e] = Some n'"
    and "e_term e = n_term n" and "length ns = N"
  shows "simulated view ok N i a n' []" and "role n' = Leader"
proof -
  note O = node_okD [OF relatedD(1) [OF rel]] and S = node_simD [OF relatedD(2) [OF rel]]
  obtain s where s: "n' = n\<lparr>role := Leader, leader_id := x, next_index := ns,
      match_index := replicate N 0, store := s, n_log := n_log n @ [e]\<rparr>" "ok s"
    "view s = (view (store n))\<lparr>p_log := p_log (view (store n)) @ [e]\<rparr>" "log_fits n'"
    using log_append_ok [OF assms(4)] O(1,2) by auto
  have "vs a i = {j. j < N \<and> votes n ! j}" using S(6) assms(2) O(7) by simp
  then have maj: "majority N (vs a i)"
    using assms(3) O(3,7) by (auto simp: majority_def vote_count_eq quorum_def)
  have "rstep N a (lead i e a)"
    using O(5) S(1,4) assms(2,5) maj by (intro r_lead) (auto simp: tm_def)
  then have "nsteps N i a (lead i e a)"
    by (rule nsteps_one) (auto simp: local_to_def step_defs)
  moreover have "related view ok N i n' (lead i e a)"
    using O S s(2-4) assms(6) unfolding related_def node_ok_def node_sim_def by (simp add: s(1) step_defs)
  ultimately show "simulated view ok N i a n' []" by (auto intro: simulatedI)
  show "role n' = Leader" unfolding s(1) by simp
qed

lemma become_leader_sim:
  assumes rel: "related view ok N i n a" and "role n = Candidate" and "vote_count n \<ge> quorum n"
    and "become_leader ops n now = Some (n', out)"
  shows "simulated view ok N i a n' out"
proof -
  note O = node_okD [OF relatedD(1) [OF rel]]
  obtain nx n1 n2 hb where la: "log_append ops (n\<lparr>role := Leader, leader_id := Some (cfg_id (cfg n)),
        next_index := replicate N nx, match_index := replicate N 0\<rparr>) [\<lparr>e_term = n_term n, command = []\<rparr>] = Some n1"
    and ac: "advance_commit n1 = Some n2" and n': "n' = n2\<lparr>heartbeat_deadline := hb\<rparr>"
    and br: "broadcast_append n' = Some out"
    using assms(4) O(3) by (auto simp: become_leader_def bind_eq_Some_conv Let_def)
  note l = lead_sim [OF assms(1-3) la]
  obtain b where b: "nsteps N i a b" "related view ok N i n1 b"
    using l(1) unfolding simulated_def by auto
  show ?thesis
    using commit_broadcast_sim [OF b(2) l(2) ac] br unfolding n'
    by (intro simulated_after [OF b(1)]) simp_all
qed

section \<open>Elections\<close>

text \<open>The first half of an election: a new term and a vote for itself, made durable.\<close>

lemma candidate_sim:
  assumes rel: "related view ok N i n a" and "start_election ops n now = Some (n', out)"
  obtains n2 t v where "nsteps N i a (timeout i a)" and "related view ok N i n2 (timeout i a)" and "role n2 = Candidate"
    and "save_hard_state ops (store n) t v = Some (store n2)"
    and "(if vote_count n2 \<ge> quorum n2 then become_leader ops n2 now
       else do { lt \<leftarrow> last_term n2;
                 Some (n2, map (\<lambda>p. \<lparr>to = p, message = RequestVote (n_term n2) (last_index n2) lt\<rparr>) (peers n2)) })
      = Some (n', out)"
proof -
  note O = node_okD [OF relatedD(1) [OF rel]] and S = node_simD [OF relatedD(2) [OF rel]]
  obtain t n1 vs n2 where t: "add64 (n_term n) 1 = Some t"
    and p: "persist_hard_state ops (n\<lparr>n_term := t, voted_for := Some i\<rparr>) = Some n1"
    and vs: "vec_set (replicate N False) i True = Some vs"
    and r: "reset_election_timer (n1\<lparr>role := Candidate, leader_id := None, votes := vs\<rparr>) now = Some n2"
    and rest: "(if vote_count n2 \<ge> quorum n2 then become_leader ops n2 now
       else do { lt \<leftarrow> last_term n2;
                 Some (n2, map (\<lambda>p. \<lparr>to = p, message = RequestVote (n_term n2) (last_index n2) lt\<rparr>) (peers n2)) })
      = Some (n', out)"
    using assms(2) O(3,4) unfolding start_election_def Let_def
    by (auto simp: persist_hard_state_def bind_eq_Some_conv)
  obtain s where s: "n1 = n\<lparr>n_term := t, voted_for := Some i, store := s\<rparr>" "ok s"
    "view s = (view (store n))\<lparr>p_term := t, p_voted_for := Some i\<rparr>"
    using persist_SomeD [OF p] O(1) vote_storable_id [OF O(5,6)] by auto
  obtain rr d where n2: "n2 = n\<lparr>n_term := t, voted_for := Some i, store := s, role := Candidate,
      leader_id := None, votes := vs, rng := rr, election_deadline := d\<rparr>"
    using reset_election_timer_SomeD [OF r] s(1) by auto
  have ut: "unat t = Suc (tmx a i)" using add64_Some_unat [OF t] S(1) by simp
  have vs': "length vs = N" "{j. j < N \<and> vs ! j} = {i}"
    using vec_set_SomeD [OF vs] O(5) by (auto simp: nth_list_update split: if_splits)
  have "save_hard_state ops (store n) t (Some i) = Some (store n2)"
    using p s(1) n2 by (auto simp: persist_hard_state_def bind_eq_Some_conv dest!: arg_cong [where f = store])
  moreover have "nsteps N i a (timeout i a)"
    using O(5) by (intro nsteps_one r_timeout) (auto simp: local_to_def step_defs)
  moreover have "related view ok N i n2 (timeout i a)"
    using O S s(2,3) vs' ut unfolding n2 related_def node_ok_def node_sim_def
    by (simp add: step_defs log_fits_def)
  moreover have "role n2 = Candidate" by (simp add: n2)
  ultimately show thesis using that rest by blast
qed

lemma start_election_sim:
  assumes rel: "related view ok N i n a" and "start_election ops n now = Some (n', out)"
  shows "simulated view ok N i a n' out"
proof -
  obtain n2 where first: "nsteps N i a (timeout i a)" and rel2: "related view ok N i n2 (timeout i a)"
    and n2: "role n2 = Candidate"
    and rest: "(if vote_count n2 \<ge> quorum n2 then become_leader ops n2 now
       else do { lt \<leftarrow> last_term n2;
                 Some (n2, map (\<lambda>p. \<lparr>to = p, message = RequestVote (n_term n2) (last_index n2) lt\<rparr>) (peers n2)) })
      = Some (n', out)"
    by (rule candidate_sim [OF assms])
  have "simulated view ok N i (timeout i a) n' out"
  proof (cases "vote_count n2 \<ge> quorum n2")
    case True
    then show ?thesis using become_leader_sim [OF rel2 _ True] rest by (simp add: n2)
  next
    case False
    then obtain lt where lt: "last_term n2 = Some lt" and n': "n' = n2"
      and out: "out = map (\<lambda>p. \<lparr>to = p, message = RequestVote (n_term n2) (last_index n2) lt\<rparr>) (peers n2)"
      using rest by (auto simp: bind_eq_Some_conv)
    show ?thesis
      unfolding n'
    proof (rule simulated_all [OF rel2])
      fix o1 b assume "o1 \<in> set out" and rb: "related view ok N i n2 b"
      then obtain q where o1: "o1 = \<lparr>to = q, message = RequestVote (n_term n2) (last_index n2) lt\<rparr>"
        unfolding out by auto
      note Sb = node_simD [OF relatedD(2) [OF rb]] and Ob = node_okD [OF relatedD(1) [OF rb]]
      let ?c = "send i q (AReq (tmx b i) (length (lg b i)) (last_tm (lg b i))) b"
      have "rstep N b ?c" using Ob(5) Sb(4) by (intro r_request) (simp_all add: n2)
      then have "nsteps N i b ?c" by (rule nsteps_one) (auto simp: local_to_def send_def)
      moreover have "related view ok N i n2 ?c"
        using rb unfolding related_def node_ok_def node_sim_def by (simp add: send_def)
      moreover have "outs_sim i [o1] ?c"
        using Sb(1,3) unat_last_index [OF Ob(10)] unat_last_term [OF lt Ob(10)]
        unfolding o1 by (simp add: outs_sim_def send_def)
      ultimately show "simulated view ok N i b n2 [o1]" by (rule simulatedI)
    qed
  qed
  then show ?thesis by (rule simulated_after [OF first])
qed

lemma tick_sim:
  assumes rel: "related view ok N i n a" and "tick ops n now = Some (n', out)"
  shows "simulated view ok N i a n' out"
proof (cases "role n = Leader")
  case True
  then consider "n' = n" "out = []"
    | hb where "n' = n\<lparr>heartbeat_deadline := hb\<rparr>" "broadcast_append n' = Some out"
    using assms(2) by (auto simp: tick_def bind_eq_Some_conv Let_def split: if_splits)
  then show ?thesis
  proof cases
    case 2
    then show ?thesis using rel True by (intro broadcast_sim) simp_all
  qed (use rel in \<open>simp add: simulated_refl\<close>)
next
  case False
  then have "tick ops n now = (if now \<ge> election_deadline n then start_election ops n now else Some (n, []))"
    by (cases "role n") (simp_all add: tick_def)
  then show ?thesis
    using assms start_election_sim [OF rel] by (auto intro: simulated_refl split: if_splits)
qed

section \<open>Client commands\<close>

lemma client_sim:
  assumes rel: "related view ok N i n a" and "role n = Leader" and "log_append ops n [e] = Some n'"
    and "e_term e = n_term n"
  shows "simulated view ok N i a n' []" and "role n' = Leader"
proof -
  note O = node_okD [OF relatedD(1) [OF rel]] and S = node_simD [OF relatedD(2) [OF rel]]
  obtain s where s: "n' = n\<lparr>store := s, n_log := n_log n @ [e]\<rparr>" "ok s"
    "view s = (view (store n))\<lparr>p_log := p_log (view (store n)) @ [e]\<rparr>" "log_fits n'"
    using log_append_ok [OF assms(3)] O(1,2) by auto
  have "rstep N a (append_own i e a)"
    using O(5) S(1,4) assms(2,4) by (intro r_client) (auto simp: tm_def)
  then have "nsteps N i a (append_own i e a)"
    by (rule nsteps_one) (auto simp: local_to_def step_defs)
  moreover have "related view ok N i n' (append_own i e a)"
    using O S s(2-4) assms(2) unfolding related_def node_ok_def node_sim_def by (simp add: s(1) step_defs)
  ultimately show "simulated view ok N i a n' []" by (auto intro: simulatedI)
  show "role n' = Leader" using assms(2) unfolding s(1) by simp
qed

lemma propose_sim:
  assumes rel: "related view ok N i n a" and "propose ops n now cmd = Some (n', r)"
  shows "simulated view ok N i a n' (proposed_out r)"
proof (cases "role n = Leader")
  case True
  then obtain n1 out where la: "log_append ops n [\<lparr>e_term = n_term n, command = cmd\<rparr>] = Some n1"
    and ac: "advance_commit n1 = Some n'" and br: "broadcast_append n' = Some out"
    and r: "r = Inr (last_index n', out)"
    using assms(2) by (auto simp: propose_def bind_eq_Some_conv)
  note c = client_sim [OF rel True la]
  obtain b where b: "nsteps N i a b" "related view ok N i n1 b"
    using c(1) unfolding simulated_def by auto
  have "n' = n'\<lparr>heartbeat_deadline := heartbeat_deadline n'\<rparr>" by simp
  then show ?thesis
    using commit_broadcast_sim [OF b(2) c(2) ac, of "heartbeat_deadline n'" out] br
    unfolding r by (intro simulated_after [OF b(1)]) simp_all
qed (use assms in \<open>auto simp: propose_def intro: simulated_refl\<close>)

section \<open>Handlers\<close>

lemma vote_reply_sim:
  assumes rel: "related view ok N i n a" and "voted_for n = Some src"
  shows "simulated view ok N i a n (reply src (VoteResponse (n_term n) True))"
proof -
  note O = node_okD [OF relatedD(1) [OF rel]] and S = node_simD [OF relatedD(2) [OF rel]]
  let ?b = "send i src (AVote (tmx a i)) a"
  have "rstep N a ?b" using O(5) S(2) assms(2) by (intro r_vote) simp_all
  then have "nsteps N i a ?b" by (rule nsteps_one) (auto simp: local_to_def send_def)
  moreover have "related view ok N i n ?b"
    using rel unfolding related_def node_ok_def node_sim_def by (simp add: send_def)
  moreover have "outs_sim i (reply src (VoteResponse (n_term n) True)) ?b"
    using S(1) by (simp add: outs_sim_def reply_def send_def)
  ultimately show ?thesis by (rule simulatedI)
qed

lemma on_request_vote_sim:
  assumes rel: "related view ok N i n a" and msg: "(src, i, AReq (unat t) (unat li) (unat lt)) \<in> net a"
    and src: "src < N" and "on_request_vote ops n now src t li lt = Some (n', out)"
  shows "simulated view ok N i a n' out"
proof -
  note O = node_okD [OF relatedD(1) [OF rel]] and S = node_simD [OF relatedD(2) [OF rel]]
  have no: "simulated view ok N i a n (reply src (VoteResponse (n_term n) False))"
    using rel by (auto simp: outs_sim_def reply_def intro: simulated_refl)
  consider (no) "n' = n" "out = reply src (VoteResponse (n_term n) False)"
    | (yes) lt0 n1 where "t = n_term n" "last_term n = Some lt0"
        "lt > lt0 \<or> (lt = lt0 \<and> li \<ge> last_index n)" "voted_for n = None \<or> voted_for n = Some src"
        "persist_hard_state ops (n\<lparr>voted_for := Some src\<rparr>) = Some n1"
        "reset_election_timer n1 now = Some n'" "out = reply src (VoteResponse (n_term n') True)"
    using assms(4) unfolding on_request_vote_def Let_def
    by (auto simp: bind_eq_Some_conv split: if_splits)
  then show ?thesis
  proof cases
    case (yes lt0 n1)
    obtain s where s: "n1 = n\<lparr>voted_for := Some src, store := s\<rparr>" "ok s"
      "view s = (view (store n))\<lparr>p_term := n_term n, p_voted_for := Some src\<rparr>"
      using persist_SomeD [OF yes(5)] O(1,6) src vote_storable_id by auto
    obtain rr d where n': "n' = n\<lparr>voted_for := Some src, store := s, rng := rr, election_deadline := d\<rparr>"
      using reset_election_timer_SomeD [OF yes(6)] s(1) by auto
    have vote: "voted_for n' = Some src" unfolding n' by simp
    have utd: "up_to_date (unat li) (unat lt) (lg a i)"
      using yes(3) unat_last_term [OF yes(2) O(10)] unat_last_index [OF O(10)] S(3)
      by (auto simp: up_to_date_def word_less_nat_alt word_le_nat_alt)
    obtain b where b: "nsteps N i a b" "related view ok N i n' b"
    proof (cases "voted_for n")
      case None
      have "rstep N a (cast_vote i src a)"
        using O(5) S(1,2) msg None yes(1) utd by (intro r_grant) auto
      then have "nsteps N i a (cast_vote i src a)"
        by (rule nsteps_one) (auto simp: local_to_def step_defs)
      moreover have "related view ok N i n' (cast_vote i src a)"
        using O S s(2,3) unfolding n' related_def node_ok_def node_sim_def
        by (simp add: step_defs log_fits_def)
      ultimately show thesis by (rule that)
    next
      case (Some c)
      then have "voted_for n = Some src" using yes(4) by simp
      then have "related view ok N i n' a"
        using O S s(2,3) unfolding n' related_def node_ok_def node_sim_def
        by (simp add: log_fits_def)
      then show thesis by (intro that) simp_all
    qed
    show ?thesis
      unfolding yes(7) by (rule simulated_after [OF b(1) vote_reply_sim [OF b(2) vote]])
  qed (use no in simp)
qed

lemma on_vote_response_sim:
  assumes rel: "related view ok N i n a" and msg: "g \<longrightarrow> (src, i, AVote (unat t)) \<in> net a"
    and src: "src < N" and "on_vote_response ops n now src t g = Some (n', out)"
  shows "simulated view ok N i a n' out"
proof (cases "role n \<noteq> Candidate \<or> t \<noteq> n_term n \<or> \<not> g")
  case True
  then have "n' = n" "out = []" using assms(4) by (auto simp: on_vote_response_def)
  then show ?thesis using rel by (simp add: simulated_refl)
next
  case False
  note O = node_okD [OF relatedD(1) [OF rel]] and S = node_simD [OF relatedD(2) [OF rel]]
  obtain vs where vs: "vec_set (votes n) src True = Some vs"
    and rest: "(if vote_count (n\<lparr>votes := vs\<rparr>) \<ge> quorum (n\<lparr>votes := vs\<rparr>)
      then become_leader ops (n\<lparr>votes := vs\<rparr>) now else Some (n\<lparr>votes := vs\<rparr>, [])) = Some (n', out)"
    using assms(4) False unfolding on_vote_response_def Let_def by (auto simp: bind_eq_Some_conv)
  let ?b = "a\<lparr>raft.vs := (raft.vs a)(i := insert src (raft.vs a i))\<rparr>"
  have "length vs = N" "{j. j < N \<and> vs ! j} = insert src {j. j < N \<and> votes n ! j}"
    using vec_set_SomeD [OF vs] O(7) by (auto simp: nth_list_update split: if_splits)
  then have rb: "related view ok N i (n\<lparr>votes := vs\<rparr>) ?b"
    using O S False unfolding related_def node_ok_def node_sim_def by (simp add: log_fits_def)
  have "rstep N a ?b" using O(5) src S(1,4) msg False by (intro r_count) auto
  then have b: "nsteps N i a ?b" by (rule nsteps_one) (auto simp: local_to_def)
  show ?thesis
  proof (cases "vote_count (n\<lparr>votes := vs\<rparr>) \<ge> quorum (n\<lparr>votes := vs\<rparr>)")
    case True
    have "role (n\<lparr>votes := vs\<rparr>) = Candidate" using False by simp
    then show ?thesis
      using become_leader_sim [OF rb _ True] rest True by (intro simulated_after [OF b]) simp
  qed (use rest rb in \<open>auto intro!: simulated_after [OF b] simulated_refl\<close>)
qed

lemma ack_sim:
  assumes rel: "related view ok N i n a" and "(i, unat t, unat m) \<in> acks a"
  shows "simulated view ok N i a n (reply src (AppendResponse t True m))"
proof -
  note O = node_okD [OF relatedD(1) [OF rel]]
  let ?b = "send i src (AAck (unat t) (unat m)) a"
  have "rstep N a ?b" using O(5) assms(2) by (intro r_ack) simp_all
  then have "nsteps N i a ?b" by (rule nsteps_one) (auto simp: local_to_def send_def)
  moreover have "related view ok N i n ?b"
    using rel unfolding related_def node_ok_def node_sim_def by (simp add: send_def)
  moreover have "outs_sim i (reply src (AppendResponse t True m)) ?b"
    by (simp add: outs_sim_def reply_def send_def)
  ultimately show ?thesis by (rule simulatedI)
qed

lemma follow_sim:
  assumes rel: "related view ok N i n a" and "role n \<noteq> Leader"
  shows "\<exists>b. nsteps N i a b \<and> related view ok N i (n\<lparr>role := Follower\<rparr>) b"
proof -
  note O = node_okD [OF relatedD(1) [OF rel]] and S = node_simD [OF relatedD(2) [OF rel]]
  let ?b = "a\<lparr>rl := (rl a)(i := AFollower)\<rparr>"
  have "rstep N a ?b" using O(5) S(4) assms(2) by (intro r_follow) simp_all
  then have "nsteps N i a ?b" by (rule nsteps_one) (auto simp: local_to_def)
  moreover have "related view ok N i (n\<lparr>role := Follower\<rparr>) ?b"
    using rel unfolding related_def node_ok_def node_sim_def by (simp add: log_fits_def)
  ultimately show ?thesis by blast
qed

lemma accept_sim:
  assumes rel: "related view ok N i n a" and "role n = Follower" and t: "t = n_term n"
    and msg: "(src, i, AApp (unat t) (unat p) (unat pt) es (unat lc)) \<in> net a"
    and p: "unat p \<le> length (n_log n)" "term_at n p = Some pt"
    and loop: "append_loop ops n p 0 es = Some n1" and m: "add64 p (of_nat (length es)) = Some matched"
    and n': "n' = (if lc > commit_index n1 then n1\<lparr>commit_index := min lc matched\<rparr> else n1)"
  shows "simulated view ok N i a n' (reply src (AppendResponse (n_term n') True matched))"
proof -
  note O = node_okD [OF relatedD(1) [OF rel]] and S = node_simD [OF relatedD(2) [OF rel]]
  have "p_log (view (store n)) = n_log n" using O(2) by simp
  then obtain s where s: "n1 = n\<lparr>store := s, n_log := merge (n_log n) (unat p) es\<rparr>" "ok s"
    "view s = (view (store n))\<lparr>p_log := merge (n_log n) (unat p) es\<rparr>" "log_fits n1"
    using append_loop_merge [OF loop O(1,10)] p(1) by auto
  have "length es < vec_cap"
    using s(1,4) merge_length_ge [OF p(1), of es] unfolding log_fits_def by simp
  then have um: "unat matched = unat p + length es"
    using add64_Some_unat [OF m] by (simp add: unat_of_nat_small)
  let ?b = "accept i (unat p) es (unat lc) a"
  have "rstep N a ?b"
    using O(5) S(1,3,4) msg t assms(2) p(1) unat_term_at [OF p(2)]
    by (intro r_accept [where l = src]) auto
  then have b: "nsteps N i a ?b" by (rule nsteps_one) (auto simp: local_to_def step_defs)
  have "related view ok N i n' ?b"
    using O S s(2-4) assms(2) um unfolding n' s(1) related_def node_ok_def node_sim_def
    by (auto simp: step_defs word_less_nat_alt unat_min64 log_fits_def)
  moreover have "(i, unat (n_term n'), unat matched) \<in> acks ?b"
    using S(1) um unfolding n' s(1) by (simp add: step_defs)
  ultimately show ?thesis by (intro simulated_after [OF b] ack_sim)
qed

lemma on_append_entries_sim:
  assumes rel: "related view ok N i n a"
    and msg: "(src, i, AApp (unat t) (unat p) (unat pt) es (unat lc)) \<in> net a"
    and le: "t \<le> n_term n" and "on_append_entries ops n now src t p pt es lc = Some (n', out)"
  shows "simulated view ok N i a n' out"
  using assms(4) node_okD(10) [OF relatedD(1) [OF rel]]
proof (cases rule: on_append_entries_cases)
  case stale
  then show ?thesis using rel by (auto simp: outs_sim_def reply_def vec_cap_def intro: simulated_refl)
next
  case (refused n0 rr d h)
  obtain b where b: "nsteps N i a b" "related view ok N i (n\<lparr>role := Follower\<rparr>) b"
    using follow_sim [OF rel refused(2)] by blast
  have "related view ok N i n0 b" using b(2) unfolding refused(3) by simp
  then have "simulated view ok N i b n0 (reply src (AppendResponse (n_term n0) False h))"
    using refused(6) by (auto simp: outs_sim_def reply_def intro: simulated_refl)
  then show ?thesis using refused(4,5) by (simp add: simulated_after [OF b(1)])
next
  case (accepted n0 rr d n1 matched)
  obtain b where b: "nsteps N i a b" "related view ok N i (n\<lparr>role := Follower\<rparr>) b"
    using follow_sim [OF rel accepted(2)] by blast
  have rel0: "related view ok N i n0 b" using b(2) unfolding accepted(3) by simp
  have t: "role n0 = Follower" "t = n_term n0" using accepted(1,3) le by simp_all
  have "(src, i, AApp (unat t) (unat p) (unat pt) es (unat lc)) \<in> net b"
    using msg nsteps_net [OF b(1)] by blast
  then show ?thesis
    unfolding accepted(9) by (intro simulated_after [OF b(1)] accept_sim [OF rel0 t _ accepted(4-8)])
qed

lemma on_append_response_sim:
  assumes rel: "related view ok N i n a" and msg: "g \<longrightarrow> (src, i, AAck (unat t) (unat m)) \<in> net a"
    and src: "src < N" and "on_append_response n src t g m = Some (n', out)"
  shows "simulated view ok N i a n' out"
proof (cases "role n \<noteq> Leader \<or> t \<noteq> n_term n")
  case True
  then have "n' = n" "out = []" using assms(4) by (auto simp: on_append_response_def)
  then show ?thesis using rel by (simp add: simulated_refl)
next
  case lead: False
  note O = node_okD [OF relatedD(1) [OF rel]] and S = node_simD [OF relatedD(2) [OF rel]]
  show ?thesis
  proof (cases g)
    case False
    then obtain ns o1 nx where set: "vec_set (next_index n) src nx = Some ns"
      and ns: "n' = n\<lparr>next_index := ns\<rparr>" "append_for n' src = Some o1" "out = [o1]"
      using assms(4) lead unfolding on_append_response_def Let_def
      by (simp add: bind_eq_Some_conv) blast
    have "length ns = N" using vec_set_SomeD [OF set] O(8) by simp
    note ns = this ns
    have "related view ok N i n' a" using related_next_index [OF rel ns(1)] ns(2) by simp
    then show ?thesis using append_for_sim [of N i n' a] ns lead by simp
  next
    case True
    let ?m = "max (match_index n ! src) (min m (last_index n))"
    obtain ms nx ns n1 where ms: "vec_set (match_index n) src ?m = Some ms"
      and ns: "vec_set (next_index n) src nx = Some ns"
      and ac: "advance_commit (n\<lparr>match_index := ms, next_index := ns\<rparr>) = Some n1"
      and rest: "(if nx \<le> last_index n1 then do { o1 \<leftarrow> append_for n1 src; Some (n1, [o1]) }
        else Some (n1, [])) = Some (n', out)"
      using assms(4) lead True unfolding on_append_response_def Let_def
      by (auto simp: bind_eq_Some_conv dest!: vec_get_SomeD split: if_splits)
    let ?n = "n\<lparr>match_index := ms, next_index := ns\<rparr>"
    let ?b = "a\<lparr>mi := (mi a)(i := (mi a i)(src := max (mi a i src) (min (unat m) (length (lg a i)))))\<rparr>"
    have len: "length ms = N" "length ns = N" "ms = (match_index n)[src := ?m]"
      using vec_set_SomeD [OF ms] vec_set_SomeD [OF ns] O(8,9) by auto
    have "rstep N a ?b" using O(5) src S(1,4) msg True lead by (intro r_match) auto
    then have b: "nsteps N i a ?b" by (rule nsteps_one) (auto simp: local_to_def)
    have um: "unat ?m = max (mi a i src) (min (unat m) (length (lg a i)))"
      using S(3) S(7) lead src O(9) unat_last_index [OF O(10)] by (simp add: unat_max64 unat_min64)
    have rb: "related view ok N i ?n ?b"
      using O S len um lead src unfolding related_def node_ok_def node_sim_def
      by (auto simp: log_fits_def nth_list_update)
    have lead': "role ?n = Leader" using lead by simp
    obtain c where c: "nsteps N i ?b c" "related view ok N i n1 c"
      using advance_commit_sim(1) [OF rb lead' ac] unfolding simulated_def by blast
    have "role n1 = Leader" using advance_commit_sim(2) [OF rb lead' ac] lead by auto
    then have "simulated view ok N i c n' out"
      using rest c(2) append_for_sim [OF c(2)]
      by (auto simp: bind_eq_Some_conv intro: simulated_refl split: if_splits)
    then show ?thesis by (intro simulated_after [OF b] simulated_after [OF c(1)])
  qed
qed

lemma handle_sim:
  assumes rel: "related view ok N i n a" and msg: "msg_sim src i msg (net a)"
    and "handle ops n now src msg = Some (n', out)"
  shows "simulated view ok N i a n' out"
proof (cases "src = i \<or> src \<ge> N")
  case True
  then have "n' = n" "out = []"
    using assms(3) node_okD(3,4) [OF relatedD(1) [OF rel]] by (auto simp: handle_def)
  then show ?thesis using rel by (simp add: simulated_refl)
next
  case False
  let ?rest = "\<lambda>n. (case msg of
           RequestVote t li lt \<Rightarrow> on_request_vote ops n now src t li lt
         | VoteResponse t g \<Rightarrow> on_vote_response ops n now src t g
         | AppendEntries t p pt es lc \<Rightarrow> on_append_entries ops n now src t p pt es lc
         | AppendResponse t s m \<Rightarrow> on_append_response n src t s m)"
  obtain n1 where n1: "(if msg_term msg > n_term n then step_down ops n now (msg_term msg) else Some n) = Some n1"
    and rest: "?rest n1 = Some (n', out)"
    using assms(3) False node_okD(3,4) [OF relatedD(1) [OF rel]]
    by (auto simp: handle_def bind_eq_Some_conv)
  obtain b where b: "nsteps N i a b" "related view ok N i n1 b" "msg_term msg \<le> n_term n1"
  proof (cases "msg_term msg > n_term n")
    case True
    then have sd: "step_down ops n now (msg_term msg) = Some n1" using n1 by simp
    note s = step_down_sim [OF rel sd True]
    then show thesis using that unfolding simulated_def by auto
  next
    case False
    then show thesis using that [of a] n1 rel by simp
  qed
  have msg': "msg_sim src i msg (net b)" by (rule msg_sim_mono [OF msg nsteps_net [OF b(1)]])
  have src: "src < N" using False by simp
  have "simulated view ok N i b n' out"
  proof (cases msg)
    case (RequestVote t li lt)
    then show ?thesis using on_request_vote_sim [OF b(2) _ src] msg' rest by simp
  next
    case (VoteResponse t g)
    then show ?thesis using on_vote_response_sim [OF b(2) _ src] msg' rest by simp
  next
    case (AppendEntries t p pt es lc)
    then show ?thesis using on_append_entries_sim [OF b(2)] msg' rest b(3) by simp
  next
    case (AppendResponse t g m)
    have "g \<longrightarrow> (src, i, AAck (unat t) (unat m)) \<in> net b"
      using msg' AppendResponse by (cases g) auto
    then show ?thesis using on_append_response_sim [OF b(2) _ src] rest AppendResponse by simp
  qed
  then show ?thesis by (rule simulated_after [OF b(1)])
qed

section \<open>Delivery, crash and restart\<close>

lemma take_committed_sim:
  assumes "related view ok N i n a" and "take_committed n = Some (n', out)"
  shows "related view ok N i n' a"
  using assms by (auto simp: take_committed_def bind_eq_Some_conv)

text \<open>What is left of a crashed node is its storage.\<close>

lemma crash_sim:
  assumes rel: "related view ok N i n a"
  shows "\<exists>b. nsteps N i a b \<and> rl b i = AFollower \<and> ci b i = 0 \<and> tmx b i = unat (p_term (view (store n)))
    \<and> vot b i = p_voted_for (view (store n)) \<and> lg b i = p_log (view (store n))"
proof -
  note O = node_okD [OF relatedD(1) [OF rel]] and S = node_simD [OF relatedD(2) [OF rel]]
  let ?b = "a\<lparr>rl := (rl a)(i := AFollower), ci := (ci a)(i := 0)\<rparr>"
  have "rstep N a ?b" using O(5) by (rule r_crash)
  then have "nsteps N i a ?b" by (rule nsteps_one) (auto simp: local_to_def)
  then show ?thesis using O(2) S(1-3) by (intro exI [of _ ?b]) simp
qed

text \<open>A node started on a storage is related to any state that has the storage's contents.\<close>

lemma node_new_sim:
  assumes "node_new ops c s now = Some n" and "ok s" and "cfg_id c = i" and "cluster_size c = N" and "N < 2 ^ 64"
    and "rl a i = AFollower" and "ci a i = 0" and "tmx a i = unat (p_term (view s))"
    and "vot a i = p_voted_for (view s)" and "lg a i = p_log (view s)"
  shows "related view ok N i n a" and "role n = Follower"
proof -
  obtain s' p r where l: "load ops s = Some (s', p)" and i: "i < N"
    and r: "reset_election_timer
          \<lparr>cfg = c, store = s', n_term = p_term p, voted_for = p_voted_for p, n_log = p_log p,
           role = Follower, leader_id = None, commit_index = 0, applied_index = 0,
           votes = replicate N False, next_index = replicate N 1, match_index = replicate N 0,
           election_deadline = 0, heartbeat_deadline = 0, rng = r\<rparr> now = Some n"
    using assms(1,3,4) by (auto simp: node_new_def bind_eq_Some_conv Let_def split: if_splits)
  note ld = load_ok [OF assms(2) l]
  obtain rr d where n: "n = \<lparr>cfg = c, store = s', n_term = p_term p, voted_for = p_voted_for p, n_log = p_log p,
           role = Follower, leader_id = None, commit_index = 0, applied_index = 0,
           votes = replicate N False, next_index = replicate N 1, match_index = replicate N 0,
           election_deadline = d, heartbeat_deadline = 0, rng = rr\<rparr>"
    using reset_election_timer_SomeD [OF r] by auto
  show "related view ok N i n a"
    using ld view_ok [OF assms(2)] assms(3-10) i
    unfolding n related_def node_ok_def node_sim_def by (simp add: log_fits_def)
  show "role n = Follower" unfolding n by simp
qed

end

end
