(* ===== verification/Crash_Points.thy ===== *)
theory Crash_Points
  imports Node_Refine
begin

text \<open>
  A node can lose power between two writes of one operation: after the truncation and before
  the append of \<open>on_append_entries\<close>, after the step down and before the vote, after the vote
  for itself and before the first entry of a new leader.  \<open>traced\<close> is a storage that keeps
  every state its writes went through, so the code of \<open>crates/raft/src/node.rs\<close> run on it
  yields the disks a crash can leave.  Each of them is shown to be the disk of a node that
  stopped in some state of the protocol.
\<close>

section \<open>A storage that remembers its past\<close>

text \<open>Newest state first.\<close>

fun write_top :: "('s \<Rightarrow> 's option) \<Rightarrow> 's list \<Rightarrow> 's list option" where
  "write_top f [] = None"
| "write_top f (s # past) = do { s' \<leftarrow> f s; Some (s' # s # past) }"

fun load_top :: "('s \<Rightarrow> ('s \<times> persistent) option) \<Rightarrow> 's list \<Rightarrow> ('s list \<times> persistent) option" where
  "load_top f [] = None"
| "load_top f (s # past) = do { (s', p) \<leftarrow> f s; Some (s' # s # past, p) }"

definition traced :: "'s storage_ops \<Rightarrow> 's list storage_ops" where
  "traced st = \<lparr>load = load_top (load st),
     save_hard_state = (\<lambda>l t v. write_top (\<lambda>s. save_hard_state st s t v) l),
     append_entries = (\<lambda>l es. write_top (\<lambda>s. append_entries st s es) l),
     truncate_from = (\<lambda>l i. write_top (\<lambda>s. truncate_from st s i) l)\<rparr>"

definition top_view :: "('s \<Rightarrow> persistent) \<Rightarrow> 's list \<Rightarrow> persistent" where
  "top_view view l = view (hd l)"

definition top_ok :: "('s \<Rightarrow> bool) \<Rightarrow> 's list \<Rightarrow> bool" where
  "top_ok ok l \<longleftrightarrow> l \<noteq> [] \<and> ok (hd l)"

text \<open>The same node on a traced storage whose past starts now.\<close>

definition traced_node :: "'s node \<Rightarrow> 's list node" where
  "traced_node n = \<lparr>cfg = cfg n, store = [store n], n_term = n_term n, voted_for = voted_for n,
     n_log = n_log n, role = role n, leader_id = leader_id n, commit_index = commit_index n,
     applied_index = applied_index n, votes = votes n, next_index = next_index n,
     match_index = match_index n, election_deadline = election_deadline n,
     heartbeat_deadline = heartbeat_deadline n, rng = rng n\<rparr>"

lemma write_top_SomeD: "write_top f l = Some l' \<Longrightarrow> \<exists>s. f (hd l) = Some s \<and> l' = s # l \<and> l \<noteq> []"
  by (cases l) (auto simp: bind_eq_Some_conv)

lemma load_top_SomeD: "load_top f l = Some (l', p) \<Longrightarrow> \<exists>s. f (hd l) = Some (s, p) \<and> l' = s # l \<and> l \<noteq> []"
  by (cases l) (auto simp: bind_eq_Some_conv)

lemma traced_simps [simp]:
  "load (traced st) = load_top (load st)"
  "save_hard_state (traced st) l t v = write_top (\<lambda>s. save_hard_state st s t v) l"
  "append_entries (traced st) l es = write_top (\<lambda>s. append_entries st s es) l"
  "truncate_from (traced st) l i = write_top (\<lambda>s. truncate_from st s i) l"
  by (simp_all add: traced_def)

lemma top_Cons [simp]: "top_view view (s # l) = view s" "top_ok ok (s # l) = ok s"
  by (simp_all add: top_view_def top_ok_def)

lemma top_okD: "top_ok ok l \<Longrightarrow> ok (hd l)"
  by (simp add: top_ok_def)

text \<open>What the disk of a stopped node says, against the protocol.\<close>

definition down_rel :: "('s \<Rightarrow> persistent) \<Rightarrow> ('s \<Rightarrow> bool) \<Rightarrow> nodeid \<Rightarrow> 's \<Rightarrow> raft \<Rightarrow> bool" where
  "down_rel view ok i s a \<longleftrightarrow> ok s \<and> rl a i = AFollower \<and> ci a i = 0
     \<and> tmx a i = unat (p_term (view s)) \<and> vot a i = p_voted_for (view s) \<and> lg a i = p_log (view s)"

text \<open>The states \<open>l\<close> adds to the past \<open>past\<close> are disks of node \<open>i\<close> stopped after steps from \<open>a\<close>.\<close>

definition disk_safe :: "('s \<Rightarrow> persistent) \<Rightarrow> ('s \<Rightarrow> bool) \<Rightarrow> nat \<Rightarrow> nodeid \<Rightarrow> raft \<Rightarrow> 's \<Rightarrow> bool" where
  "disk_safe view ok N i a s \<longleftrightarrow> (\<exists>b. nsteps N i a b \<and> down_rel view ok i s b)"

definition pushed :: "('s \<Rightarrow> persistent) \<Rightarrow> ('s \<Rightarrow> bool) \<Rightarrow> nat \<Rightarrow> nodeid \<Rightarrow> raft \<Rightarrow> 's list \<Rightarrow> 's list \<Rightarrow> bool" where
  "pushed view ok N i a past l \<longleftrightarrow> (\<exists>new. l = new @ past \<and> (\<forall>s \<in> set new. disk_safe view ok N i a s))"

lemma disk_safe_after: "nsteps N i a b \<Longrightarrow> disk_safe view ok N i b s \<Longrightarrow> disk_safe view ok N i a s"
  unfolding disk_safe_def using nsteps_trans by blast

lemma pushed_refl: "pushed view ok N i a l l"
  by (simp add: pushed_def)

lemma pushed_Cons: "disk_safe view ok N i a s \<Longrightarrow> pushed view ok N i a past l \<Longrightarrow> pushed view ok N i a past (s # l)"
  unfolding pushed_def by (metis append_Cons set_ConsD)

lemma pushed_after:
  assumes "pushed view ok N i a past l" and "nsteps N i a b" and "pushed view ok N i b l l'"
  shows "pushed view ok N i a past l'"
proof -
  obtain new new' where n: "l = new @ past" "\<forall>s \<in> set new. disk_safe view ok N i a s"
    "l' = new' @ l" "\<forall>s \<in> set new'. disk_safe view ok N i b s"
    using assms(1,3) unfolding pushed_def by blast
  then show ?thesis
    unfolding pushed_def by (intro exI [of _ "new' @ new"]) (auto intro: disk_safe_after [OF assms(2)])
qed

lemma one_write: "l' = l \<or> (\<exists>s. l' = s # l \<and> disk_safe view ok N i a s) \<Longrightarrow> pushed view ok N i a l l'"
  using pushed_Cons pushed_refl by metis

context storage
begin

lemma traced_storage: "storage (traced ops) (top_view view) (top_ok ok)"
proof
  fix l l' :: "'s list" and p assume l: "top_ok ok l" and f: "load (traced ops) l = Some (l', p)"
  obtain s where s: "load ops (hd l) = Some (s, p)" "l' = s # l"
    using load_top_SomeD [of "load ops" l l' p] f by auto
  show "top_ok ok l' \<and> top_view view l' = top_view view l \<and> p = top_view view l"
    using load_ok [OF top_okD [OF l] s(1)] unfolding s(2) by (simp add: top_view_def)
next
  fix l l' :: "'s list" and t v assume l: "top_ok ok l" and v: "vote_storable v" and f: "save_hard_state (traced ops) l t v = Some l'"
  obtain s where s: "save_hard_state ops (hd l) t v = Some s" "l' = s # l"
    using write_top_SomeD [OF f [unfolded traced_simps]] by blast
  show "top_ok ok l' \<and> top_view view l' = (top_view view l)\<lparr>p_term := t, p_voted_for := v\<rparr>"
    using save_ok [OF top_okD [OF l] v s(1)] unfolding s(2) by (simp add: top_view_def)
next
  fix l l' :: "'s list" and es assume l: "top_ok ok l" and len: "length (p_log (top_view view l)) + length es < vec_cap"
    and f: "append_entries (traced ops) l es = Some l'"
  obtain s where s: "append_entries ops (hd l) es = Some s" "l' = s # l"
    using write_top_SomeD [OF f [unfolded traced_simps]] by blast
  show "top_ok ok l' \<and> top_view view l' = (top_view view l)\<lparr>p_log := p_log (top_view view l) @ es\<rparr>"
    using append_ok [OF top_okD [OF l] len [unfolded top_view_def] s(1)] unfolding s(2) by (simp add: top_view_def)
next
  fix l l' :: "'s list" and i assume l: "top_ok ok l" and f: "truncate_from (traced ops) l i = Some l'"
  obtain s where s: "truncate_from ops (hd l) i = Some s" "l' = s # l"
    using write_top_SomeD [OF f [unfolded traced_simps]] by blast
  show "top_ok ok l' \<and> top_view view l' = (top_view view l)\<lparr>p_log := take (unat i - 1) (p_log (top_view view l))\<rparr>"
    using truncate_ok [OF top_okD [OF l] s(1)] unfolding s(2) by (simp add: top_view_def)
next
  fix l :: "'s list" assume "top_ok ok l"
  then show "length (p_log (top_view view l)) < vec_cap \<and> vote_storable (p_voted_for (top_view view l))"
    using view_ok by (simp add: top_view_def top_ok_def)
qed

lemma traced_related:
  "related view ok N i n a \<Longrightarrow> related (top_view view) (top_ok ok) N i (traced_node n) a"
  by (simp add: related_def node_ok_def node_sim_def top_view_def top_ok_def traced_node_def log_fits_def)


text \<open>The disk of a node that matches the protocol.\<close>

lemma related_disk:
  assumes "related (top_view view) (top_ok ok) N i n a"
  shows "disk_safe view ok N i a (hd (store n))"
proof -
  obtain b where "nsteps N i a b" "rl b i = AFollower" "ci b i = 0"
    "tmx b i = unat (p_term (top_view view (store n)))" "vot b i = p_voted_for (top_view view (store n))"
    "lg b i = p_log (top_view view (store n))"
    using storage.crash_sim [OF traced_storage assms] by blast
  moreover have "ok (hd (store n))" by (rule top_okD [OF node_okD(1) [OF relatedD(1) [OF assms]]])
  ultimately show ?thesis unfolding disk_safe_def down_rel_def top_view_def by blast
qed

lemma simulated_disk: "simulated (top_view view) (top_ok ok) N i a n out \<Longrightarrow> disk_safe view ok N i a (hd (store n))"
  unfolding simulated_def by (auto intro: disk_safe_after related_disk)

lemma simulated_push:
  "simulated (top_view view) (top_ok ok) N i a n' out \<Longrightarrow> store n' = l \<or> (\<exists>s. store n' = s # l) \<Longrightarrow>
    pushed view ok N i a l (store n')"
  using simulated_disk [of N i a n' out] by (intro one_write) auto

end

section \<open>How often an operation writes\<close>

lemma persist_traced: "persist_hard_state (traced st) n = Some n' \<Longrightarrow> \<exists>s. n' = n\<lparr>store := s # store n\<rparr>"
  by (auto simp: persist_hard_state_def bind_eq_Some_conv dest!: write_top_SomeD)

lemma log_append_traced:
  "log_append (traced st) n es = Some n' \<Longrightarrow> \<exists>s. n' = n\<lparr>store := s # store n, n_log := n_log n @ es\<rparr> \<and> log_fits n'"
  using log_append_SomeD [of "traced st" n es n'] by (auto dest!: write_top_SomeD)

lemma step_down_traced: "step_down (traced st) n now t = Some n' \<Longrightarrow> \<exists>s. store n' = s # store n"
  by (auto simp: step_down_def bind_eq_Some_conv dest!: persist_traced reset_election_timer_SomeD)

lemma advance_commit_store: "advance_commit n = Some n' \<Longrightarrow> log_fits n \<Longrightarrow> store n' = store n"
  using advance_commit_SomeD [of n n'] by auto

lemma become_leader_traced:
  assumes "become_leader (traced st) n now = Some (n', out)"
  shows "\<exists>s. store n' = s # store n"
proof -
  obtain nx n1 n2 hb where la: "log_append (traced st) (n\<lparr>role := Leader, leader_id := Some (cfg_id (cfg n)),
        next_index := replicate (cluster_size (cfg n)) nx, match_index := replicate (cluster_size (cfg n)) 0\<rparr>)
        [\<lparr>e_term = n_term n, command = []\<rparr>] = Some n1"
    and ac: "advance_commit n1 = Some n2" and n': "n' = n2\<lparr>heartbeat_deadline := hb\<rparr>"
    using assms by (auto simp: become_leader_def bind_eq_Some_conv Let_def)
  then show ?thesis using log_append_traced [OF la] advance_commit_store [OF ac] by auto
qed

lemma propose_traced:
  "propose (traced st) n now cmd = Some (n', r) \<Longrightarrow> store n' = store n \<or> (\<exists>s. store n' = s # store n)"
  by (auto simp: propose_def bind_eq_Some_conv advance_commit_store dest!: log_append_traced split: if_splits)

lemma on_request_vote_traced:
  "on_request_vote (traced st) n now src t li lt = Some (n', out) \<Longrightarrow>
    store n' = store n \<or> (\<exists>s. store n' = s # store n)"
  by (auto simp: on_request_vote_def Let_def bind_eq_Some_conv
      dest!: persist_traced reset_election_timer_SomeD split: if_splits)

lemma on_vote_response_traced:
  "on_vote_response (traced st) n now src t g = Some (n', out) \<Longrightarrow>
    store n' = store n \<or> (\<exists>s. store n' = s # store n)"
  by (auto simp: on_vote_response_def Let_def bind_eq_Some_conv dest!: become_leader_traced split: if_splits)

lemma on_append_response_store:
  "on_append_response n src t g m = Some (n', out) \<Longrightarrow> log_fits n \<Longrightarrow> store n' = store n"
  by (auto simp: on_append_response_def Let_def bind_eq_Some_conv dest!: advance_commit_store split: if_splits)
context storage
begin

text \<open>
  The loop over received entries writes nothing, or appends, or first cuts the log at a
  position where the merged log differs from it.
\<close>

lemma append_loop_traced:
  assumes "append_loop (traced ops) n prev k es = Some n'" and "top_ok ok (store n)" and "log_fits n"
    and "p_log (top_view view (store n)) = n_log n" and "unat prev + k \<le> length (n_log n)"
  shows "store n' = store n \<or> (\<exists>s. store n' = s # store n)
    \<or> (\<exists>s s1 q. store n' = s # s1 # store n \<and> ok s1
         \<and> view s1 = (top_view view (store n))\<lparr>p_log := take q (n_log n)\<rparr> \<and> q < length (n_log n)
         \<and> q < length (merge (n_log n) (unat prev + k) es)
         \<and> merge (n_log n) (unat prev + k) es ! q \<noteq> n_log n ! q)"
  using assms
proof (induction es arbitrary: k)
  case Nil
  then show ?case by simp
next
  case (Cons e es)
  let ?p = "unat prev + k"
  obtain i idx where i: "add64 prev 1 = Some i" "add64 i (of_nat k) = Some idx"
    using Cons.prems(1) by (auto simp: bind_eq_Some_conv)
  have "k < vec_cap" using Cons.prems(3,5) unfolding log_fits_def by linarith
  then have idx: "unat idx = ?p + 1"
    using add64_Some_unat [OF i(1)] add64_Some_unat [OF i(2)] by (simp add: unat_of_nat_small)
  have le: "idx \<le> last_index n \<longleftrightarrow> ?p < length (n_log n)"
    using idx unat_last_index [OF Cons.prems(3)] by (simp add: word_le_nat_alt Suc_le_eq)
  have at: "term_at n idx = Some (e_term (n_log n ! ?p))" if "?p < length (n_log n)"
    using that idx by (subst term_at_defined) (auto simp: Suc_le_eq)
  consider (same) "?p < length (n_log n)" "tm (n_log n ! ?p) = tm e"
    | (conflict) "?p < length (n_log n)" "tm (n_log n ! ?p) \<noteq> tm e" | (beyond) "\<not> ?p < length (n_log n)"
    by blast
  then show ?case
  proof cases
    case same
    then have "append_loop (traced ops) n prev (Suc k) es = Some n'"
      using Cons.prems(1) i le at by (simp add: tm_eq_iff)
    from Cons.IH [OF this Cons.prems(2-4)] same show ?thesis by simp
  next
    case conflict
    then obtain l1 where l1: "truncate_from (traced ops) (store n) idx = Some l1"
      and la: "log_append (traced ops) (n\<lparr>store := l1, n_log := take (unat idx - 1) (n_log n)\<rparr>) (e # es) = Some n'"
      using Cons.prems(1) i le at by (auto simp: tm_eq_iff bind_eq_Some_conv)
    obtain s1 where s1: "truncate_from ops (hd (store n)) idx = Some s1" "l1 = s1 # store n"
      using write_top_SomeD [OF l1 [unfolded traced_simps]] by blast
    obtain s where "store n' = s # s1 # store n" using log_append_traced [OF la] s1(2) by auto
    moreover have "ok s1 \<and> view s1 = (top_view view (store n))\<lparr>p_log := take ?p (n_log n)\<rparr>"
      using truncate_ok [OF top_okD [OF Cons.prems(2)] s1(1)] Cons.prems(4) idx by (simp add: top_view_def)
    moreover have "merge (n_log n) ?p (e # es) = take ?p (n_log n) @ e # es" using conflict by simp
    then have "?p < length (merge (n_log n) ?p (e # es))" "merge (n_log n) ?p (e # es) ! ?p = e"
      using conflict(1) by (simp_all add: nth_append)
    ultimately show ?thesis using conflict by metis
  next
    case beyond
    then have "log_append (traced ops) n (e # es) = Some n'"
      using Cons.prems(1) i le by simp
    then show ?thesis using log_append_traced by fastforce
  qed
qed

text \<open>The disk between the two writes.\<close>

lemma cut_disk:
  assumes rel: "related (top_view view) (top_ok ok) N i n a" and "role n = Follower" and t: "t = n_term n"
    and msg: "(src, i, AApp (unat t) (unat p) (unat pt) es (unat lc)) \<in> net a"
    and p: "unat p \<le> length (n_log n)" "term_at n p = Some pt"
    and q: "q < length (n_log n)" "q < length (merge (n_log n) (unat p) es)" "merge (n_log n) (unat p) es ! q \<noteq> n_log n ! q"
    and s1: "ok s1" "view s1 = (top_view view (store n))\<lparr>p_log := take q (n_log n)\<rparr>"
  shows "disk_safe view ok N i a s1"
proof -
  note O = node_okD [OF relatedD(1) [OF rel]] and S = node_simD [OF relatedD(2) [OF rel]]
  have "rstep N a (cut i q a)"
    using O(5) S(1,3,4) msg t assms(2) p(1) q unat_term_at [OF p(2)]
    by (intro r_cut [where l = src]) auto
  then have b: "nsteps N i a (cut i q a)" by (rule nsteps_one) (auto simp: local_to_def step_defs)
  let ?c = "(cut i q a)\<lparr>rl := (rl (cut i q a))(i := AFollower), ci := (ci (cut i q a))(i := 0)\<rparr>"
  have "rstep N (cut i q a) ?c" using O(5) by (rule r_crash)
  then have c: "nsteps N i (cut i q a) ?c" by (rule nsteps_one) (auto simp: local_to_def)
  have "down_rel view ok i s1 ?c"
    using O(2) S(1-3) s1 unfolding down_rel_def by (simp add: cut_def)
  then show ?thesis using nsteps_trans [OF b c] unfolding disk_safe_def by blast
qed

lemma start_election_pushed:
  assumes rel: "related (top_view view) (top_ok ok) N i n a" and run: "start_election (traced ops) n now = Some (n', out)"
  shows "pushed view ok N i a (store n) (store n')"
proof -
  obtain n2 t v where b: "nsteps N i a (timeout i a)" and rel2: "related (top_view view) (top_ok ok) N i n2 (timeout i a)"
    and c: "role n2 = Candidate" and sv: "save_hard_state (traced ops) (store n) t v = Some (store n2)"
    and rest: "(if vote_count n2 \<ge> quorum n2 then become_leader (traced ops) n2 now
       else do { lt \<leftarrow> last_term n2;
                 Some (n2, map (\<lambda>p. \<lparr>to = p, message = RequestVote (n_term n2) (last_index n2) lt\<rparr>) (peers n2)) })
      = Some (n', out)"
    by (rule storage.candidate_sim [OF traced_storage assms])
  obtain s where s: "store n2 = s # store n" using write_top_SomeD [OF sv [unfolded traced_simps]] by blast
  have first: "pushed view ok N i a (store n) (store n2)"
    using disk_safe_after [OF b related_disk [OF rel2]] s by (intro one_write) auto
  show ?thesis
  proof (rule pushed_after [OF first b])
    show "pushed view ok N i (timeout i a) (store n2) (store n')"
    proof (cases "vote_count n2 \<ge> quorum n2")
      case True
      then have bl: "become_leader (traced ops) n2 now = Some (n', out)" using rest by simp
      show ?thesis
        using simulated_push [OF storage.become_leader_sim [OF traced_storage rel2 c True bl]]
          become_leader_traced [OF bl] by blast
    next
      case False
      then have "n' = n2" using rest by (auto simp: bind_eq_Some_conv)
      then show ?thesis by (simp add: pushed_refl)
    qed
  qed
qed

lemma tick_pushed:
  assumes rel: "related (top_view view) (top_ok ok) N i n a" and run: "tick (traced ops) n now = Some (n', out)"
  shows "pushed view ok N i a (store n) (store n')"
proof (cases "role n = Leader")
  case True
  then have "store n' = store n"
    using run by (auto simp: tick_def bind_eq_Some_conv Let_def split: if_splits)
  then show ?thesis by (simp add: pushed_refl)
next
  case False
  then have "tick (traced ops) n now = (if now \<ge> election_deadline n then start_election (traced ops) n now else Some (n, []))"
    by (cases "role n") (simp_all add: tick_def)
  then show ?thesis
    using run start_election_pushed [OF rel, of now n' out] by (cases "now \<ge> election_deadline n") (simp_all add: pushed_refl)
qed

lemma propose_pushed:
  assumes rel: "related (top_view view) (top_ok ok) N i n a" and run: "propose (traced ops) n now cmd = Some (n', r)"
  shows "pushed view ok N i a (store n) (store n')"
  by (rule simulated_push [OF storage.propose_sim [OF traced_storage assms] propose_traced [OF run]])

lemma on_append_entries_pushed:
  assumes rel: "related (top_view view) (top_ok ok) N i n a"
    and msg: "(src, i, AApp (unat t) (unat p) (unat pt) es (unat lc)) \<in> net a"
    and le: "t \<le> n_term n" and run: "on_append_entries (traced ops) n now src t p pt es lc = Some (n', out)"
  shows "pushed view ok N i a (store n) (store n')"
  using run node_okD(10) [OF relatedD(1) [OF rel]]
proof (cases rule: on_append_entries_cases)
  case stale
  then show ?thesis by (simp add: pushed_refl)
next
  case (refused n0 rr d h)
  then show ?thesis by (simp add: pushed_refl)
next
  case (accepted n0 rr d n1 matched)
  obtain b where b: "nsteps N i a b" "related (top_view view) (top_ok ok) N i (n\<lparr>role := Follower\<rparr>) b"
    using storage.follow_sim [OF traced_storage rel accepted(2)] by blast
  have rel0: "related (top_view view) (top_ok ok) N i n0 b" using b(2) unfolding accepted(3) by simp
  note O = node_okD [OF relatedD(1) [OF rel0]]
  have t: "role n0 = Follower" "t = n_term n0" using accepted(1,3) le by simp_all
  have msg': "(src, i, AApp (unat t) (unat p) (unat pt) es (unat lc)) \<in> net b"
    using msg nsteps_net [OF b(1)] by blast
  have sim: "simulated (top_view view) (top_ok ok) N i a n' out"
    by (rule storage.on_append_entries_sim [OF traced_storage rel msg le run])
  have st: "store n0 = store n" "store n' = store n1" using accepted(3,8) by simp_all
  have log: "p_log (top_view view (store n0)) = n_log n0" using O(2) by simp
  consider "store n1 = store n0 \<or> (\<exists>s. store n1 = s # store n0)"
    | s s1 q where "store n1 = s # s1 # store n0" "ok s1"
        "view s1 = (top_view view (store n0))\<lparr>p_log := take q (n_log n0)\<rparr>" "q < length (n_log n0)"
        "q < length (merge (n_log n0) (unat p) es)" "merge (n_log n0) (unat p) es ! q \<noteq> n_log n0 ! q"
    using append_loop_traced [OF accepted(6) O(1,10) log] accepted(4) by auto
  then show ?thesis
  proof cases
    case 1
    then show ?thesis using simulated_push [OF sim] st by simp
  next
    case (2 s s1 q)
    have "disk_safe view ok N i a s1"
      by (rule disk_safe_after [OF b(1) cut_disk [OF rel0 t msg' accepted(4,5) 2(4-6,2,3)]])
    then have "pushed view ok N i a (store n) (s1 # store n)" by (intro one_write) simp
    moreover have "disk_safe view ok N i a s" using simulated_disk [OF sim] 2(1) st by simp
    ultimately show ?thesis using 2(1) st by (simp add: pushed_Cons)
  qed
qed

lemma handle_pushed:
  assumes rel: "related (top_view view) (top_ok ok) N i n a" and msg: "msg_sim src i msg (net a)"
    and run: "handle (traced ops) n now src msg = Some (n', out)"
  shows "pushed view ok N i a (store n) (store n')"
proof (cases "src = i \<or> src \<ge> N")
  case True
  then have "n' = n" using run node_okD(3,4) [OF relatedD(1) [OF rel]] by (auto simp: handle_def)
  then show ?thesis by (simp add: pushed_refl)
next
  case False
  let ?rest = "\<lambda>n. (case msg of
           RequestVote t li lt \<Rightarrow> on_request_vote (traced ops) n now src t li lt
         | VoteResponse t g \<Rightarrow> on_vote_response (traced ops) n now src t g
         | AppendEntries t p pt es lc \<Rightarrow> on_append_entries (traced ops) n now src t p pt es lc
         | AppendResponse t s m \<Rightarrow> on_append_response n src t s m)"
  obtain n1 where n1: "(if msg_term msg > n_term n then step_down (traced ops) n now (msg_term msg) else Some n) = Some n1"
    and rest: "?rest n1 = Some (n', out)"
    using run False node_okD(3,4) [OF relatedD(1) [OF rel]]
    by (auto simp: handle_def bind_eq_Some_conv)
  obtain b where b: "nsteps N i a b" "related (top_view view) (top_ok ok) N i n1 b" "msg_term msg \<le> n_term n1"
    and first: "pushed view ok N i a (store n) (store n1)"
  proof (cases "msg_term msg > n_term n")
    case True
    then have sd: "step_down (traced ops) n now (msg_term msg) = Some n1" using n1 by simp
    note s = storage.step_down_sim [OF traced_storage rel sd True]
    have "pushed view ok N i a (store n) (store n1)"
      using simulated_push [OF s(1)] step_down_traced [OF sd] by blast
    then show thesis using that s unfolding simulated_def by auto
  next
    case False
    then show thesis using that [of a] n1 rel by (simp add: pushed_refl)
  qed
  have msg': "msg_sim src i msg (net b)" by (rule msg_sim_mono [OF msg nsteps_net [OF b(1)]])
  have src: "src < N" using False by simp
  have "pushed view ok N i b (store n1) (store n')"
  proof (cases msg)
    case (RequestVote t li lt)
    then have r: "on_request_vote (traced ops) n1 now src t li lt = Some (n', out)" using rest by simp
    show ?thesis
      using simulated_push [OF storage.on_request_vote_sim [OF traced_storage b(2) _ src r] on_request_vote_traced [OF r]]
        msg' RequestVote by simp
  next
    case (VoteResponse t g)
    then have r: "on_vote_response (traced ops) n1 now src t g = Some (n', out)" using rest by simp
    show ?thesis
      using simulated_push [OF storage.on_vote_response_sim [OF traced_storage b(2) _ src r] on_vote_response_traced [OF r]]
        msg' VoteResponse by simp
  next
    case (AppendEntries t p pt es lc)
    then show ?thesis using on_append_entries_pushed [OF b(2)] msg' rest b(3) by simp
  next
    case (AppendResponse t g m)
    then have "store n' = store n1"
      using rest on_append_response_store [OF _ node_okD(10) [OF relatedD(1) [OF b(2)]]] by simp
    then show ?thesis by (simp add: pushed_refl)
  qed
  then show ?thesis by (rule pushed_after [OF first b(1)])
qed

text \<open>Starting a node reads its storage.\<close>

lemma node_new_pushed:
  assumes run: "node_new (traced ops) c [s] now = Some n" and down: "down_rel view ok i s a"
  shows "pushed view ok N i a [s] (store n)"
proof -
  obtain l p rr d m where l: "load (traced ops) [s] = Some (l, p)" and n: "n = m\<lparr>rng := rr, election_deadline := d\<rparr>"
    and m: "store m = l"
    using run by (fastforce simp: node_new_def bind_eq_Some_conv Let_def simp del: traced_simps
        dest!: reset_election_timer_SomeD split: if_splits)
  obtain s' where s': "load ops s = Some (s', p)" "l = [s', s]"
    using l by (auto simp: bind_eq_Some_conv)
  have "ok s" using down unfolding down_rel_def by blast
  then have "down_rel view ok i s' a" using load_ok [OF _ s'(1)] down unfolding down_rel_def by auto
  then have "disk_safe view ok N i a s'" unfolding disk_safe_def by blast
  then show ?thesis using n m s'(2) by (intro one_write) auto
qed

end

section \<open>The disks a crash can leave\<close>

text \<open>The state of the disk after \<open>k\<close> writes of an operation, or after its last one.\<close>

definition disk_after :: "nat \<Rightarrow> 's list \<Rightarrow> 's" where
  "disk_after k l = rev l ! min k (length l - 1)"

lemma disk_after_in: "l \<noteq> [] \<Longrightarrow> disk_after k l \<in> set l"
  unfolding disk_after_def set_rev [of l, symmetric] by (intro nth_mem) (simp add: min_less_iff_disj)

lemma disk_after_pushed:
  assumes "pushed view ok N i a [s] l" and "disk_safe view ok N i a s"
  shows "disk_safe view ok N i a (disk_after k l)"
proof -
  have "l \<noteq> []" "\<forall>x \<in> set l. disk_safe view ok N i a x" using assms unfolding pushed_def by auto
  then show ?thesis using disk_after_in by blast
qed

end
