(* ===== verification/System.thy ===== *)
theory System
  imports Crash_Points
begin

text \<open>
  A cluster of nodes: any interleaving of clock ticks, message receptions, client commands,
  deliveries to the state machines, crashes and restarts, each performed by the node code of
  \<open>crates/raft/src/node.rs\<close>.  A crash happens between two operations (\<open>Crash\<close>) or between
  two storage writes of one operation (\<open>Power_Loss\<close>), whose messages are then never sent.  The network never forgets a message, so losing, delaying,
  reordering and duplicating messages are all runs of this system.

  \<open>heads\<close> and \<open>given\<close> record, for the properties only, who led which term and what was
  delivered (node, the node's term at that time, index, entry).
\<close>

section \<open>States and actions\<close>

record 's world =
  up :: "nodeid \<Rightarrow> 's node option"
  disk :: "nodeid \<Rightarrow> 's"
  wire :: "(nodeid \<times> nodeid \<times> message) set"
  heads :: "(u64 \<times> nodeid) set"
  given :: "(nodeid \<times> u64 \<times> u64 \<times> entry) set"

datatype action =
    Tick nodeid u64
  | Receive nodeid nodeid message u64
  | Propose nodeid u64 bytes
  | Deliver nodeid
  | Crash nodeid
  | Boot config u64
  | Power_Loss action nat  \<comment> \<open>during an action, after so many of its writes\<close>

definition init_world :: "'s \<Rightarrow> 's world" where
  "init_world s = \<lparr>up = (\<lambda>_. None), disk = (\<lambda>_. s), wire = {}, heads = {}, given = {}\<rparr>"

definition put_node :: "nodeid \<Rightarrow> 's node \<Rightarrow> outgoing list \<Rightarrow> 's world \<Rightarrow> 's world" where
  "put_node i n out w = w\<lparr>up := (up w)(i := Some n),
     wire := wire w \<union> (\<lambda>o1. (i, to o1, message o1)) ` set out,
     heads := (if role n = Leader then insert (n_term n, i) (heads w) else heads w)\<rparr>"

text \<open>
  The node an action runs, and the states its disk goes through (newest first): the action
  on the traced storage.
\<close>

fun actor :: "action \<Rightarrow> nodeid" where
  "actor (Tick i now) = i"
| "actor (Receive src i m now) = i"
| "actor (Propose i now cmd) = i"
| "actor (Deliver i) = i"
| "actor (Crash i) = i"
| "actor (Boot c now) = cfg_id c"
| "actor (Power_Loss act k) = actor act"

fun disk_trace :: "'s storage_ops \<Rightarrow> nat \<Rightarrow> action \<Rightarrow> 's world \<Rightarrow> 's list option" where
  "disk_trace st N (Tick i now) w = do {
     n \<leftarrow> up w i;
     (n', out) \<leftarrow> tick (traced st) (traced_node n) now;
     Some (store n') }"
| "disk_trace st N (Receive src i m now) w = do {
     n \<leftarrow> up w i;
     (n', out) \<leftarrow> (if (src, i, m) \<in> wire w then handle (traced st) (traced_node n) now src m else None);
     Some (store n') }"
| "disk_trace st N (Propose i now cmd) w = do {
     n \<leftarrow> up w i;
     (n', r) \<leftarrow> propose (traced st) (traced_node n) now cmd;
     Some (store n') }"
| "disk_trace st N (Boot c now) w =
     (if up w (cfg_id c) = None \<and> cluster_size c = N then do {
        n \<leftarrow> node_new (traced st) c [disk w (cfg_id c)] now;
        Some (store n) }
      else None)"
| "disk_trace st N act w = None"

text \<open>An action that is not enabled, or that panics, has no successor.\<close>

fun sys_step :: "'s storage_ops \<Rightarrow> nat \<Rightarrow> action \<Rightarrow> 's world \<Rightarrow> 's world option" where
  "sys_step st N (Tick i now) w = do {
     n \<leftarrow> up w i;
     (n', out) \<leftarrow> tick st n now;
     Some (put_node i n' out w) }"
| "sys_step st N (Receive src i m now) w = do {
     n \<leftarrow> up w i;
     (n', out) \<leftarrow> (if (src, i, m) \<in> wire w then handle st n now src m else None);
     Some (put_node i n' out w) }"
| "sys_step st N (Propose i now cmd) w = do {
     n \<leftarrow> up w i;
     (n', r) \<leftarrow> propose st n now cmd;
     Some (put_node i n' (proposed_out r) w) }"
| "sys_step st N (Deliver i) w = do {
     n \<leftarrow> up w i;
     (n', es) \<leftarrow> take_committed n;
     Some (w\<lparr>up := (up w)(i := Some n'), given := given w \<union> (\<lambda>(k, e). (i, n_term n, k, e)) ` set es\<rparr>) }"
| "sys_step st N (Crash i) w = do {
     n \<leftarrow> up w i;
     Some (w\<lparr>up := (up w)(i := None), disk := (disk w)(i := store n)\<rparr>) }"
| "sys_step st N (Boot c now) w =
     (if up w (cfg_id c) = None \<and> cluster_size c = N then do {
        n \<leftarrow> node_new st c (disk w (cfg_id c)) now;
        Some (w\<lparr>up := (up w)(cfg_id c := Some n)\<rparr>) }
      else None)"
| "sys_step st N (Power_Loss act k) w = do {
     l \<leftarrow> disk_trace st N act w;
     Some (w\<lparr>up := (up w)(actor act := None), disk := (disk w)(actor act := disk_after k l)\<rparr>) }"

inductive sreach :: "'s storage_ops \<Rightarrow> nat \<Rightarrow> 's \<Rightarrow> 's world \<Rightarrow> bool" for st N s where
  sr_init: "sreach st N s (init_world s)"
| sr_step: "sreach st N s w \<Longrightarrow> sys_step st N act w = Some w' \<Longrightarrow> sreach st N s w'"

text \<open>Runs of a list of actions, for concrete executions.\<close>

fun run :: "'s storage_ops \<Rightarrow> nat \<Rightarrow> action list \<Rightarrow> 's world \<Rightarrow> 's world option" where
  "run st N [] w = Some w"
| "run st N (act # acts) w = do { w' \<leftarrow> sys_step st N act w; run st N acts w' }"

lemma run_sreach: "sreach st N s w \<Longrightarrow> run st N acts w = Some w' \<Longrightarrow> sreach st N s w'"
  by (induction acts arbitrary: w) (auto simp: bind_eq_Some_conv intro: sr_step)

section \<open>Simulation of the whole system\<close>

definition site_rel :: "('s \<Rightarrow> persistent) \<Rightarrow> ('s \<Rightarrow> bool) \<Rightarrow> nat \<Rightarrow> 's world \<Rightarrow> raft \<Rightarrow> nodeid \<Rightarrow> bool" where
  "site_rel view ok N w a i \<longleftrightarrow>
     (\<forall>n. up w i = Some n \<longrightarrow> related view ok N i n a)
   \<and> (up w i = None \<longrightarrow> i < N \<longrightarrow> down_rel view ok i (disk w i) a)"

text \<open>An entry is chosen at an index by the time of a term.\<close>

definition chosen :: "nat \<Rightarrow> raft \<Rightarrow> nat \<Rightarrow> nat \<Rightarrow> entry \<Rightarrow> bool" where
  "chosen N a u k e \<longleftrightarrow> (\<exists>t m. t \<le> u \<and> committed N a t m \<and> 0 < k \<and> k \<le> m \<and> llog a t ! (k - 1) = e)"

definition world_rel :: "('s \<Rightarrow> persistent) \<Rightarrow> ('s \<Rightarrow> bool) \<Rightarrow> nat \<Rightarrow> 's world \<Rightarrow> raft \<Rightarrow> bool" where
  "world_rel view ok N w a \<longleftrightarrow> rinv N a \<and> (\<forall>i. site_rel view ok N w a i)
     \<and> (\<forall>(i, j, m) \<in> wire w. msg_sim i j m (net a))
     \<and> (\<forall>(t, i) \<in> heads w. ldr a (unat t) = Some i)
     \<and> (\<forall>(i, t, k, e) \<in> given w. chosen N a (unat t) (unat k) e \<and> holds N a i (unat k))"

lemma world_relD:
  assumes "world_rel view ok N w a"
  shows "rinv N a" and "site_rel view ok N w a i" and "(i, j, m) \<in> wire w \<Longrightarrow> msg_sim i j m (net a)"
    and "(t, i) \<in> heads w \<Longrightarrow> ldr a (unat t) = Some i"
    and "(i, t, k, e) \<in> given w \<Longrightarrow> chosen N a (unat t) (unat k) e \<and> holds N a i (unat k)"
  using assms unfolding world_rel_def by blast+

lemma grows_refl: "grows a a"
  by (simp add: grows_def)

lemma grows_chosen:
  assumes g: "grows a b" and "chosen N a u k e"
  shows "chosen N b u k e"
proof -
  obtain t m where c: "t \<le> u" "committed N a t m" "0 < k" "k \<le> m" "llog a t ! (k - 1) = e"
    using assms(2) unfolding chosen_def by blast
  have l: "ldr a t \<noteq> None" "m \<le> length (llog a t)" using c(2) unfolding committed_def by blast+
  have "llog b t ! (k - 1) = e"
    using take_eq_nthD [OF grows_take(1) [OF g l], of "k - 1"] c(3-5) by simp
  then show ?thesis using c grows_committed [OF g c(2)] unfolding chosen_def by blast
qed

text \<open>Only the vote of the current term is ever written.\<close>

definition promises_kept :: "raft \<Rightarrow> raft \<Rightarrow> bool" where
  "promises_kept a b \<longleftrightarrow> (\<forall>i. tmx a i \<le> tmx b i \<and> (\<forall>t c. cast a i t = Some c \<longrightarrow> cast b i t = Some c))"

lemma promises_kept_step:
  assumes step: "rstep N a b" and inv: "inv_cast N a"
  shows "promises_kept a b"
proof -
  have own: "cast a i (tmx a i) = vot a i" for i using inv unfolding inv_cast_def by blast
  note fresh = inv_cast_fresh [OF inv]
  from step show ?thesis
    unfolding promises_kept_def
  proof (cases rule: rstep.cases)
    case (r_timeout i)
    then show "\<forall>i. tmx a i \<le> tmx b i \<and> (\<forall>t c. cast a i t = Some c \<longrightarrow> cast b i t = Some c)"
      using fresh [of i "Suc (tmx a i)"] by (simp add: step_defs)
  next
    case (r_grant i c li lt)
    then show "\<forall>i. tmx a i \<le> tmx b i \<and> (\<forall>t c. cast a i t = Some c \<longrightarrow> cast b i t = Some c)"
      using own [of i] by (simp add: step_defs)
  qed (simp_all add: step_defs)
qed

lemma grows_trans:
  assumes g: "grows a b" and h: "grows b c"
  shows "grows a c"
  unfolding grows_def
proof (intro conjI allI impI)
  fix t assume t: "ldr a t \<noteq> None"
  have bt: "ldr b t \<noteq> None" using grows_ldr [OF g t] t by simp
  show "ldr c t = ldr a t" using grows_ldr [OF g t] grows_ldr [OF h bt] by simp
  show "elog c t = elog a t" using grows_elog [OF g t] grows_elog [OF h bt] by simp
  note k = grows_take [OF g t order_refl]
  show "take (length (llog a t)) (llog c t) = llog a t"
    using grows_take(1) [OF h bt k(2)] k(1) by simp
next
  show "acks a \<subseteq> acks c" using g h unfolding grows_def by blast
qed

lemma promises_kept_trans: "promises_kept a b \<Longrightarrow> promises_kept b c \<Longrightarrow> promises_kept a c"
  unfolding promises_kept_def by (meson order_trans)

lemma nsteps_grows: "nsteps N i a b \<Longrightarrow> rinv N a \<Longrightarrow> grows a b \<and> promises_kept a b"
  unfolding nsteps_def
proof (induction rule: rtranclp_induct)
  case base
  show ?case by (simp add: grows_refl promises_kept_def)
next
  case (step b c)
  have rb: "rinv N b" using step by (auto simp: nsteps_def intro: nsteps_rinv [unfolded nsteps_def])
  then have "inv_cast N b" "inv_ldr N b" unfolding rinv_def by blast+
  then have "grows b c" "promises_kept b c"
    using grows_step promises_kept_step step.hyps(2) unfolding nstep_def by blast+
  then show ?case using step.IH [OF step.prems] grows_trans promises_kept_trans by blast
qed

lemma nsteps_holds: "nsteps N i a b \<Longrightarrow> rinv N a \<Longrightarrow> holds N a j c \<Longrightarrow> holds N b j c"
  unfolding nsteps_def
proof (induction rule: rtranclp_induct)
  case (step b c)
  have "rinv N b" using step by (auto simp: nsteps_def intro: nsteps_rinv [unfolded nsteps_def])
  then show ?case using step holds_step unfolding nstep_def by blast
qed

section \<open>One step of the system\<close>

lemma related_local: "local_to i a b \<Longrightarrow> j \<noteq> i \<Longrightarrow> related view ok N j n a \<Longrightarrow> related view ok N j n b"
  unfolding local_to_def related_def node_sim_def by simp

lemma down_local: "local_to i a b \<Longrightarrow> j \<noteq> i \<Longrightarrow> down_rel view ok j s a \<Longrightarrow> down_rel view ok j s b"
  unfolding local_to_def down_rel_def by simp

lemma site_local: "local_to i a b \<Longrightarrow> j \<noteq> i \<Longrightarrow> site_rel view ok N w a j \<Longrightarrow> site_rel view ok N w b j"
  by (simp add: site_rel_def related_local [of i a b j] down_local [of i a b j])

text \<open>Steps of one node carry the relation over, as far as the other nodes and the past go.\<close>

lemma world_rel_advance:
  assumes rel: "world_rel view ok N w a" and b: "nsteps N i a b"
  shows "rinv N b" and "j \<noteq> i \<Longrightarrow> site_rel view ok N w b j"
    and "(k, j, m) \<in> wire w \<Longrightarrow> msg_sim k j m (net b)"
    and "(t, l) \<in> heads w \<Longrightarrow> ldr b (unat t) = Some l"
    and "(l, t, x, e) \<in> given w \<Longrightarrow> chosen N b (unat t) (unat x) e \<and> holds N b l (unat x)"
    and "promises_kept a b"
proof -
  note R = world_relD [OF rel]
  have g: "grows a b" "promises_kept a b" using nsteps_grows [OF b R(1)] by simp_all
  show "rinv N b" by (rule nsteps_rinv [OF b R(1)])
  show "j \<noteq> i \<Longrightarrow> site_rel view ok N w b j" using site_local [OF nsteps_local [OF b]] R(2) by blast
  show "(k, j, m) \<in> wire w \<Longrightarrow> msg_sim k j m (net b)" using R(3) msg_sim_mono nsteps_net [OF b] by blast
  show "(t, l) \<in> heads w \<Longrightarrow> ldr b (unat t) = Some l" using R(4) grows_ldr [OF g(1)] by fastforce
  show "(l, t, x, e) \<in> given w \<Longrightarrow> chosen N b (unat t) (unat x) e \<and> holds N b l (unat x)"
    using R(5) grows_chosen [OF g(1)] nsteps_holds [OF b R(1)] by blast
  show "promises_kept a b" by (rule g(2))
qed

lemma related_leader:
  assumes "rinv N a" and "related view ok N i n a" and "role n = Leader"
  shows "ldr a (unat (n_term n)) = Some i" and "llog a (unat (n_term n)) = n_log n"
  using assms node_simD [OF relatedD(2) [OF assms(2)]] unfolding rinv_def inv_ldr_def by auto

lemma put_node_rel:
  assumes rel: "world_rel view ok N w a" and sim: "simulated view ok N i a n out"
  shows "\<exists>b. world_rel view ok N (put_node i n out w) b \<and> promises_kept a b"
proof -
  obtain b where b: "nsteps N i a b" "related view ok N i n b" "outs_sim i out b"
    using sim unfolding simulated_def by blast
  note A = world_rel_advance [OF rel b(1)]
  have "site_rel view ok N (put_node i n out w) b j" for j
    using A(2) [of j] b(2) by (cases "j = i") (simp_all add: site_rel_def put_node_def)
  then have "world_rel view ok N (put_node i n out w) b"
    using A(1,3,4,5) b(3) related_leader(1) [OF A(1) b(2)]
    unfolding world_rel_def by (auto simp: put_node_def outs_sim_def)
  then show ?thesis using A(6) by blast
qed

lemma site_up: "site_rel view ok N w a i \<Longrightarrow> up w i = Some n \<Longrightarrow> related view ok N i n a"
  by (simp add: site_rel_def)

text \<open>What a node delivers has been chosen.\<close>

lemma related_chosen:
  assumes inv: "rinv N a" and rel: "related view ok N i n a"
    and k: "0 < k" "k \<le> unat (commit_index n)"
  shows "chosen N a (unat (n_term n)) k (n_log n ! (k - 1)) \<and> holds N a i k"
proof -
  note S = node_simD [OF relatedD(2) [OF rel]]
  have "inv_commit N a" using inv unfolding rinv_def by blast
  then show ?thesis
  proof (cases rule: commit_cases [where i = i])
    case none
    then show ?thesis using k S(5) by simp
  next
    case (some t m)
    have "n_log n ! (k - 1) = llog a t ! (k - 1)"
      using take_eq_nthD [OF some(5), of "k - 1"] k S(3,5) by simp
    moreover have "holds N a i k"
      unfolding holds_def using some k S(5) take_eq_mono [OF some(5), of k]
      by (intro exI [of _ t] exI [of _ m]) simp
    ultimately show ?thesis using some k S(1,5) unfolding chosen_def by (metis order_trans)
  qed
qed

lemma take_committed_SomeD:
  assumes "take_committed n = Some (n', es)"
  shows "n' = n\<lparr>applied_index := commit_index n\<rparr>"
    and "(k, e) \<in> set es \<Longrightarrow> unat (applied_index n) < unat k \<and> unat k \<le> unat (commit_index n)
      \<and> unat k \<le> length (n_log n) \<and> e = n_log n ! (unat k - 1)"
proof -
  obtain lo where lo: "add64 (applied_index n) 1 = Some lo"
    and es: "map_opt (\<lambda>i. do { e \<leftarrow> vec_get (n_log n) (i - 1); Some (of_nat i :: u64, e) })
      [unat lo..<Suc (unat (commit_index n))] = Some es"
    and n': "n' = n\<lparr>applied_index := commit_index n\<rparr>"
    using assms by (auto simp: take_committed_def bind_eq_Some_conv)
  show "n' = n\<lparr>applied_index := commit_index n\<rparr>" by (rule n')
  assume "(k, e) \<in> set es"
  from map_opt_in_setD [OF es this] obtain j where j: "unat lo \<le> j" "j \<le> unat (commit_index n)"
    "k = of_nat j" "vec_get (n_log n) (j - 1) = Some e"
    by (auto simp: bind_eq_Some_conv)
  have "unat k = j" using j(2,3) unat_lt_2_64 [of "commit_index n"]
    by (simp add: unat_of_nat take_bit_nat_eq_self)
  then show "unat (applied_index n) < unat k \<and> unat k \<le> unat (commit_index n)
      \<and> unat k \<le> length (n_log n) \<and> e = n_log n ! (unat k - 1)"
    using j add64_Some_unat [OF lo] vec_get_SomeD [OF j(4)] by auto
qed

text \<open>A node stops, with a disk that matches the protocol.\<close>

lemma stop_rel:
  assumes rel: "world_rel view ok N w a" and d: "disk_safe view ok N i a s"
  shows "\<exists>b. world_rel view ok N (w\<lparr>up := (up w)(i := None), disk := (disk w)(i := s)\<rparr>) b \<and> promises_kept a b"
proof -
  obtain b where b: "nsteps N i a b" "down_rel view ok i s b" using d unfolding disk_safe_def by blast
  let ?w = "w\<lparr>up := (up w)(i := None), disk := (disk w)(i := s)\<rparr>"
  note A = world_rel_advance [OF rel b(1)]
  have "site_rel view ok N ?w b j" for j
    using A(2) [of j] b(2) by (cases "j = i") (simp_all add: site_rel_def)
  then have "world_rel view ok N ?w b"
    using A(1,3,4,5) unfolding world_rel_def by auto
  then show ?thesis using A(6) by blast
qed

context storage
begin

lemma disk_trace_safe:
  assumes rel: "world_rel view ok N w a" and tr: "disk_trace ops N act w = Some l"
  shows "disk_safe view ok N (actor act) a (disk_after k l)"
proof -
  note R = world_relD [OF rel]
  have now: "related (top_view view) (top_ok ok) N i (traced_node n) a" if "up w i = Some n" for i n
    by (rule traced_related [OF site_up [OF R(2) that]])
  have safe: "disk_safe view ok N i a (disk_after k l)"
    if "up w i = Some n" "pushed view ok N i a (store (traced_node n)) l" for i n
    using disk_after_pushed that(2) related_disk [OF now [OF that(1)]] by (simp add: traced_node_def)
  show ?thesis
  proof (cases act)
    case (Tick i t)
    then obtain n n' out where n: "up w i = Some n" "tick (traced ops) (traced_node n) t = Some (n', out)" "l = store n'"
      using tr by (auto simp: bind_eq_Some_conv)
    show ?thesis using safe [OF n(1)] tick_pushed [OF now [OF n(1)] n(2)] n(3) Tick by simp
  next
    case (Receive src i m t)
    then obtain n n' out where n: "up w i = Some n" "(src, i, m) \<in> wire w"
      "handle (traced ops) (traced_node n) t src m = Some (n', out)" "l = store n'"
      using tr by (auto simp: bind_eq_Some_conv split: if_splits)
    show ?thesis using safe [OF n(1)] handle_pushed [OF now [OF n(1)] R(3) [OF n(2)] n(3)] n(4) Receive by simp
  next
    case (Propose i t cmd)
    then obtain n n' r where n: "up w i = Some n" "propose (traced ops) (traced_node n) t cmd = Some (n', r)" "l = store n'"
      using tr by (auto simp: bind_eq_Some_conv)
    show ?thesis using safe [OF n(1)] propose_pushed [OF now [OF n(1)] n(2)] n(3) Propose by simp
  next
    case (Boot c t)
    then obtain n where c: "up w (cfg_id c) = None" "cluster_size c = N"
      and n: "node_new (traced ops) c [disk w (cfg_id c)] t = Some n" "l = store n"
      using tr by (auto simp: bind_eq_Some_conv split: if_splits)
    have "cfg_id c < N" using n(1) c(2) by (auto simp: node_new_def split: if_splits)
    then have d: "down_rel view ok (cfg_id c) (disk w (cfg_id c)) a"
      using R(2) [of "cfg_id c"] c(1) by (simp add: site_rel_def)
    then have "disk_safe view ok N (cfg_id c) a (disk w (cfg_id c))" unfolding disk_safe_def by blast
    then show ?thesis using disk_after_pushed [OF node_new_pushed [OF n(1) d]] n(2) Boot by simp
  qed (use tr in simp_all)
qed

lemma sys_step_sim:
  assumes rel: "world_rel view ok N w a" and step: "sys_step ops N act w = Some w'" and N: "N < 2 ^ 64"
  shows "\<exists>b. world_rel view ok N w' b \<and> promises_kept a b"
proof -
  note R = world_relD [OF rel]
  show ?thesis
  proof (cases act)
    case (Tick i now)
    then obtain n n' out where "up w i = Some n" "tick ops n now = Some (n', out)" "w' = put_node i n' out w"
      using step by (auto simp: bind_eq_Some_conv)
    then show ?thesis using put_node_rel [OF rel tick_sim] site_up [OF R(2)] by blast
  next
    case (Receive src i m now)
    then obtain n n' out where "up w i = Some n" "(src, i, m) \<in> wire w"
      "handle ops n now src m = Some (n', out)" "w' = put_node i n' out w"
      using step by (auto simp: bind_eq_Some_conv split: if_splits)
    then show ?thesis using put_node_rel [OF rel handle_sim] site_up [OF R(2)] R(3) by blast
  next
    case (Propose i now cmd)
    then obtain n n' r where "up w i = Some n" "propose ops n now cmd = Some (n', r)"
      "w' = put_node i n' (proposed_out r) w"
      using step by (auto simp: bind_eq_Some_conv)
    then show ?thesis using put_node_rel [OF rel propose_sim] site_up [OF R(2)] by blast
  next
    case (Deliver i)
    then obtain n n' es where n: "up w i = Some n" "take_committed n = Some (n', es)"
      and w': "w' = w\<lparr>up := (up w)(i := Some n'), given := given w \<union> (\<lambda>(k, e). (i, n_term n, k, e)) ` set es\<rparr>"
      using step by (auto simp: bind_eq_Some_conv)
    have rn: "related view ok N i n a" by (rule site_up [OF R(2) n(1)])
    have "chosen N a (unat (n_term n)) (unat k) e \<and> holds N a i (unat k)" if "(k, e) \<in> set es" for k e
      using take_committed_SomeD(2) [OF n(2) that] related_chosen [OF R(1) rn, of "unat k"] by auto
    moreover have "site_rel view ok N w' a j" for j
      using R(2) [of j] take_committed_sim [OF rn n(2)]
      unfolding w' by (cases "j = i") (simp_all add: site_rel_def)
    ultimately have "world_rel view ok N w' a"
      using rel unfolding world_rel_def w' by auto
    then show ?thesis unfolding promises_kept_def by blast
  next
    case (Crash i)
    then obtain n where n: "up w i = Some n"
      and w': "w' = w\<lparr>up := (up w)(i := None), disk := (disk w)(i := store n)\<rparr>"
      using step by (auto simp: bind_eq_Some_conv)
    have "disk_safe view ok N i a (store n)"
      using related_disk [OF traced_related [OF site_up [OF R(2) n]]] by (simp add: traced_node_def)
    then show ?thesis unfolding w' by (rule stop_rel [OF rel])
  next
    case (Boot c now)
    then obtain n where c: "up w (cfg_id c) = None" "cluster_size c = N"
      and n: "node_new ops c (disk w (cfg_id c)) now = Some n"
      and w': "w' = w\<lparr>up := (up w)(cfg_id c := Some n)\<rparr>"
      using step by (auto simp: bind_eq_Some_conv split: if_splits)
    have "cfg_id c < N" using n c(2) by (auto simp: node_new_def split: if_splits)
    then have "down_rel view ok (cfg_id c) (disk w (cfg_id c)) a"
      using R(2) [of "cfg_id c"] c(1) by (simp add: site_rel_def)
    then have "related view ok N (cfg_id c) n a"
      using node_new_sim(1) [OF n _ refl c(2) N] unfolding down_rel_def by blast
    then have "site_rel view ok N w' a j" for j
      using R(2) [of j] unfolding w'
      by (cases "j = cfg_id c") (simp_all add: site_rel_def)
    then have "world_rel view ok N w' a"
      using rel unfolding world_rel_def w' by auto
    then show ?thesis unfolding promises_kept_def by blast
  next
    case (Power_Loss act' k)
    then obtain l where l: "disk_trace ops N act' w = Some l"
      and w': "w' = w\<lparr>up := (up w)(actor act' := None), disk := (disk w)(actor act' := disk_after k l)\<rparr>"
      using step by (auto simp: bind_eq_Some_conv)
    show ?thesis unfolding w' by (rule stop_rel [OF rel disk_trace_safe [OF rel l]])
  qed
qed

lemma sreach_sim:
  assumes "sreach ops N s w" and "N < 2 ^ 64" and "ok s" and "view s = empty_persistent"
  shows "\<exists>a. world_rel view ok N w a"
  using assms(1)
proof induction
  case sr_init
  have "world_rel view ok N (init_world s) init_raft"
    using assms(3,4) rinv_init
    by (simp add: world_rel_def init_world_def site_rel_def down_rel_def init_raft_def empty_persistent_def)
  then show ?case by blast
next
  case (sr_step w act w')
  then show ?case using sys_step_sim [OF _ _ assms(2)] by blast
qed

end

end
