(* ===== verification/Scenario.thy ===== *)
theory Scenario
  imports System
begin

text \<open>
  A concrete run of three nodes on \<open>MemStorage\<close>, evaluated by the kernel: node 0 is elected,
  replicates its first entry to node 1, and both deliver it; node 2 never starts.  The
  properties of whole clusters are applied to the state it ends in.
\<close>

definition noop :: entry where
  "noop = \<lparr>e_term = 1, command = []\<rparr>"

definition demo_acts :: "action list" where
  "demo_acts =
    [Boot (config_new 0 3 7) 0, Boot (config_new 1 3 7) 0,
     Tick 0 1000,
     Receive 0 1 (RequestVote 1 0 0) 1000,
     Receive 1 0 (VoteResponse 1 True) 1001,
     Receive 0 1 (AppendEntries 1 0 0 [noop] 0) 1002,
     Receive 1 0 (AppendResponse 1 True 1) 1003,
     Deliver 0,
     Tick 0 1100,
     Receive 0 1 (AppendEntries 1 1 1 [] 1) 1101,
     Deliver 1]"

definition demo_world :: "mem_storage world" where
  "demo_world = the (run mem_ops 3 demo_acts (init_world empty_persistent))"

definition node_shape :: "mem_storage node \<Rightarrow> role \<times> u64 \<times> entry list \<times> u64" where
  "node_shape n = (role n, n_term n, n_log n, commit_index n)"

lemma demo_run:
  "map_option (\<lambda>w. (0, 1, 1, noop) \<in> given w \<and> (1, 1, 1, noop) \<in> given w \<and> (1, 0) \<in> heads w
      \<and> (0, 1, AppendEntries 1 1 1 [] 1) \<in> wire w
      \<and> map_option node_shape (up w 0) = Some (Leader, 1, [noop], 1)
      \<and> map_option node_shape (up w 1) = Some (Follower, 1, [noop], 1))
    (run mem_ops 3 demo_acts (init_world empty_persistent)) = Some True"
  by code_simp

lemma demo_world:
  "run mem_ops 3 demo_acts (init_world empty_persistent) = Some demo_world"
  "(0, 1, 1, noop) \<in> given demo_world" "(1, 1, 1, noop) \<in> given demo_world"
  "(1, 0) \<in> heads demo_world" "(0, 1, AppendEntries 1 1 1 [] 1) \<in> wire demo_world"
  "map_option node_shape (up demo_world 0) = Some (Leader, 1, [noop], 1)"
  "map_option node_shape (up demo_world 1) = Some (Follower, 1, [noop], 1)"
  using demo_run unfolding demo_world_def by (auto simp: map_option_case split: option.splits)

lemma demo_nodes:
  obtains n m where "up demo_world 0 = Some n" "role n = Leader" "n_term n = 1" "n_log n = [noop]" "commit_index n = 1"
    and "up demo_world 1 = Some m" "role m = Follower" "n_term m = 1" "n_log m = [noop]" "commit_index m = 1"
  using demo_world(6,7) by (auto simp: node_shape_def)

section \<open>Power lost between two writes\<close>

text \<open>
  Node 0 leads term 1 with an entry nobody else has, node 1 is elected by node 2 in term 2,
  and node 0 loses power while it handles the entries of node 1: it has stored the new term and
  cut its log at the conflict, and has not appended yet.
\<close>

definition torn_acts :: "action list" where
  "torn_acts =
    [Boot (config_new 0 3 7) 0, Boot (config_new 1 3 7) 0, Boot (config_new 2 3 7) 0,
     Tick 0 1000,
     Receive 0 1 (RequestVote 1 0 0) 1000,
     Receive 1 0 (VoteResponse 1 True) 1001,
     Tick 1 5000,
     Receive 1 2 (RequestVote 2 0 0) 5001,
     Receive 2 1 (VoteResponse 2 True) 5002]"

definition power_loss :: action where
  "power_loss = Power_Loss (Receive 1 0 (AppendEntries 2 0 0 [\<lparr>e_term = 2, command = []\<rparr>] 0) 5003) 2"

definition torn_world :: "mem_storage world" where
  "torn_world = the (run mem_ops 3 torn_acts (init_world empty_persistent))"

lemma torn_run:
  "map_option (\<lambda>w. (map_option (\<lambda>n. (role n, store n)) (up w 0),
       map_option (\<lambda>w'. (map_option role (up w' 0), disk w' 0)) (sys_step mem_ops 3 power_loss w)))
     (run mem_ops 3 torn_acts (init_world empty_persistent))
   = Some (Some (Leader, \<lparr>p_term = 1, p_voted_for = Some 0, p_log = [noop]\<rparr>),
       Some (None, \<lparr>p_term = 2, p_voted_for = None, p_log = []\<rparr>))"
  by code_simp

lemma torn_world:
  obtains n w' where "run mem_ops 3 torn_acts (init_world empty_persistent) = Some torn_world"
    and "up torn_world 0 = Some n" and "store n = \<lparr>p_term = 1, p_voted_for = Some 0, p_log = [noop]\<rparr>"
    and "sys_step mem_ops 3 power_loss torn_world = Some w'" and "up w' 0 = None"
    and "disk w' 0 = \<lparr>p_term = 2, p_voted_for = None, p_log = []\<rparr>"
  using torn_run unfolding torn_world_def by (auto simp: map_option_case split: option.splits)

end
