(* ===== verification/Safety.thy ===== *)
theory Safety
  imports Scenario
begin

text \<open>
  The safety properties of Raft on the running nodes: no two leaders of a term, logs that
  match, leaders that hold what was delivered, state machines that are given the same entries,
  and promises that survive crashes.  Each is proved for any storage that keeps the contract
  of the trait, then stated for a cluster on \<open>MemStorage\<close>.
\<close>

section \<open>What a node has made durable\<close>

definition durable :: "('s \<Rightarrow> persistent) \<Rightarrow> 's world \<Rightarrow> nodeid \<Rightarrow> persistent" where
  "durable view w i = (case up w i of Some n \<Rightarrow> view (store n) | None \<Rightarrow> view (disk w i))"

lemma durable_rel:
  assumes "site_rel view ok N w a i" and "i < N"
  shows "tmx a i = unat (p_term (durable view w i))" and "vot a i = p_voted_for (durable view w i)"
    and "lg a i = p_log (durable view w i)"
proof -
  have "tmx a i = unat (p_term (durable view w i)) \<and> vot a i = p_voted_for (durable view w i)
    \<and> lg a i = p_log (durable view w i)"
  proof (cases "up w i")
    case None
    then show ?thesis using assms by (simp add: site_rel_def durable_def down_rel_def)
  next
    case (Some n)
    then have rn: "related view ok N i n a" using assms(1) by (simp add: site_rel_def)
    show ?thesis
      using Some node_okD(2) [OF relatedD(1) [OF rn]] node_simD(1-3) [OF relatedD(2) [OF rn]]
      by (simp add: durable_def)
  qed
  then show "tmx a i = unat (p_term (durable view w i))" and "vot a i = p_voted_for (durable view w i)"
    and "lg a i = p_log (durable view w i)" by blast+
qed

section \<open>Consequences of the simulation\<close>

lemma heads_unique:
  assumes "world_rel view ok N w a" and "(t, i) \<in> heads w" and "(t, j) \<in> heads w"
  shows "i = j"
  using world_relD(4) [OF assms(1,2)] world_relD(4) [OF assms(1,3)] by simp

lemma chosen_unique:
  assumes "rinv N a" and "chosen N a u k e" and "chosen N a u' k e'"
  shows "e = e'"
proof -
  have inv: "inv_ldr N a" "inv_log N a" "inv_ack N a" using assms(1) unfolding rinv_def by blast+
  obtain t m where c: "committed N a t m" "k \<le> m" "0 < k" "llog a t ! (k - 1) = e"
    using assms(2) unfolding chosen_def by blast
  obtain t' m' where c': "committed N a t' m'" "k \<le> m'" "llog a t' ! (k - 1) = e'"
    using assms(3) unfolding chosen_def by blast
  show ?thesis
    using take_eq_nthD [OF committed_agree [OF inv c(1) c'(1) c(2) c'(2)], of "k - 1"] c c' by simp
qed

lemma chosen_leader:
  assumes inv: "rinv N a" and rel: "related view ok N l n a" and "role n = Leader"
    and ch: "chosen N a u k e" and u: "u \<le> unat (n_term n)"
  shows "k \<le> length (n_log n) \<and> n_log n ! (k - 1) = e"
proof -
  note S = node_simD [OF relatedD(2) [OF rel]]
  obtain t m where c: "t \<le> u" "committed N a t m" "0 < k" "k \<le> m" "llog a t ! (k - 1) = e"
    using ch unfolding chosen_def by blast
  have eq: "take m (n_log n) = take m (llog a t)"
    using leader_has_committed [OF inv _ c(2), of l] S(1,3,4) assms(3) c(1) u by simp
  then have "m \<le> length (n_log n)"
    using take_eq_lengthD [OF eq] c(2) unfolding committed_def by simp
  then show ?thesis using take_eq_nthD [OF eq, of "k - 1"] c(3-5) by simp
qed

text \<open>What a node was given stays in its durable log.\<close>

lemma given_durable:
  assumes rel: "world_rel view ok N w a" and g: "(i, t, k, e) \<in> given w" and i: "i < N"
  shows "0 < unat k \<and> unat k \<le> length (p_log (durable view w i)) \<and> p_log (durable view w i) ! (unat k - 1) = e"
proof -
  note R = world_relD [OF rel]
  have ch: "chosen N a (unat t) (unat k) e" and h: "holds N a i (unat k)" using R(5) [OF g] by blast+
  obtain t' m where c: "committed N a t' m" "unat k \<le> m" "take (unat k) (lg a i) = take (unat k) (llog a t')"
    using h unfolding holds_def by blast
  have k: "0 < unat k" using ch unfolding chosen_def by blast
  have len: "unat k \<le> length (llog a t')" using c(1,2) unfolding committed_def by simp
  have "chosen N a t' (unat k) (llog a t' ! (unat k - 1))" using c k unfolding chosen_def by blast
  then have "llog a t' ! (unat k - 1) = e" using chosen_unique [OF R(1)] ch by blast
  moreover have "lg a i ! (unat k - 1) = llog a t' ! (unat k - 1)"
    using take_eq_nthD [OF c(3), of "unat k - 1"] k by simp
  ultimately show ?thesis
    using k take_eq_lengthD [OF c(3) len] durable_rel(3) [OF R(2) i] by simp
qed

lemma promises_durable:
  assumes rel: "world_rel view ok N w a" and rel': "world_rel view ok N w' b" and pk: "promises_kept a b" and i: "i < N"
  shows "p_term (durable view w i) \<le> p_term (durable view w' i)"
    and "p_term (durable view w' i) = p_term (durable view w i) \<Longrightarrow>
      p_voted_for (durable view w i) = Some c \<Longrightarrow> p_voted_for (durable view w' i) = Some c"
proof -
  note D = durable_rel [OF world_relD(2) [OF rel] i] and D' = durable_rel [OF world_relD(2) [OF rel'] i]
  have "inv_cast N a" "inv_cast N b"
    using world_relD(1) [OF rel] world_relD(1) [OF rel'] unfolding rinv_def by blast+
  then have cast: "cast a i (tmx a i) = vot a i" "cast b i (tmx b i) = vot b i"
    by (simp_all add: inv_castD(1))
  show "p_term (durable view w i) \<le> p_term (durable view w' i)"
    using pk D(1) D'(1) unfolding promises_kept_def word_le_nat_alt by metis
  show "p_voted_for (durable view w' i) = Some c"
    if "p_term (durable view w' i) = p_term (durable view w i)" "p_voted_for (durable view w i) = Some c"
    using pk cast D D' that unfolding promises_kept_def by metis
qed

text \<open>A node that leads a term is sent no entries of that term by another node.\<close>

lemma append_to_leader:
  assumes rel: "world_rel view ok N w a" and "(src, i, AppendEntries t p pt es lc) \<in> wire w"
    and up: "up w i = Some n" and "role n = Leader" and "n_term n = t"
  shows "src = i"
proof -
  note R = world_relD [OF rel]
  have rn: "related view ok N i n a" using R(2) up unfolding site_rel_def by blast
  have "ldr a (unat t) = Some i" using related_leader(1) [OF R(1) rn] assms(4,5) by simp
  moreover have "(src, i, AApp (unat t) (unat p) (unat pt) es (unat lc)) \<in> net a"
    using R(3) [OF assms(2)] by simp
  then have "ldr a (unat t) = Some src"
    using R(1) inv_appD(1) unfolding rinv_def by blast
  ultimately show ?thesis by simp
qed

lemma live_logs_match:
  assumes rel: "world_rel view ok N w a" and "i < N" and "j < N"
    and "q < length (p_log (durable view w i))" and "q < length (p_log (durable view w j))"
    and "e_term (p_log (durable view w i) ! q) = e_term (p_log (durable view w j) ! q)"
  shows "take (Suc q) (p_log (durable view w i)) = take (Suc q) (p_log (durable view w j))"
  using log_matching [OF world_relD(1) [OF rel], of q i j] assms(4-6)
    durable_rel(3) [OF world_relD(2) [OF rel] assms(2)] durable_rel(3) [OF world_relD(2) [OF rel] assms(3)]
  by (simp add: tm_eq_iff)

lemma commit_in_log:
  assumes rel: "world_rel view ok N w a" and "up w i = Some n"
  shows "unat (commit_index n) \<le> length (n_log n)"
proof -
  note R = world_relD [OF rel]
  have rn: "related view ok N i n a" using R(2) assms(2) unfolding site_rel_def by blast
  note S = node_simD [OF relatedD(2) [OF rn]]
  show ?thesis using commit_within_log [of N a i] R(1) S(3,5) unfolding rinv_def by simp
qed

section \<open>A cluster on MemStorage\<close>

text \<open>The reachable states of a cluster of \<open>N\<close> nodes on fresh in-memory storages.\<close>

definition mem_reach :: "nat \<Rightarrow> mem_storage world \<Rightarrow> bool" where
  "mem_reach N w \<longleftrightarrow> N < 2 ^ 64 \<and> sreach mem_ops N empty_persistent w"

lemma mem_reach_rel: "mem_reach N w \<Longrightarrow> \<exists>a. world_rel mem_view mem_ok N w a"
  unfolding mem_reach_def
  using mem.sreach_sim [of N empty_persistent w]
  by (simp add: mem_view_def mem_ok_def empty_persistent_def vec_cap_def vote_storable_def)

lemma mem_reach_step: "mem_reach N w \<Longrightarrow> sys_step mem_ops N act w = Some w' \<Longrightarrow> mem_reach N w'"
  unfolding mem_reach_def by (auto intro: sr_step)

lemma mem_reach_run: "N < 2 ^ 64 \<Longrightarrow> run mem_ops N acts (init_world empty_persistent) = Some w \<Longrightarrow> mem_reach N w"
  by (simp add: mem_reach_def run_sreach [OF sr_init])

lemma mem_step_rel:
  assumes "mem_reach N w" and "sys_step mem_ops N act w = Some w'"
  shows "\<exists>a b. world_rel mem_view mem_ok N w a \<and> world_rel mem_view mem_ok N w' b \<and> promises_kept a b"
proof -
  obtain a where a: "world_rel mem_view mem_ok N w a" using mem_reach_rel [OF assms(1)] by blast
  then show ?thesis
    using mem.sys_step_sim [OF a assms(2)] assms(1) unfolding mem_reach_def by blast
qed

lemma demo_reach: "mem_reach 3 demo_world"
  by (rule mem_reach_run [OF _ demo_world(1)]) simp

text \<open>
  C1: State machine safety.  Whatever the crashes (between two operations, or between two
  storage writes of one), losses, reorderings and duplications, two deliveries at the same index, by any two nodes of the cluster at any two times of a run, are
  of the same entry.
\<close>

theorem deliveries_agree:
  assumes "mem_reach N w" and "(i, t, k, e) \<in> given w" and "(j, t', k, e') \<in> given w"
  shows "e = e'"
proof -
  obtain a where a: "world_rel mem_view mem_ok N w a" using mem_reach_rel [OF assms(1)] by blast
  show ?thesis
    using chosen_unique [OF world_relD(1) [OF a]] world_relD(5) [OF a] assms(2,3) by blast
qed

theorem deliveries_agree_witness:
  "(0, 1, 1, noop) \<in> given demo_world \<and> (1, 1, 1, noop) \<in> given demo_world \<and> noop = noop"
  using deliveries_agree [OF demo_reach demo_world(2,3)] demo_world(2,3) by blast

text \<open>
  C2: Election safety.  In a run of the cluster at most one node ever leads a term.
\<close>

theorem one_leader_per_term:
  assumes "mem_reach N w" and "(t, i) \<in> heads w" and "(t, j) \<in> heads w"
  shows "i = j"
  using mem_reach_rel [OF assms(1)] heads_unique assms(2,3) by blast

theorem one_leader_per_term_witness: "(1, 0) \<in> heads demo_world \<and> (0 :: nodeid) = 0"
  using one_leader_per_term [OF demo_reach demo_world(4) demo_world(4)] demo_world(4) by blast

text \<open>
  C3: Leader completeness.  A leader's log holds every entry that any node delivered while in
  a term up to the leader's.
\<close>

theorem leader_holds_delivered:
  assumes "mem_reach N w" and "(i, t, k, e) \<in> given w"
    and "up w l = Some n" and "role n = Leader" and "t \<le> n_term n"
  shows "unat k \<le> length (n_log n) \<and> n_log n ! (unat k - 1) = e"
proof -
  obtain a where a: "world_rel mem_view mem_ok N w a" using mem_reach_rel [OF assms(1)] by blast
  have "related mem_view mem_ok N l n a" using site_up [OF world_relD(2) [OF a] assms(3)] .
  then show ?thesis
    using chosen_leader [OF world_relD(1) [OF a] _ assms(4)] world_relD(5) [OF a assms(2)] assms(5)
    unfolding word_le_nat_alt by blast
qed

theorem leader_holds_delivered_witness:
  "\<exists>n. up demo_world 0 = Some n \<and> 1 \<le> length (n_log n) \<and> n_log n ! 0 = noop"
proof -
  obtain n where n: "up demo_world 0 = Some n" "role n = Leader" "n_term n = 1"
    by (rule demo_nodes)
  show ?thesis
    using leader_holds_delivered [OF demo_reach demo_world(3) n(1,2)] n(1,3) by simp
qed

text \<open>
  C4: Log matching.  Two logs, of nodes that are up or of the storage of nodes that are down,
  that have entries of the same term at an index are identical up to that index.
\<close>

theorem logs_match:
  assumes "mem_reach N w" and "i < N" and "j < N"
    and "q < length (p_log (durable mem_view w i))" and "q < length (p_log (durable mem_view w j))"
    and "e_term (p_log (durable mem_view w i) ! q) = e_term (p_log (durable mem_view w j) ! q)"
  shows "take (Suc q) (p_log (durable mem_view w i)) = take (Suc q) (p_log (durable mem_view w j))"
  using mem_reach_rel [OF assms(1)] live_logs_match assms(2-6) by blast

text \<open>
  C5: Durability of what was delivered.  An entry delivered by a node stays, at its index, in
  the log the node has stored: across later terms, overwritten suffixes, crashes, power losses
  between the truncation and the append of an overwrite, and restarts.
\<close>

theorem delivered_stays_stored:
  assumes "mem_reach N w" and "(i, t, k, e) \<in> given w" and "i < N"
  shows "0 < unat k \<and> unat k \<le> length (p_log (durable mem_view w i))
    \<and> p_log (durable mem_view w i) ! (unat k - 1) = e"
  using mem_reach_rel [OF assms(1)] given_durable assms(2,3) by blast

theorem delivered_stays_stored_witness:
  "0 < length (p_log (durable mem_view demo_world 1)) \<and> p_log (durable mem_view demo_world 1) ! 0 = noop"
  using delivered_stays_stored [OF demo_reach demo_world(3)] by (simp add: Suc_le_eq)

theorem logs_match_witness:
  "take 1 (p_log (durable mem_view demo_world 0)) = take 1 (p_log (durable mem_view demo_world 1))"
proof -
  have n: "0 < length (p_log (durable mem_view demo_world i)) \<and> p_log (durable mem_view demo_world i) ! 0 = noop"
    if "i = 0 \<or> i = 1" for i
    using mem_reach_rel [OF demo_reach] given_durable [OF _ demo_world(2)] given_durable [OF _ demo_world(3)] that
    by (fastforce simp: Suc_le_eq)
  show ?thesis using logs_match [OF demo_reach, of 0 1 0] n [of 0] n [of 1] by simp
qed

text \<open>
  C6: Promises survive.  No step of the cluster, a crash, a power loss between any two storage
  writes of an operation or a restart included, makes the stored term of a node smaller, or changes the vote it has stored for its current term.
\<close>

theorem promises_survive:
  assumes "mem_reach N w" and "sys_step mem_ops N act w = Some w'" and "i < N"
  shows "p_term (durable mem_view w i) \<le> p_term (durable mem_view w' i)
    \<and> (p_term (durable mem_view w' i) = p_term (durable mem_view w i) \<longrightarrow>
         p_voted_for (durable mem_view w i) \<noteq> None \<longrightarrow>
         p_voted_for (durable mem_view w' i) = p_voted_for (durable mem_view w i))"
proof -
  obtain a b where ab: "world_rel mem_view mem_ok N w a" "world_rel mem_view mem_ok N w' b" "promises_kept a b"
    using mem_step_rel [OF assms(1,2)] by blast
  note P = promises_durable [OF ab assms(3)]
  show ?thesis using P(1) P(2) by (cases "p_voted_for (durable mem_view w i)") auto
qed

theorem promises_survive_witness:
  "\<exists>w'. sys_step mem_ops 3 power_loss torn_world = Some w'
    \<and> p_term (durable mem_view torn_world 0) = 1 \<and> p_term (durable mem_view w' 0) = 2
    \<and> p_term (durable mem_view torn_world 0) \<le> p_term (durable mem_view w' 0)"
proof -
  obtain n w' where r: "run mem_ops 3 torn_acts (init_world empty_persistent) = Some torn_world"
    and n: "up torn_world 0 = Some n" "store n = \<lparr>p_term = 1, p_voted_for = Some 0, p_log = [noop]\<rparr>"
    and w': "sys_step mem_ops 3 power_loss torn_world = Some w'" "up w' 0 = None"
      "disk w' 0 = \<lparr>p_term = 2, p_voted_for = None, p_log = []\<rparr>"
    by (rule torn_world)
  have "mem_reach 3 torn_world" by (rule mem_reach_run [OF _ r]) simp
  from promises_survive [OF this w'(1), of 0] show ?thesis
    using n w' by (simp add: durable_def mem_view_def)
qed

text \<open>
  C10: The assertion of \<open>on_append_entries\<close> never fires.  A node that leads a term is
  never sent entries of that term by another node (and ignores its own messages).
\<close>

theorem no_append_from_another_leader:
  assumes "mem_reach N w" and "(src, i, AppendEntries t p pt es lc) \<in> wire w"
    and "up w i = Some n" and "n_term n = t" and "src \<noteq> i"
  shows "role n \<noteq> Leader"
  using mem_reach_rel [OF assms(1)] append_to_leader assms(2-5) by blast

theorem no_append_from_another_leader_witness:
  "\<exists>n. up demo_world 1 = Some n \<and> role n \<noteq> Leader"
proof -
  obtain n where n: "up demo_world 1 = Some n" "n_term n = 1" by (rule demo_nodes)
  show ?thesis
    using no_append_from_another_leader [OF demo_reach demo_world(5) n] n(1) by simp
qed

text \<open>
  C11: A running node's storage holds exactly its term, its vote and its log, its commit
  index is within its log, and its vectors have one element per node.
\<close>

theorem node_mirrors_storage:
  assumes "mem_reach N w" and "up w i = Some n"
  shows "store n = \<lparr>p_term = n_term n, p_voted_for = voted_for n, p_log = n_log n\<rparr>
    \<and> unat (commit_index n) \<le> length (n_log n) \<and> cfg_id (cfg n) = i \<and> i < N
    \<and> length (votes n) = N \<and> length (next_index n) = N \<and> length (match_index n) = N"
proof -
  obtain a where a: "world_rel mem_view mem_ok N w a" using mem_reach_rel [OF assms(1)] by blast
  have "related mem_view mem_ok N i n a" using site_up [OF world_relD(2) [OF a] assms(2)] .
  then show ?thesis
    using node_okD [OF relatedD(1)] commit_in_log [OF a assms(2)] by (fastforce simp: mem_view_def)
qed

theorem node_mirrors_storage_witness:
  "\<exists>n. up demo_world 1 = Some n \<and> p_log (store n) = [noop]"
proof -
  obtain n where n: "up demo_world 1 = Some n" "n_log n = [noop]" by (rule demo_nodes)
  show ?thesis using node_mirrors_storage [OF demo_reach n(1)] n by simp
qed

end
