(* ===== verification/Node_Total.thy ===== *)
theory Node_Total
  imports Node_Refine
begin

text \<open>
  No panics.  On a storage whose writes succeed, every operation of the node returns, as long
  as the clock, the term and the log leave room in their integer types, a leader's indices lie
  within its log, and no other node leads the same term.  The last two are invariants.
\<close>

section \<open>Room\<close>

definition clock_ok :: "config \<Rightarrow> u64 \<Rightarrow> bool" where
  "clock_ok c now \<longleftrightarrow> 0 < fst (election_timeout c) \<and> fst (election_timeout c) \<le> snd (election_timeout c)
     \<and> unat now + unat (snd (election_timeout c)) < 2 ^ 64
     \<and> unat now + unat (heartbeat_interval c) < 2 ^ 64 \<and> max_batch c \<le> 2 ^ 63"

text \<open>A leader's next and match indices point into its log.\<close>

definition indices_ok :: "'s node \<Rightarrow> bool" where
  "indices_ok n \<longleftrightarrow> (role n = Leader \<longrightarrow>
     (\<forall>j < length (next_index n). 1 \<le> unat (next_index n ! j) \<and> unat (next_index n ! j) \<le> length (n_log n) + 1)
   \<and> (\<forall>j < length (match_index n). unat (match_index n ! j) \<le> length (n_log n)))"

lemma indices_ok_follower: "role n \<noteq> Leader \<Longrightarrow> indices_ok n"
  by (simp add: indices_ok_def)

lemma indices_okD:
  assumes "indices_ok n" and "role n = Leader"
  shows "j < length (next_index n) \<Longrightarrow> 1 \<le> unat (next_index n ! j) \<and> unat (next_index n ! j) \<le> length (n_log n) + 1"
    and "j < length (match_index n) \<Longrightarrow> unat (match_index n ! j) \<le> length (n_log n)"
  using assms unfolding indices_ok_def by blast+

lemma reset_total:
  "clock_ok (cfg n) now \<Longrightarrow> \<exists>r d. reset_election_timer n now = Some (n\<lparr>rng := r, election_deadline := d\<rparr>)"
  using reset_election_timer_defined [of n "fst (election_timeout (cfg n))" "snd (election_timeout (cfg n))" now]
  unfolding clock_ok_def by auto

lemma vec_cap_less: "k < vec_cap \<Longrightarrow> k + 1 < 18446744073709551616"
  by (simp add: vec_cap_def)

lemma addsz_defined: "a + b < 18446744073709551616 \<Longrightarrow> addsz a b = Some (a + b)"
  by (simp add: addsz_def)

text \<open>
  What a message needs: room for its entries, an index a refusal can name, and no other
  leader of the receiver's term.
\<close>

fun msg_room :: "'s node \<Rightarrow> message \<Rightarrow> bool" where
  "msg_room n (AppendEntries t p pt es lc) \<longleftrightarrow> length (n_log n) + length es < vec_cap
     \<and> (role n = Leader \<longrightarrow> t \<noteq> n_term n)"
| "msg_room n (AppendResponse t g m) \<longleftrightarrow> g \<or> unat m < vec_cap"
| "msg_room n _ \<longleftrightarrow> length (n_log n) + 1 < vec_cap"

section \<open>Committing and sending\<close>

lemma commit_loop_total:
  assumes "\<And>k. k \<in> set is \<Longrightarrow> unat k \<le> length (n_log n)" and "length (match_index n) = cluster_size (cfg n)"
  shows "\<exists>n'. commit_loop n is = Some n'"
  using assms(1) by (induction "is") (auto simp: term_at_defined replicas_eq [OF assms(2)])

lemma advance_commit_total:
  assumes "log_fits n" and "length (match_index n) = cluster_size (cfg n)"
    and "unat (commit_index n) \<le> length (n_log n)"
  shows "\<exists>n'. advance_commit n = Some n'"
proof -
  have cap: "length (n_log n) < vec_cap" using assms(1) by (simp add: log_fits_def)
  then have "unat (commit_index n) + unat (1 :: u64) < 18446744073709551616"
    using vec_cap_less [OF cap] assms(3) by simp
  note lo = add64_defined [OF this]
  have "\<exists>n'. commit_loop n (rev (map of_nat [unat (commit_index n + 1)..<Suc (unat (last_index n))])) = Some n'"
  proof (rule commit_loop_total [OF _ assms(2)])
    fix k :: u64 assume "k \<in> set (rev (map of_nat [unat (commit_index n + 1)..<Suc (unat (last_index n))]))"
    then obtain j where j: "k = of_nat j" "j \<le> length (n_log n)"
      using unat_last_index [OF assms(1)] by auto
    then show "unat k \<le> length (n_log n)" using unat_of_nat_small [of j] cap by simp
  qed
  then show ?thesis using lo by (simp add: advance_commit_def)
qed

lemma append_for_total:
  assumes "peer < length (next_index n)" and "1 \<le> unat (next_index n ! peer)"
    and "unat (next_index n ! peer) \<le> length (n_log n) + 1" and "length (n_log n) < vec_cap"
    and "max_batch (cfg n) \<le> 2 ^ 63"
  shows "\<exists>o1. append_for n peer = Some o1"
proof -
  let ?p = "next_index n ! peer - 1"
  have one: "1 \<le> next_index n ! peer" using assms(2) by (simp add: word_le_nat_alt)
  have p: "unat ?p = unat (next_index n ! peer) - 1" using unat_sub [OF one] by simp
  have le: "unat ?p \<le> length (n_log n)" using p assms(3) by simp
  have "unat ?p + max_batch (cfg n) < 18446744073709551616"
    using le assms(4,5) unfolding vec_cap_def by simp
  note lim = addsz_defined [OF this]
  then show ?thesis
    using assms(1) one le lim term_at_defined [OF le]
    by (simp add: append_for_def sub64_def vec_slice_def panic_simps Let_def del: unat_sub)
qed

lemma broadcast_total:
  assumes "indices_ok n" and "role n = Leader" and "length (next_index n) = cluster_size (cfg n)"
    and "length (n_log n) < vec_cap" and "max_batch (cfg n) \<le> 2 ^ 63"
  shows "\<exists>out. broadcast_append n = Some out"
proof -
  have "\<exists>o1. append_for n p = Some o1" if "p \<in> set (peers n)" for p
  proof -
    have p: "p < length (next_index n)" using that assms(3) by (simp add: set_peers)
    show ?thesis
      using append_for_total [OF p _ _ assms(4,5)] indices_okD(1) [OF assms(1,2) p] by blast
  qed
  then have "append_for n p = Some (the (append_for n p))" if "p \<in> set (peers n)" for p
    using that by (metis option.sel)
  then show ?thesis
    unfolding broadcast_append_def using map_opt_total [of "peers n" "append_for n" "\<lambda>p. the (append_for n p)"] by simp
qed

text \<open>Advancing the commit index changes no other field and keeps it within the log.\<close>

lemma advance_commit_fields:
  assumes "advance_commit n = Some n'" and "log_fits n"
  shows "\<exists>k. n' = n\<lparr>commit_index := k\<rparr> \<and> (unat (commit_index n) \<le> length (n_log n) \<longrightarrow> unat k \<le> length (n_log n))"
  using advance_commit_SomeD [OF assms]
proof (elim disjE exE conjE)
  assume "n' = n"
  then show ?thesis by (intro exI [of _ "commit_index n"]) simp
qed blast

lemma indices_ok_commit [simp]:
  "indices_ok (n\<lparr>commit_index := k\<rparr>) = indices_ok n" "indices_ok (n\<lparr>heartbeat_deadline := h\<rparr>) = indices_ok n"
  "indices_ok (n\<lparr>store := s\<rparr>) = indices_ok n"
  by (simp_all add: indices_ok_def)

lemma nth_list_update_split:
  "j < length xs \<Longrightarrow> xs[i := x] ! j = (if i = j then x else xs ! j)"
  by (cases "i = j") simp_all

lemma indices_ok_set:
  assumes "indices_ok n" and "1 \<le> unat x" and "unat x \<le> length (n_log n) + 1"
  shows "indices_ok (n\<lparr>next_index := (next_index n)[src := x]\<rparr>)"
    and "unat y \<le> length (n_log n) \<Longrightarrow>
      indices_ok (n\<lparr>match_index := (match_index n)[src := y], next_index := (next_index n)[src := x]\<rparr>)"
  using assms by (auto simp: indices_ok_def nth_list_update_split)

lemma indices_ok_grow:
  "indices_ok n \<Longrightarrow> indices_ok (n\<lparr>store := s, n_log := n_log n @ es\<rparr>)"
  by (auto simp: indices_ok_def le_SucI trans_le_add1)

text \<open>What the operations start from.\<close>

definition ready :: "('s \<Rightarrow> persistent) \<Rightarrow> ('s \<Rightarrow> bool) \<Rightarrow> 's node \<Rightarrow> bool" where
  "ready view ok n \<longleftrightarrow> node_ok view ok (cluster_size (cfg n)) (cfg_id (cfg n)) n \<and> indices_ok n
     \<and> unat (commit_index n) \<le> length (n_log n)"

lemma readyD:
  assumes "ready view ok n"
  shows "ok (store n)" and "view (store n) = \<lparr>p_term = n_term n, p_voted_for = voted_for n, p_log = n_log n\<rparr>"
    and "cfg_id (cfg n) < cluster_size (cfg n)" and "cluster_size (cfg n) < 2 ^ 64"
    and "length (votes n) = cluster_size (cfg n)" and "length (next_index n) = cluster_size (cfg n)"
    and "length (match_index n) = cluster_size (cfg n)" and "log_fits n"
    and "indices_ok n" and "unat (commit_index n) \<le> length (n_log n)"
  using assms node_okD [of view ok "cluster_size (cfg n)" "cfg_id (cfg n)" n] unfolding ready_def by blast+

lemma ready_update [simp]:
  "ready view ok (n\<lparr>rng := a1\<rparr>) = ready view ok n"
  "ready view ok (n\<lparr>election_deadline := a2\<rparr>) = ready view ok n"
  "ready view ok (n\<lparr>heartbeat_deadline := a3\<rparr>) = ready view ok n"
  "ready view ok (n\<lparr>leader_id := a4\<rparr>) = ready view ok n"
  "ready view ok (n\<lparr>applied_index := a5\<rparr>) = ready view ok n"
  by (simp_all add: ready_def node_ok_def indices_ok_def log_fits_def)

text \<open>
  What the operations keep: a leader's indices within its log, the configuration and the
  index up to which entries were delivered.
\<close>

definition fine :: "'s node \<Rightarrow> 's node \<Rightarrow> bool" where
  "fine n n' \<longleftrightarrow> indices_ok n' \<and> cfg n' = cfg n \<and> applied_index n' = applied_index n"

lemma ready_role: "ready view ok n \<Longrightarrow> r \<noteq> Leader \<Longrightarrow> ready view ok (n\<lparr>role := r\<rparr>)"
  by (simp add: ready_def node_ok_def indices_ok_def)

lemma advance_broadcast_total:
  assumes n: "ready view ok n" and "role n = Leader" and "max_batch (cfg n) \<le> 2 ^ 63"
  shows "\<exists>k out. advance_commit n = Some (n\<lparr>commit_index := k\<rparr>)
    \<and> broadcast_append (n\<lparr>commit_index := k, heartbeat_deadline := h\<rparr>) = Some out
    \<and> unat k \<le> length (n_log n)"
proof -
  note R = readyD [OF n]
  obtain n' where n': "advance_commit n = Some n'" using advance_commit_total [OF R(8,7,10)] by blast
  then obtain k where k: "n' = n\<lparr>commit_index := k\<rparr>" "unat k \<le> length (n_log n)"
    using advance_commit_fields [OF n' R(8)] R(10) by blast
  have "\<exists>out. broadcast_append (n\<lparr>commit_index := k, heartbeat_deadline := h\<rparr>) = Some out"
    using R(6,8,9) assms(2,3) by (intro broadcast_total) (simp_all add: log_fits_def)
  then show ?thesis using n' k by blast
qed

context total_storage
begin

lemma persist_total:
  assumes "ready view ok n" and v: "vote_storable v"
  shows "\<exists>s. persist_hard_state ops (n\<lparr>n_term := t, voted_for := v\<rparr>) = Some (n\<lparr>n_term := t, voted_for := v, store := s\<rparr>)
    \<and> ready view ok (n\<lparr>n_term := t, voted_for := v, store := s\<rparr>)"
proof -
  note R = readyD [OF assms(1)]
  obtain s where s: "save_hard_state ops (store n) t v = Some s" using save_total [OF R(1)] by blast
  have "ok s \<and> view s = \<lparr>p_term = t, p_voted_for = v, p_log = n_log n\<rparr>"
    using save_ok [OF R(1) v s] R(2) by simp
  then show ?thesis
    using s R by (intro exI [of _ s])
      (simp add: persist_hard_state_def ready_def node_ok_def indices_ok_def log_fits_def)
qed

lemma log_append_total:
  assumes "ready view ok n" and "length (n_log n) + length es < vec_cap"
  shows "\<exists>s. log_append ops n es = Some (n\<lparr>store := s, n_log := n_log n @ es\<rparr>)
    \<and> ready view ok (n\<lparr>store := s, n_log := n_log n @ es\<rparr>)"
proof -
  note R = readyD [OF assms(1)]
  obtain s where s: "append_entries ops (store n) es = Some s"
    using append_total [OF R(1), of es] R(2) assms(2) by auto
  have "ok s \<and> view s = \<lparr>p_term = n_term n, p_voted_for = voted_for n, p_log = n_log n @ es\<rparr>"
    using append_ok [OF R(1) _ s] R(2) assms(2) by simp
  then show ?thesis
    using s R assms(2) indices_ok_grow [OF R(9), where es = es and s = s]
    by (intro exI [of _ s]) (simp add: log_append_def panic_simps ready_def node_ok_def log_fits_def)
qed

lemma node_new_total:
  assumes "ok s" and "cfg_id c < cluster_size c" and "clock_ok c now"
  shows "\<exists>n. node_new ops c s now = Some n \<and> role n = Follower \<and> applied_index n = 0 \<and> cfg n = c"
proof -
  obtain s' p where l: "load ops s = Some (s', p)" using load_total [OF assms(1)] by blast
  let ?n = "\<lparr>cfg = c, store = s', n_term = p_term p, voted_for = p_voted_for p, n_log = p_log p,
           role = Follower, leader_id = None, commit_index = 0, applied_index = 0,
           votes = replicate (cluster_size c) False, next_index = replicate (cluster_size c) 1,
           match_index = replicate (cluster_size c) 0, election_deadline = 0, heartbeat_deadline = 0,
           rng = xor (xor (cfg_seed c) (of_nat (cfg_id c) * 0x9E3779B97F4A7C15)) (p_term p)\<rparr>"
  obtain r d where "reset_election_timer ?n now = Some (?n\<lparr>rng := r, election_deadline := d\<rparr>)"
    using reset_total [of ?n now] assms(3) by auto
  then show ?thesis
    using l assms(2,3) by (simp add: node_new_def clock_ok_def Let_def)
qed

text \<open>An operation returns, and a leader's indices stay within its log.\<close>

lemma step_down_total:
  assumes n: "ready view ok n" and c: "clock_ok (cfg n) now"
  shows "\<exists>n'. step_down ops n now t = Some n' \<and> ready view ok n' \<and> cfg n' = cfg n \<and> n_term n' = t
    \<and> role n' = Follower \<and> n_log n' = n_log n \<and> applied_index n' = applied_index n"
proof -
  obtain s where s: "persist_hard_state ops (n\<lparr>n_term := t, voted_for := None\<rparr>)
      = Some (n\<lparr>n_term := t, voted_for := None, store := s\<rparr>)"
    "ready view ok (n\<lparr>n_term := t, voted_for := None, store := s\<rparr>)"
    using persist_total [OF n, of None t] by (auto simp: vote_storable_def)
  let ?m = "n\<lparr>n_term := t, voted_for := None, store := s, role := Follower, leader_id := None\<rparr>"
  obtain r d where "reset_election_timer ?m now = Some (?m\<lparr>rng := r, election_deadline := d\<rparr>)"
    using reset_total [of ?m now] c by auto
  moreover have "ready view ok (?m\<lparr>rng := r, election_deadline := d\<rparr>)"
    using ready_role [OF s(2), of Follower] by simp
  ultimately show ?thesis using s(1) unfolding step_down_def by simp
qed

lemma become_leader_total:
  assumes n: "ready view ok n" and c: "clock_ok (cfg n) now" and len: "length (n_log n) + 1 < vec_cap"
  shows "\<exists>n' out. become_leader ops n now = Some (n', out) \<and> fine n n'"
proof -
  note R = readyD [OF n]
  let ?N = "cluster_size (cfg n)"
  have "unat (last_index n) + unat (1 :: u64) < 18446744073709551616"
    using unat_last_index [OF R(8)] vec_cap_less [of "length (n_log n)"] len by simp
  note nx = add64_defined [OF this] and unx = add64_Some_unat [OF add64_defined [OF this]]
  let ?m = "n\<lparr>role := Leader, leader_id := Some (cfg_id (cfg n)), next_index := replicate ?N (last_index n + 1),
      match_index := replicate ?N 0\<rparr>"
  have "ready view ok ?m"
    using R unx unat_last_index [OF R(8)] by (simp add: ready_def node_ok_def indices_ok_def log_fits_def)
  then obtain s where s: "log_append ops ?m [\<lparr>e_term = n_term n, command = []\<rparr>]
      = Some (?m\<lparr>store := s, n_log := n_log n @ [\<lparr>e_term = n_term n, command = []\<rparr>]\<rparr>)"
    "ready view ok (?m\<lparr>store := s, n_log := n_log n @ [\<lparr>e_term = n_term n, command = []\<rparr>]\<rparr>)"
    using log_append_total [of ?m "[\<lparr>e_term = n_term n, command = []\<rparr>]"] len by auto
  let ?l = "?m\<lparr>store := s, n_log := n_log n @ [\<lparr>e_term = n_term n, command = []\<rparr>]\<rparr>"
  have hb: "add64 now (heartbeat_interval (cfg n)) = Some (now + heartbeat_interval (cfg n))"
    using c by (simp add: clock_ok_def add64_defined)
  have mb: "max_batch (cfg ?l) \<le> 2 ^ 63" and ld: "role ?l = Leader" using c by (simp_all add: clock_ok_def)
  obtain k out where k: "advance_commit ?l = Some (?l\<lparr>commit_index := k\<rparr>)"
    "broadcast_append (?l\<lparr>commit_index := k, heartbeat_deadline := now + heartbeat_interval (cfg n)\<rparr>) = Some out"
    using advance_broadcast_total [OF s(2) ld mb, of "now + heartbeat_interval (cfg n)"] by blast
  show ?thesis
    using s(1) k nx hb readyD(9) [OF s(2)] unfolding become_leader_def fine_def by simp
qed

lemma start_election_total:
  assumes n: "ready view ok n" and c: "clock_ok (cfg n) now" and len: "length (n_log n) + 1 < vec_cap"
    and t: "unat (n_term n) + 1 < 2 ^ 64"
  shows "\<exists>n' out. start_election ops n now = Some (n', out) \<and> fine n n'"
proof -
  note R = readyD [OF n]
  let ?N = "cluster_size (cfg n)" and ?i = "cfg_id (cfg n)" and ?t = "n_term n + 1"
  have t1: "add64 (n_term n) 1 = Some ?t" using t by (simp add: add64_defined)
  obtain s where s: "persist_hard_state ops (n\<lparr>n_term := ?t, voted_for := Some ?i\<rparr>)
      = Some (n\<lparr>n_term := ?t, voted_for := Some ?i, store := s\<rparr>)"
    "ready view ok (n\<lparr>n_term := ?t, voted_for := Some ?i, store := s\<rparr>)"
    using persist_total [OF n vote_storable_id [OF R(3,4)], of ?t] by blast
  let ?vs = "(replicate ?N False)[?i := True]"
  let ?m = "n\<lparr>n_term := ?t, voted_for := Some ?i, store := s, role := Candidate, leader_id := None, votes := ?vs\<rparr>"
  have vs: "vec_set (replicate ?N False) ?i True = Some ?vs" using R(3) by (simp add: panic_simps)
  obtain r d where r: "reset_election_timer ?m now = Some (?m\<lparr>rng := r, election_deadline := d\<rparr>)"
    using reset_total [of ?m now] c by auto
  let ?k = "?m\<lparr>rng := r, election_deadline := d\<rparr>"
  have rk: "ready view ok ?k"
    using readyD [OF s(2)] by (simp add: ready_def node_ok_def indices_ok_def log_fits_def)
  obtain lt where lt: "last_term ?k = Some lt"
    using term_at_defined [of "last_index ?k" ?k] unat_last_index [OF readyD(8) [OF rk]]
    by (simp add: last_term_def)
  have "clock_ok (cfg ?k) now" "length (n_log ?k) + 1 < vec_cap" using c len by simp_all
  then obtain n' out where "become_leader ops ?k now = Some (n', out)" "fine ?k n'"
    using become_leader_total [OF rk] by blast
  moreover have "fine n ?k" using readyD(9) [OF rk] by (simp add: fine_def)
  moreover have "fine ?k n' \<Longrightarrow> fine n n'" for n' by (simp add: fine_def)
  moreover have "start_election ops n now = (if vote_count ?k \<ge> quorum ?k then become_leader ops ?k now
      else Some (?k, map (\<lambda>p. \<lparr>to = p, message = RequestVote (n_term ?k) (last_index ?k) lt\<rparr>) (peers ?k)))"
    using t1 s(1) vs r lt unfolding start_election_def by simp
  ultimately show ?thesis by (cases "vote_count ?k \<ge> quorum ?k") auto
qed

lemma tick_total:
  assumes n: "ready view ok n" and c: "clock_ok (cfg n) now" and len: "length (n_log n) + 1 < vec_cap"
    and t: "unat (n_term n) + 1 < 2 ^ 64"
  shows "\<exists>n' out. tick ops n now = Some (n', out) \<and> fine n n'"
proof (cases "role n = Leader")
  case True
  note R = readyD [OF n]
  let ?h = "n\<lparr>heartbeat_deadline := now + heartbeat_interval (cfg n)\<rparr>"
  have hb: "add64 now (heartbeat_interval (cfg n)) = Some (now + heartbeat_interval (cfg n))"
    using c by (simp add: clock_ok_def add64_defined)
  have "\<exists>out. broadcast_append ?h = Some out"
    using R(6,8,9) True c by (intro broadcast_total) (simp_all add: log_fits_def clock_ok_def)
  then show ?thesis using hb True R(9) by (auto simp: tick_def fine_def)
next
  case False
  then show ?thesis
    using start_election_total [OF assms] readyD(9) [OF n] by (cases "role n") (auto simp: tick_def fine_def)
qed

lemma propose_total:
  assumes n: "ready view ok n" and len: "length (n_log n) + 1 < vec_cap" and mb: "max_batch (cfg n) \<le> 2 ^ 63"
  shows "\<exists>n' r. propose ops n now cmd = Some (n', r) \<and> fine n n'"
proof (cases "role n = Leader")
  case True
  let ?e = "\<lparr>e_term = n_term n, command = cmd\<rparr>"
  obtain s where s: "log_append ops n [?e] = Some (n\<lparr>store := s, n_log := n_log n @ [?e]\<rparr>)"
    "ready view ok (n\<lparr>store := s, n_log := n_log n @ [?e]\<rparr>)"
    using log_append_total [OF n, of "[?e]"] len by auto
  let ?l = "n\<lparr>store := s, n_log := n_log n @ [?e]\<rparr>"
  have "role ?l = Leader" "max_batch (cfg ?l) \<le> 2 ^ 63" using True mb by simp_all
  then obtain k out where "advance_commit ?l = Some (?l\<lparr>commit_index := k\<rparr>)"
    "broadcast_append (?l\<lparr>commit_index := k, heartbeat_deadline := heartbeat_deadline n\<rparr>) = Some out"
    using advance_broadcast_total [OF s(2), of "heartbeat_deadline n"] by blast
  then show ?thesis using s(1) True readyD(9) [OF s(2)] by (simp add: propose_def fine_def)
qed (use readyD(9) [OF n] in \<open>simp add: propose_def fine_def\<close>)

lemma last_term_total: "ready view ok n \<Longrightarrow> \<exists>t. last_term n = Some t"
  using term_at_defined [of "last_index n" n] unat_last_index [of n] readyD(8) [of view ok n]
  by (simp add: last_term_def)

lemma on_request_vote_total:
  assumes n: "ready view ok n" and c: "clock_ok (cfg n) now" and src: "src < cluster_size (cfg n)"
  shows "\<exists>n' out. on_request_vote ops n now src t li lt = Some (n', out) \<and> fine n n'"
proof -
  obtain l where l: "last_term n = Some l" using last_term_total [OF n] by blast
  obtain s where s: "persist_hard_state ops (n\<lparr>voted_for := Some src\<rparr>) = Some (n\<lparr>voted_for := Some src, store := s\<rparr>)"
    "ready view ok (n\<lparr>voted_for := Some src, store := s\<rparr>)"
    using persist_total [OF n vote_storable_id [OF src readyD(4) [OF n]], of "n_term n"] by auto
  let ?m = "n\<lparr>voted_for := Some src, store := s\<rparr>"
  obtain r d where "reset_election_timer ?m now = Some (?m\<lparr>rng := r, election_deadline := d\<rparr>)"
    using reset_total [of ?m now] c by auto
  moreover have "indices_ok (?m\<lparr>rng := r, election_deadline := d\<rparr>)"
    using readyD(9) [OF s(2)] by (simp add: indices_ok_def)
  ultimately show ?thesis
    using l s(1) readyD(9) [OF n] by (simp add: on_request_vote_def fine_def)
qed

lemma on_vote_response_total:
  assumes n: "ready view ok n" and c: "clock_ok (cfg n) now" and src: "src < cluster_size (cfg n)"
    and len: "length (n_log n) + 1 < vec_cap"
  shows "\<exists>n' out. on_vote_response ops n now src t g = Some (n', out) \<and> fine n n'"
proof -
  note R = readyD [OF n]
  have vs: "vec_set (votes n) src True = Some ((votes n)[src := True])" using R(5) src by (simp add: panic_simps)
  let ?m = "n\<lparr>votes := (votes n)[src := True]\<rparr>"
  have rm: "ready view ok ?m" using R by (simp add: ready_def node_ok_def indices_ok_def log_fits_def)
  have "clock_ok (cfg ?m) now" "length (n_log ?m) + 1 < vec_cap" using c len by simp_all
  then obtain n' out where "become_leader ops ?m now = Some (n', out)" "fine ?m n'"
    using become_leader_total [OF rm] by blast
  then show ?thesis
    using vs R(9) readyD(9) [OF rm] by (simp add: on_vote_response_def Let_def fine_def)
qed

lemma append_loop_total:
  assumes "ready view ok n" and "length (n_log n) + length es < vec_cap"
    and "unat p + k + length es < 2 ^ 63" and "unat p + k \<le> length (n_log n)"
  shows "\<exists>n'. append_loop ops n p k es = Some n' \<and> role n' = role n \<and> cfg n' = cfg n \<and> applied_index n' = applied_index n"
  using assms(2-4)
proof (induction es arbitrary: k)
  case (Cons e es)
  note R = readyD [OF assms(1)]
  have "unat p + unat (1 :: u64) < 18446744073709551616" using Cons.prems(2) by simp
  note i = add64_defined [OF this] and ui = add64_Some_unat [OF add64_defined [OF this]]
  have uk: "unat (of_nat k :: u64) = k" using Cons.prems(2) by (intro unat_of_nat_small) (simp add: vec_cap_def)
  have "unat (p + 1) + unat (of_nat k :: u64) < 18446744073709551616"
    using ui uk Cons.prems(2) by simp
  note idx = add64_defined [OF this] and uidx = add64_Some_unat [OF add64_defined [OF this]]
  let ?x = "p + 1 + of_nat k"
  have ux: "unat ?x = unat p + k + 1" using uidx ui uk by simp
  obtain s where s: "truncate_from ops (store n) ?x = Some s" using truncate_total [OF R(1)] by blast
  let ?m = "n\<lparr>store := s, n_log := take (unat ?x - 1) (n_log n)\<rparr>"
  have fits: "length (n_log n) + length (e # es) < vec_cap" by (rule Cons.prems(1))
  have tr: "ok s \<and> view s = \<lparr>p_term = n_term n, p_voted_for = voted_for n, p_log = take (unat ?x - 1) (n_log n)\<rparr>"
    using truncate_ok [OF R(1) s] R(2) by simp
  obtain s1 where s1: "append_entries ops s (e # es) = Some s1"
    using append_total [of s "e # es"] tr fits by force
  have cut: "log_append ops ?m (e # es) = Some (?m\<lparr>store := s1, n_log := take (unat ?x - 1) (n_log n) @ e # es\<rparr>)"
    using s1 fits by (simp add: log_append_def vec_extend_defined)
  obtain s2 where ext: "log_append ops n (e # es) = Some (n\<lparr>store := s2, n_log := n_log n @ e # es\<rparr>)"
    using log_append_total [OF assms(1) fits] by blast
  show ?case
  proof (cases "?x \<le> last_index n")
    case False
    then show ?thesis using i idx ext by simp
  next
    case True
    then have le: "unat ?x \<le> length (n_log n)"
      using unat_last_index [OF R(8)] by (simp add: word_le_nat_alt)
    have IH: "\<exists>n'. append_loop ops n p (Suc k) es = Some n' \<and> role n' = role n \<and> cfg n' = cfg n \<and> applied_index n' = applied_index n"
      using Cons.prems le ux by (intro Cons.IH) auto
    obtain t where t: "term_at n ?x = Some t" using term_at_defined [OF le] by blast
    show ?thesis
      using True i idx t s cut IH by (cases "t = e_term e") simp_all
  qed
qed simp

lemma on_append_entries_total:
  assumes n: "ready view ok n" and c: "clock_ok (cfg n) now" and src: "t \<ge> n_term n \<Longrightarrow> role n \<noteq> Leader"
    and len: "length (n_log n) + length es < vec_cap"
  shows "\<exists>n' out. on_append_entries ops n now src t p pt es lc = Some (n', out) \<and> fine n n'"
proof (cases "t < n_term n")
  case True
  then show ?thesis using readyD(9) [OF n] by (simp add: on_append_entries_def fine_def)
next
  case False
  then have ld: "role n \<noteq> Leader" using src by simp
  let ?f = "n\<lparr>role := Follower, leader_id := Some src\<rparr>"
  obtain r d where r: "reset_election_timer ?f now = Some (?f\<lparr>rng := r, election_deadline := d\<rparr>)"
    using reset_total [of ?f now] c by auto
  let ?m = "?f\<lparr>rng := r, election_deadline := d\<rparr>"
  have rm: "ready view ok ?m" using ready_role [OF n, of Follower] by simp
  note R = readyD [OF rm]
  have fin: "indices_ok ?m" by (rule R(9))
  show ?thesis
  proof (cases "p > last_index ?m")
    case True
    then show ?thesis using r False ld fin unfolding on_append_entries_def fine_def by simp
  next
    case le: False
    then have up: "unat p \<le> length (n_log ?m)"
      using unat_last_index [OF R(8)] by (simp add: word_le_nat_alt not_less)
    have cap: "length (n_log n) + length es < 2 ^ 63" using len by (simp add: vec_cap_def)
    have room: "unat p + 0 + length es < 2 ^ 63" "unat p + 0 \<le> length (n_log ?m)" "length (n_log ?m) + length es < vec_cap"
      using up cap len by simp_all
    obtain n1 where n1: "append_loop ops ?m p 0 es = Some n1" "role n1 = Follower"
      "cfg n1 = cfg n" "applied_index n1 = applied_index n"
      using append_loop_total [OF rm room(3,1,2)] by auto
    have "unat (of_nat (length es) :: u64) = length es" using len by (intro unat_of_nat_small) simp
    then have "unat p + unat (of_nat (length es) :: u64) < 18446744073709551616" using room(1) by simp
    note matched = add64_defined [OF this]
    obtain tp where tp: "term_at ?m p = Some tp" using term_at_defined [OF up] by blast
    show ?thesis
      using r False ld le tp n1 matched fin indices_ok_follower [of n1]
        indices_ok_follower [of "n1\<lparr>commit_index := min lc (p + of_nat (length es))\<rparr>"]
      unfolding on_append_entries_def fine_def by (cases "tp = pt") (simp_all add: Let_def)
  qed
qed

lemma on_append_response_total:
  assumes n: "ready view ok n" and mb: "max_batch (cfg n) \<le> 2 ^ 63" and src: "src < cluster_size (cfg n)"
    and hint: "\<not> g \<Longrightarrow> unat m < vec_cap"
  shows "\<exists>n' out. on_append_response n src t g m = Some (n', out) \<and> fine n n'"
proof (cases "role n \<noteq> Leader \<or> t \<noteq> n_term n")
  case True
  then show ?thesis using readyD(9) [OF n] by (auto simp: on_append_response_def fine_def)
next
  case False
  then have ld: "role n = Leader" and t: "t = n_term n" by auto
  note R = readyD [OF n]
  have srcN: "src < length (next_index n)" "src < length (match_index n)" using src R(6,7) by simp_all
  note nx = indices_okD(1) [OF R(9) ld srcN(1)] and mt = indices_okD(2) [OF R(9) ld srcN(2)]
  have cap: "length (n_log n) < vec_cap" using R(8) by (simp add: log_fits_def)
  have ul: "unat (last_index n) = length (n_log n)" by (rule unat_last_index [OF R(8)])
  have send: "\<exists>o1. append_for n' src = Some o1"
    if "next_index n' = (next_index n)[src := x]" "1 \<le> unat x" "unat x \<le> length (n_log n) + 1"
      "n_log n' = n_log n" "cfg n' = cfg n" for n' x
    using that srcN(1) cap mb by (intro append_for_total) simp_all
  have bump: "add64 x 1 = Some (x + 1) \<and> unat (x + 1) = unat x + 1" if "unat x < vec_cap" for x :: u64
  proof -
    have "unat x + unat (1 :: u64) < 18446744073709551616" using vec_cap_less [OF that] by simp
    then show ?thesis using add64_defined add64_Some_unat [OF add64_defined] by fastforce
  qed
  show ?thesis
  proof (cases g)
    case True
    let ?m = "max (match_index n ! src) (min m (last_index n))"
    have um: "unat ?m \<le> length (n_log n)" using mt ul by (simp add: unat_max64 unat_min64)
    then have b: "add64 ?m 1 = Some (?m + 1)" "unat (?m + 1) = unat ?m + 1" using bump [of ?m] cap by auto
    let ?k = "n\<lparr>match_index := (match_index n)[src := ?m], next_index := (next_index n)[src := ?m + 1]\<rparr>"
    have rk: "ready view ok ?k"
      using R indices_ok_set(2) [OF R(9) _ _ um, of "?m + 1" src] b(2) um
      by (simp add: ready_def node_ok_def log_fits_def)
    then obtain n1 where n1: "advance_commit ?k = Some n1"
      using advance_commit_total readyD(7,8,10) [OF rk] by blast
    then obtain c where c: "n1 = ?k\<lparr>commit_index := c\<rparr>"
      using advance_commit_fields [OF n1 readyD(8) [OF rk]] by blast
    obtain o1 where o1: "append_for n1 src = Some o1" if "?m + 1 \<le> last_index n1"
      using send [of n1 "?m + 1"] b(2) um c by auto
    have sets: "vec_get (match_index n) src = Some (match_index n ! src)"
      "vec_set (match_index n) src ?m = Some ((match_index n)[src := ?m])"
      "vec_set (next_index n) src (?m + 1) = Some ((next_index n)[src := ?m + 1])"
      using srcN by (simp_all add: panic_simps)
    have "fine n n1" using readyD(9) [OF rk] unfolding c fine_def by simp
    then show ?thesis
      using ld t True sets b(1) n1 o1 unfolding on_append_response_def Let_def
      by (cases "?m + 1 \<le> last_index n1") simp_all
  next
    case False
    let ?x = "max (match_index n ! src + 1) (min (next_index n ! src) (m + 1))"
    have b: "add64 (match_index n ! src) 1 = Some (match_index n ! src + 1)"
      "unat (match_index n ! src + 1) = unat (match_index n ! src) + 1"
      "add64 m 1 = Some (m + 1)" "unat (m + 1) = unat m + 1"
      using bump [of "match_index n ! src"] bump [of m] mt cap hint [OF False] by auto
    have ux: "1 \<le> unat ?x" "unat ?x \<le> length (n_log n) + 1"
      using b mt nx by (auto simp: unat_max64 unat_min64 min_le_iff_disj)
    let ?k = "n\<lparr>next_index := (next_index n)[src := ?x]\<rparr>"
    obtain o1 where "append_for ?k src = Some o1" using send [of ?k ?x] ux by auto
    moreover have "vec_get (match_index n) src = Some (match_index n ! src)"
      "vec_get (next_index n) src = Some (next_index n ! src)"
      "vec_set (next_index n) src ?x = Some ((next_index n)[src := ?x])"
      using srcN by (simp_all add: panic_simps)
    moreover have "fine n ?k" using indices_ok_set(1) [OF R(9) ux] by (simp add: fine_def)
    ultimately show ?thesis
      using ld t False b(1,3) unfolding on_append_response_def Let_def by simp
  qed
qed

lemma handle_total:
  assumes n: "ready view ok n" and c: "clock_ok (cfg n) now" and room: "msg_room n m"
  shows "\<exists>n' out. handle ops n now src m = Some (n', out) \<and> fine n n'"
proof (cases "src = cfg_id (cfg n) \<or> src \<ge> cluster_size (cfg n)")
  case True
  then show ?thesis using readyD(9) [OF n] by (auto simp: handle_def fine_def)
next
  case False
  then have src: "src \<noteq> cfg_id (cfg n)" "src < cluster_size (cfg n)" by auto
  obtain n1 where n1: "(if msg_term m > n_term n then step_down ops n now (msg_term m) else Some n) = Some n1"
    "ready view ok n1" "cfg n1 = cfg n" "n_log n1 = n_log n" "applied_index n1 = applied_index n"
    "msg_term m > n_term n \<and> role n1 = Follower \<or> \<not> msg_term m > n_term n \<and> n1 = n"
    using step_down_total [OF n c, of "msg_term m"] n by (cases "msg_term m > n_term n") auto
  have c1: "clock_ok (cfg n1) now" and s1: "src < cluster_size (cfg n1)" using c src n1(3) by simp_all
  have "\<exists>n' out. (case m of
           RequestVote t li lt \<Rightarrow> on_request_vote ops n1 now src t li lt
         | VoteResponse t g \<Rightarrow> on_vote_response ops n1 now src t g
         | AppendEntries t p pt es lc \<Rightarrow> on_append_entries ops n1 now src t p pt es lc
         | AppendResponse t s m \<Rightarrow> on_append_response n1 src t s m) = Some (n', out) \<and> fine n1 n'"
  proof (cases m)
    case (RequestVote t li lt)
    then show ?thesis using on_request_vote_total [OF n1(2) c1 s1] by simp
  next
    case (VoteResponse t g)
    then show ?thesis using on_vote_response_total [OF n1(2) c1 s1] room n1(4) by simp
  next
    case (AppendEntries t p pt es lc)
    have "t \<ge> n_term n1 \<Longrightarrow> role n1 \<noteq> Leader" using n1(6) room AppendEntries by auto
    then show ?thesis using on_append_entries_total [OF n1(2) c1] room n1(4) AppendEntries by simp
  next
    case (AppendResponse t g h)
    have "max_batch (cfg n1) \<le> 2 ^ 63" using c1 by (simp add: clock_ok_def)
    then show ?thesis
      using on_append_response_total [OF n1(2) _ s1, of g h t] room AppendResponse by auto
  qed
  moreover have "fine n1 n' \<Longrightarrow> fine n n'" for n' using n1(3,5) by (simp add: fine_def)
  ultimately show ?thesis using src n1(1) by (auto simp: handle_def)
qed

end

text \<open>Delivery needs only a commit index within the log.\<close>

lemma take_committed_total:
  assumes "unat (commit_index n) \<le> length (n_log n)" and "log_fits n" and "unat (applied_index n) < vec_cap"
  shows "\<exists>n' out. take_committed n = Some (n', out)"
proof -
  have "unat (applied_index n) + unat (1 :: u64) < 18446744073709551616" using vec_cap_less [OF assms(3)] by simp
  note lo = add64_defined [OF this] and ulo = add64_Some_unat [OF add64_defined [OF this]]
  have "map_opt (\<lambda>i. do { e \<leftarrow> vec_get (n_log n) (i - 1); Some (of_nat i :: u64, e) })
      [unat (applied_index n + 1)..<Suc (unat (commit_index n))]
    = Some (map (\<lambda>i. (of_nat i, n_log n ! (i - 1))) [unat (applied_index n + 1)..<Suc (unat (commit_index n))])"
    using assms(1) ulo by (intro map_opt_total) (auto simp: vec_get_def)
  then show ?thesis using lo by (simp add: take_committed_def)
qed

end
