(* ===== verification/Node_Rules.thy ===== *)
theory Node_Rules
  imports Node_Total
begin

text \<open>
  What each operation of the node does, branch by branch, on \<open>MemStorage\<close>: the rules of the
  protocol as the code's header comment states them.  Each rule speaks about the whole handler
  (its guards, the adoption of a newer term, the writes to the storage and the reply).
\<close>

section \<open>Shared steps\<close>

lemma mem_persist:
  "persist_hard_state mem_ops n = Some (n\<lparr>store := (store n)\<lparr>p_term := n_term n, p_voted_for := voted_for n\<rparr>\<rparr>)"
  by (simp add: persist_hard_state_def mem_defs)

lemma ready_store:
  "ready mem_view mem_ok n \<Longrightarrow> store n = \<lparr>p_term = n_term n, p_voted_for = voted_for n, p_log = n_log n\<rparr>"
  using readyD(2) [of mem_view mem_ok n] by (simp add: mem_view_def)

text \<open>The state after a possible adoption of the message's term.\<close>

definition adopted :: "u64 \<Rightarrow> mem_storage node \<Rightarrow> mem_storage node \<Rightarrow> bool" where
  "adopted t n n1 \<longleftrightarrow> n_term n1 = max t (n_term n) \<and> n_log n1 = n_log n \<and> cfg n1 = cfg n
     \<and> commit_index n1 = commit_index n \<and> voted_for n1 = (if n_term n < t then None else voted_for n)
     \<and> (n_term n < t \<longrightarrow> role n1 = Follower) \<and> (\<not> n_term n < t \<longrightarrow> n1 = n)
     \<and> store n1 = \<lparr>p_term = n_term n1, p_voted_for = voted_for n1, p_log = n_log n1\<rparr>"

lemma handle_adopted:
  assumes "ready mem_view mem_ok n" and "src \<noteq> cfg_id (cfg n)" and "src < cluster_size (cfg n)"
    and "handle mem_ops n now src m = Some (n', out)"
  obtains n1 where "adopted (msg_term m) n n1"
    and "(case m of
           RequestVote t li lt \<Rightarrow> on_request_vote mem_ops n1 now src t li lt
         | VoteResponse t g \<Rightarrow> on_vote_response mem_ops n1 now src t g
         | AppendEntries t p pt es lc \<Rightarrow> on_append_entries mem_ops n1 now src t p pt es lc
         | AppendResponse t s k \<Rightarrow> on_append_response n1 src t s k) = Some (n', out)"
proof -
  obtain n1 where n1: "(if msg_term m > n_term n then step_down mem_ops n now (msg_term m) else Some n) = Some n1"
    and rest: "(case m of
           RequestVote t li lt \<Rightarrow> on_request_vote mem_ops n1 now src t li lt
         | VoteResponse t g \<Rightarrow> on_vote_response mem_ops n1 now src t g
         | AppendEntries t p pt es lc \<Rightarrow> on_append_entries mem_ops n1 now src t p pt es lc
         | AppendResponse t s k \<Rightarrow> on_append_response n1 src t s k) = Some (n', out)"
    using assms(2-4) unfolding handle_def by (auto simp: bind_eq_Some_conv)
  have "adopted (msg_term m) n n1"
  proof (cases "msg_term m > n_term n")
    case True
    then have "step_down mem_ops n now (msg_term m) = Some n1" using n1 by simp
    then show ?thesis
      using True ready_store [OF assms(1)]
      by (auto simp: adopted_def step_down_def mem_persist bind_eq_Some_conv max_def dest!: reset_election_timer_SomeD)
  next
    case False
    then show ?thesis using n1 ready_store [OF assms(1)] by (auto simp: adopted_def max_def)
  qed
  then show ?thesis using rest that by blast
qed

lemma up_to_date_words:
  assumes "log_fits n" and "last_term n = Some l"
  shows "up_to_date (unat li) (unat lt) (n_log n) \<longleftrightarrow> lt > l \<or> (lt = l \<and> li \<ge> last_index n)"
  using unat_last_term [OF assms(2,1)] unat_last_index [OF assms(1)]
  by (auto simp: up_to_date_def word_less_nat_alt word_le_nat_alt word_unat_eq_iff)

section \<open>Votes\<close>

text \<open>What a vote request does to the node, with the fields that stay.\<close>

lemma vote_result:
  assumes "ready mem_view mem_ok n" and "src \<noteq> cfg_id (cfg n)" and "src < cluster_size (cfg n)"
    and "handle mem_ops n now src (RequestVote t li lt) = Some (n', out)"
  shows "\<exists>g. out = [\<lparr>to = src, message = VoteResponse (max t (n_term n)) g\<rparr>]
    \<and> (g \<longleftrightarrow> n_term n \<le> t \<and> (n_term n < t \<or> voted_for n = None \<or> voted_for n = Some src)
          \<and> up_to_date (unat li) (unat lt) (n_log n))
    \<and> store n' = \<lparr>p_term = max t (n_term n),
          p_voted_for = (if g then Some src else if n_term n < t then None else voted_for n),
          p_log = n_log n\<rparr>
    \<and> n_term n' = max t (n_term n) \<and> n_log n' = n_log n \<and> cfg n' = cfg n"
proof -
  obtain n1 where ad: "adopted t n n1"
    and run: "on_request_vote mem_ops n1 now src t li lt = Some (n', out)"
    using handle_adopted [OF assms] by auto
  have n1: "n_term n1 = max t (n_term n)" "n_log n1 = n_log n" "log_fits n1"
    "voted_for n1 = (if n_term n < t then None else voted_for n)"
    "store n1 = \<lparr>p_term = n_term n1, p_voted_for = voted_for n1, p_log = n_log n1\<rparr>" "cfg n1 = cfg n"
    using ad readyD(8) [OF assms(1)] by (simp_all add: adopted_def log_fits_def)
  have "term_at n1 (last_index n1) \<noteq> None"
    using term_at_defined [of "last_index n1" n1] unat_last_index [OF n1(3)] by simp
  then obtain l where l: "last_term n1 = Some l" by (auto simp: last_term_def)
  define g where "g \<longleftrightarrow> t = n_term n1 \<and> (voted_for n1 = None \<or> voted_for n1 = Some src)
    \<and> (lt > l \<or> (lt = l \<and> li \<ge> last_index n1))"
  have out: "out = [\<lparr>to = src, message = VoteResponse (n_term n1) g\<rparr>]
    \<and> store n' = \<lparr>p_term = n_term n1, p_voted_for = (if g then Some src else voted_for n1), p_log = n_log n1\<rparr>
    \<and> n_term n' = n_term n1 \<and> n_log n' = n_log n1 \<and> cfg n' = cfg n1"
  proof (cases g)
    case True
    let ?s = "(store n1)\<lparr>p_term := n_term n1, p_voted_for := Some src\<rparr>"
    have "do { m \<leftarrow> reset_election_timer (n1\<lparr>voted_for := Some src, store := ?s\<rparr>) now;
        Some (m, reply src (VoteResponse (n_term m) True)) } = Some (n', out)"
      using run l True unfolding g_def by (simp add: on_request_vote_def mem_persist Let_def)
    then show ?thesis
      using n1(5) True by (auto simp: reply_def bind_eq_Some_conv dest!: reset_election_timer_SomeD)
  next
    case False
    then have "n' = n1" "out = reply src (VoteResponse (n_term n1) False)"
      using run l unfolding g_def by (auto simp: on_request_vote_def Let_def split: if_splits)
    then show ?thesis using n1(5) False by (auto simp: reply_def)
  qed
  have "t = n_term n1 \<longleftrightarrow> n_term n \<le> t" unfolding n1(1) by (auto simp: max_def)
  moreover have "(voted_for n1 = None \<or> voted_for n1 = Some src)
      \<longleftrightarrow> (n_term n < t \<or> voted_for n = None \<or> voted_for n = Some src)"
    unfolding n1(4) by simp
  moreover have "(lt > l \<or> (lt = l \<and> li \<ge> last_index n1)) \<longleftrightarrow> up_to_date (unat li) (unat lt) (n_log n)"
    using up_to_date_words [OF n1(3) l] n1(2) by simp
  ultimately have g: "g \<longleftrightarrow> n_term n \<le> t \<and> (n_term n < t \<or> voted_for n = None \<or> voted_for n = Some src)
          \<and> up_to_date (unat li) (unat lt) (n_log n)" by (simp add: g_def)
  show ?thesis
  proof (intro exI [of _ g] conjI)
    show "out = [\<lparr>to = src, message = VoteResponse (max t (n_term n)) g\<rparr>]"
      using out n1(1) by simp
    show "store n' = \<lparr>p_term = max t (n_term n),
        p_voted_for = (if g then Some src else if n_term n < t then None else voted_for n), p_log = n_log n\<rparr>"
      using out n1(1,2,4) by simp
  qed (use g out n1(1,2,6) in simp_all)
qed

text \<open>
  C15: A vote request is granted exactly when its term is not old, the node has not voted for
  another candidate in it, and the candidate's log is at least as up to date as the node's; the
  new term and the vote are in the storage before the reply is returned.
\<close>

theorem vote_rule:
  assumes "ready mem_view mem_ok n" and "src \<noteq> cfg_id (cfg n)" and "src < cluster_size (cfg n)"
    and "handle mem_ops n now src (RequestVote t li lt) = Some (n', out)"
  shows "\<exists>g. out = [\<lparr>to = src, message = VoteResponse (max t (n_term n)) g\<rparr>]
    \<and> (g \<longleftrightarrow> n_term n \<le> t \<and> (n_term n < t \<or> voted_for n = None \<or> voted_for n = Some src)
          \<and> up_to_date (unat li) (unat lt) (n_log n))
    \<and> store n' = \<lparr>p_term = max t (n_term n),
          p_voted_for = (if g then Some src else if n_term n < t then None else voted_for n),
          p_log = n_log n\<rparr>"
  using vote_result [OF assms] by blast

section \<open>Received entries\<close>

lemma adopted_ok: "ready mem_view mem_ok n \<Longrightarrow> adopted t n n1 \<Longrightarrow> mem_ok (store n1) \<and> log_fits n1"
  using readyD(1,8) [of mem_view mem_ok n] ready_store [of n]
  by (auto simp: adopted_def mem_ok_def log_fits_def vote_storable_def)

lemma mem_append_loop:
  assumes "mem_ok (store n)" and "log_fits n" and "p_log (store n) = n_log n"
    and "append_loop mem_ops n p 0 es = Some n'" and "unat p \<le> length (n_log n)"
  shows "n' = n\<lparr>store := (store n)\<lparr>p_log := merge (n_log n) (unat p) es\<rparr>, n_log := merge (n_log n) (unat p) es\<rparr>"
  using mem.append_loop_merge [OF assms(4,1,2)] assms(3,5) by (auto simp: mem_view_def)

text \<open>What received entries do to the node.\<close>

lemma append_result:
  assumes "ready mem_view mem_ok n" and "src \<noteq> cfg_id (cfg n)" and "src < cluster_size (cfg n)"
    and "handle mem_ops n now src (AppendEntries t p pt es lc) = Some (n', out)"
  shows "if n_term n \<le> t \<and> unat p \<le> length (n_log n) \<and> tm_before (n_log n) (unat p) = unat pt
    then n_log n' = merge (n_log n) (unat p) es \<and> p_log (store n') = n_log n'
       \<and> role n' = Follower \<and> leader_id n' = Some src
       \<and> out = [\<lparr>to = src, message = AppendResponse t True (p + of_nat (length es))\<rparr>]
       \<and> commit_index n' = (if lc > commit_index n then min lc (p + of_nat (length es)) else commit_index n)
    else n_log n' = n_log n \<and> p_log (store n') = n_log n \<and> commit_index n' = commit_index n
       \<and> (\<exists>h. out = [\<lparr>to = src, message = AppendResponse (max t (n_term n)) False h\<rparr>])"
proof -
  obtain n1 where ad: "adopted t n n1"
    and run: "on_append_entries mem_ops n1 now src t p pt es lc = Some (n', out)"
    using handle_adopted [OF assms] by auto
  have n1: "n_term n1 = max t (n_term n)" "n_log n1 = n_log n" "commit_index n1 = commit_index n"
    "p_log (store n1) = n_log n" "log_fits n1" "mem_ok (store n1)"
    using ad adopted_ok [OF assms(1) ad] by (auto simp: adopted_def)
  show ?thesis
  proof (cases "n_term n \<le> t")
    case False
    then have t: "n_term n1 = n_term n" "t < n_term n1" using n1(1) by (auto simp: max_def)
    then have "n' = n1 \<and> out = reply src (AppendResponse (n_term n1) False 0)"
      using run unfolding on_append_entries_def by simp
    then show ?thesis using False n1 t by (auto simp: reply_def max_def)
  next
    case True
    then have t: "n_term n1 = t" using n1(1) by (simp add: max_def)
    obtain m where ld: "role n1 \<noteq> Leader"
      and r: "reset_election_timer (n1\<lparr>role := Follower, leader_id := Some src\<rparr>) now = Some m"
      using run t by (auto simp: on_append_entries_def bind_eq_Some_conv split: if_splits)
    obtain r d where m: "m = n1\<lparr>role := Follower, leader_id := Some src, rng := r, election_deadline := d\<rparr>"
      using reset_election_timer_SomeD [OF r] by auto
    have run1: "(if p > last_index m then Some (m, reply src (AppendResponse (n_term m) False (last_index m)))
        else do { tp \<leftarrow> term_at m p;
          if tp \<noteq> pt then Some (m, reply src (AppendResponse (n_term m) False (saturating_sub64 p 1)))
          else do { m1 \<leftarrow> append_loop mem_ops m p 0 es;
            k \<leftarrow> add64 p (of_nat (length es));
            let m2 = (if lc > commit_index m1 then m1\<lparr>commit_index := min lc k\<rparr> else m1);
            Some (m2, reply src (AppendResponse (n_term m2) True k)) } }) = Some (n', out)"
      using run t ld r unfolding on_append_entries_def as_word_of_nat by simp
    have fm: "log_fits m" "n_log m = n_log n" "mem_ok (store m)" "p_log (store m) = n_log m" "n_term m = t"
      "commit_index m = commit_index n" "role m = Follower" "leader_id m = Some src"
      using n1 t unfolding m by simp_all
    have le: "p > last_index m \<longleftrightarrow> \<not> unat p \<le> length (n_log n)"
      using unat_last_index [OF fm(1)] fm(2) by (simp add: word_less_nat_alt not_le)
    show ?thesis
    proof (cases "unat p \<le> length (n_log n)")
      case False
      then show ?thesis using run1 le True fm by (auto simp: reply_def max_def)
    next
      case pl: True
      have tp: "term_at m p = Some (if p = 0 then 0 else e_term (n_log n ! (unat p - 1)))"
        using term_at_defined [of p m] pl fm(2) by simp
      have eq: "(if p = 0 then 0 else e_term (n_log n ! (unat p - 1))) = pt \<longleftrightarrow> tm_before (n_log n) (unat p) = unat pt"
        using unat_term_at [OF tp] fm(2) by (simp only: word_unat_eq_iff)
      show ?thesis
      proof (cases "tm_before (n_log n) (unat p) = unat pt")
        case False
        then show ?thesis using run1 le pl tp eq True fm by (auto simp: reply_def max_def)
      next
        case acc: True
        then have "do { m1 \<leftarrow> append_loop mem_ops m p 0 es;
            k \<leftarrow> add64 p (of_nat (length es));
            let m2 = (if lc > commit_index m1 then m1\<lparr>commit_index := min lc k\<rparr> else m1);
            Some (m2, reply src (AppendResponse (n_term m2) True k)) } = Some (n', out)"
          using run1 le pl tp eq by simp
        then obtain m1 k where m1: "append_loop mem_ops m p 0 es = Some m1" and k: "add64 p (of_nat (length es)) = Some k"
          and res: "n' = (if lc > commit_index m1 then m1\<lparr>commit_index := min lc k\<rparr> else m1)"
            "out = reply src (AppendResponse (n_term n') True k)"
          by (simp add: bind_eq_Some_conv Let_def) blast
        have "unat p \<le> length (n_log m)" using pl fm(2) by simp
        note ml = mem_append_loop [OF fm(3,1,4) m1 this]
        have "k = p + of_nat (length es)" using add64_SomeD [OF k] by simp
        then show ?thesis using acc pl True fm res ml by (simp add: reply_def)
      qed
    qed
  qed
qed

text \<open>
  C16: Entries are accepted exactly when the sender's term is not old and the log has the
  entry they follow; then the log, and the stored log, is the merge of the two, the reply
  acknowledges up to the last entry sent, and the commit index follows the leader's up to that
  entry.  Otherwise the log and the commit index stay as they are and the reply is a refusal.
\<close>

theorem append_rule:
  assumes "ready mem_view mem_ok n" and "src \<noteq> cfg_id (cfg n)" and "src < cluster_size (cfg n)"
    and "handle mem_ops n now src (AppendEntries t p pt es lc) = Some (n', out)"
  shows "if n_term n \<le> t \<and> unat p \<le> length (n_log n) \<and> tm_before (n_log n) (unat p) = unat pt
    then n_log n' = merge (n_log n) (unat p) es \<and> p_log (store n') = n_log n'
       \<and> role n' = Follower \<and> leader_id n' = Some src
       \<and> out = [\<lparr>to = src, message = AppendResponse t True (p + of_nat (length es))\<rparr>]
       \<and> commit_index n' = (if lc > commit_index n then min lc (p + of_nat (length es)) else commit_index n)
    else n_log n' = n_log n \<and> p_log (store n') = n_log n \<and> commit_index n' = commit_index n
       \<and> (\<exists>h. out = [\<lparr>to = src, message = AppendResponse (max t (n_term n)) False h\<rparr>])"
  using append_result [OF assms] .

section \<open>A started node, for concrete instances\<close>

definition booted :: "nodeid \<Rightarrow> nat \<Rightarrow> persistent \<Rightarrow> mem_storage node" where
  "booted i N p = the (node_new mem_ops (config_new i N 7) p 0)"

lemma clock_ok_new [simp]: "clock_ok (config_new i N s) now \<longleftrightarrow> unat now + 300 < 2 ^ 64"
  by (auto simp: config_new_def clock_ok_def word_less_nat_alt word_le_nat_alt)

lemma booted_eq:
  assumes "i < N"
  shows "\<exists>r d. unat d \<le> 300 \<and> booted i N p
    = \<lparr>cfg = config_new i N 7, store = p, n_term = p_term p, voted_for = p_voted_for p, n_log = p_log p,
       role = Follower, leader_id = None, commit_index = 0, applied_index = 0,
       votes = replicate N False, next_index = replicate N 1,
       match_index = replicate N 0, election_deadline = d, heartbeat_deadline = 0, rng = r\<rparr>"
proof -
  let ?c = "config_new i N 7"
  let ?n = "\<lparr>cfg = ?c, store = p, n_term = p_term p, voted_for = p_voted_for p, n_log = p_log p,
           role = Follower, leader_id = None, commit_index = 0, applied_index = 0,
           votes = replicate N False, next_index = replicate N 1,
           match_index = replicate N 0, election_deadline = 0, heartbeat_deadline = 0,
           rng = xor (xor 7 (of_nat i * 0x9E3779B97F4A7C15)) (p_term p)\<rparr>"
  obtain r d where r: "reset_election_timer ?n 0 = Some (?n\<lparr>rng := r, election_deadline := d\<rparr>)" "unat d \<le> 300"
    using reset_election_timer_defined [of ?n 150 300 0]
    by (auto simp: config_new_def word_less_nat_alt word_le_nat_alt)
  then have "node_new mem_ops ?c p 0 = Some (?n\<lparr>rng := r, election_deadline := d\<rparr>)"
    using assms(1)
    by (simp add: node_new_def config_new_def mem_defs Let_def word_less_nat_alt word_le_nat_alt)
  then show ?thesis using r(2) by (intro exI [of _ r] exI [of _ d]) (simp add: booted_def)
qed

lemma booted:
  assumes "i < N"
  shows "mem_ok p \<Longrightarrow> N < 2 ^ 64 \<Longrightarrow> ready mem_view mem_ok (booted i N p)"
    and "cfg (booted i N p) = config_new i N 7" and "n_term (booted i N p) = p_term p"
    and "n_log (booted i N p) = p_log p" and "voted_for (booted i N p) = p_voted_for p"
    and "role (booted i N p) = Follower" and "commit_index (booted i N p) = 0"
    and "applied_index (booted i N p) = 0"
    and "unat (election_deadline (booted i N p)) \<le> 300"
  using assms booted_eq [OF assms(1), of p]
  by (auto simp: ready_def node_ok_def indices_ok_def log_fits_def config_new_def mem_ok_def mem_view_def)

abbreviation fresh_node :: "nodeid \<Rightarrow> nat \<Rightarrow> mem_storage node" where
  "fresh_node i N \<equiv> booted i N empty_persistent"

lemma mem_ok_empty [simp]: "mem_ok empty_persistent"
  by (simp add: mem_ok_def empty_persistent_def vec_cap_def vote_storable_def)

lemma empty_persistent_fields [simp]:
  "p_term empty_persistent = 0" "p_voted_for empty_persistent = None" "p_log empty_persistent = []"
  by (simp_all add: empty_persistent_def)

lemma fresh_node:
  assumes "i < N" and "N < 2 ^ 64"
  shows "ready mem_view mem_ok (fresh_node i N)"
    and "cfg (fresh_node i N) = config_new i N 7" and "n_term (fresh_node i N) = 0"
    and "n_log (fresh_node i N) = []" and "voted_for (fresh_node i N) = None"
    and "role (fresh_node i N) = Follower" and "commit_index (fresh_node i N) = 0"
    and "applied_index (fresh_node i N) = 0"
    and "unat (election_deadline (fresh_node i N)) \<le> 300"
  using booted [OF assms(1), of empty_persistent] assms(2) by simp_all

theorem vote_rule_witness:
  "\<exists>n' out. handle mem_ops (fresh_node 0 3) 0 1 (RequestVote 1 0 0) = Some (n', out)
    \<and> p_voted_for (store n') = Some 1"
proof -
  note F = fresh_node [of 0 3]
  obtain n' out where h: "handle mem_ops (fresh_node 0 3) 0 1 (RequestVote 1 0 0) = Some (n', out)"
    using mem.handle_total [OF F(1), of 0 "RequestVote 1 0 0" 1] F(2,4) by (auto simp: vec_cap_def)
  show ?thesis
    using vote_rule [OF F(1) _ _ h] h F(2-5) by (auto simp: config_new_def up_to_date_def last_tm_def)
qed

theorem append_rule_witness:
  "\<exists>n' out. handle mem_ops (fresh_node 0 3) 0 1 (AppendEntries 1 0 0 [\<lparr>e_term = 1, command = []\<rparr>] 1) = Some (n', out)
    \<and> n_log n' = [\<lparr>e_term = 1, command = []\<rparr>] \<and> commit_index n' = 1"
proof -
  note F = fresh_node [of 0 3]
  let ?m = "AppendEntries 1 0 0 [\<lparr>e_term = 1, command = []\<rparr>] 1"
  obtain n' out where h: "handle mem_ops (fresh_node 0 3) 0 1 ?m = Some (n', out)"
    using mem.handle_total [OF F(1), of 0 ?m 1] F(2,4,6) by (auto simp: vec_cap_def)
  show ?thesis
    using append_rule [OF F(1) _ _ h] h F(2-7) by (simp add: config_new_def tm_before_def)
qed

lemma merge_present:
  "(\<And>k. k < length es \<Longrightarrow> p + k < length L \<and> tm (L ! (p + k)) = tm (es ! k)) \<Longrightarrow> merge L p es = L"
proof (induction es arbitrary: p)
  case (Cons e es)
  have "p < length L \<and> tm (L ! p) = tm e" using Cons.prems [of 0] by simp
  moreover have "merge L (Suc p) es = L"
  proof (rule Cons.IH)
    fix k assume "k < length es"
    then show "Suc p + k < length L \<and> tm (L ! (Suc p + k)) = tm (es ! k)" using Cons.prems [of "Suc k"] by simp
  qed
  ultimately show ?case by simp
qed simp

text \<open>
  A stale or repeated message never deletes entries: when the log already has an entry of
  the same term at every position the message covers, the loop changes nothing at all, neither
  the log nor the storage.
\<close>

theorem stale_append_changes_nothing:
  assumes "ready mem_view mem_ok n" and "append_loop mem_ops n p 0 es = Some n'"
    and "\<And>k. k < length es \<Longrightarrow> unat p + k < length (n_log n) \<and> e_term (n_log n ! (unat p + k)) = e_term (es ! k)"
    and "unat p \<le> length (n_log n)"
  shows "n' = n"
proof -
  have "mem_ok (store n)" "log_fits n" "p_log (store n) = n_log n"
    using readyD(1,8) [OF assms(1)] ready_store [OF assms(1)] by simp_all
  note l = mem_append_loop [OF this assms(2,4)]
  have "merge (n_log n) (unat p) es = n_log n"
    using assms(3) by (intro merge_present) (simp add: tm_def)
  then have "n' = n\<lparr>store := (store n)\<lparr>p_log := p_log (store n)\<rparr>, n_log := n_log n\<rparr>"
    using l \<open>p_log (store n) = n_log n\<close> by simp
  then show ?thesis by (cases n, cases "store n") simp
qed

definition one_entry :: persistent where
  "one_entry = \<lparr>p_term = 1, p_voted_for = None, p_log = [\<lparr>e_term = 1, command = [9]\<rparr>]\<rparr>"

lemma one_entry: "mem_ok one_entry"
  by (simp add: one_entry_def mem_ok_def vec_cap_def vote_storable_def)

theorem stale_append_changes_nothing_witness:
  "append_loop mem_ops (booted 0 3 one_entry) 0 0 [\<lparr>e_term = 1, command = [9]\<rparr>] = Some (booted 0 3 one_entry)"
proof -
  note B = booted [of 0 3 one_entry]
  have log: "n_log (booted 0 3 one_entry) = [\<lparr>e_term = 1, command = [9]\<rparr>]" using B(4) by (simp add: one_entry_def)
  have r: "ready mem_view mem_ok (booted 0 3 one_entry)" using B(1) one_entry by simp
  obtain n' where n': "append_loop mem_ops (booted 0 3 one_entry) 0 0 [\<lparr>e_term = 1, command = [9]\<rparr>] = Some n'"
    using mem.append_loop_total [OF r, of "[\<lparr>e_term = 1, command = [9]\<rparr>]" 0 0] log by (auto simp: vec_cap_def)
  show ?thesis
    using stale_append_changes_nothing [OF r n'] n' log by simp
qed

section \<open>Commands and elections\<close>

lemma map_opt_section:
  "(\<And>x y. f x = Some y \<Longrightarrow> g y = x) \<Longrightarrow> map_opt f xs = Some ys \<Longrightarrow> map g ys = xs"
  by (induction xs arbitrary: ys) (auto simp: bind_eq_Some_conv)

lemma broadcast_to:
  assumes "broadcast_append n = Some out"
  shows "map to out = peers n"
proof (rule map_opt_section)
  show "map_opt (append_for n) (peers n) = Some out" using assms by (simp add: broadcast_append_def)
  show "\<And>x y. append_for n x = Some y \<Longrightarrow> to y = x" using append_for_SomeD by fastforce
qed

text \<open>A node that has just voted for itself in the next term.\<close>

definition campaigning :: "mem_storage node \<Rightarrow> u64 \<Rightarrow> u64 \<Rightarrow> mem_storage node" where
  "campaigning n r d = n\<lparr>n_term := n_term n + 1, voted_for := Some (cfg_id (cfg n)),
      store := (store n)\<lparr>p_term := n_term n + 1, p_voted_for := Some (cfg_id (cfg n))\<rparr>,
      role := Candidate, leader_id := None,
      votes := (replicate (cluster_size (cfg n)) False)[cfg_id (cfg n) := True],
      rng := r, election_deadline := d\<rparr>"

lemma tick_campaign:
  assumes "ready mem_view mem_ok n" and "role n \<noteq> Leader" and "election_deadline n \<le> now"
    and "tick mem_ops n now = Some (n', out)"
  shows "\<exists>m r d. m = campaigning n r d
    \<and> (if vote_count m \<ge> quorum m then become_leader mem_ops m now
      else do { lt \<leftarrow> last_term m;
        Some (m, map (\<lambda>p. \<lparr>to = p, message = RequestVote (n_term m) (last_index m) lt\<rparr>) (peers m)) }) = Some (n', out)"
proof -
  let ?N = "cluster_size (cfg n)" and ?i = "cfg_id (cfg n)"
  have run: "start_election mem_ops n now = Some (n', out)"
    using assms(2-4) by (cases "role n") (simp_all add: tick_def)
  let ?vs = "(replicate ?N False)[?i := True]"
  have vs: "vec_set (replicate ?N False) ?i True = Some ?vs"
    using readyD(3) [OF assms(1)] by (simp add: panic_simps)
  have t1: "add64 (n_term n) 1 = Some (n_term n + 1)"
    using run by (auto simp: start_election_def bind_eq_Some_conv dest: add64_SomeD)
  let ?m = "n\<lparr>n_term := n_term n + 1, voted_for := Some ?i,
      store := (store n)\<lparr>p_term := n_term n + 1, p_voted_for := Some ?i\<rparr>,
      role := Candidate, leader_id := None, votes := ?vs\<rparr>"
  obtain m where r: "reset_election_timer ?m now = Some m"
    and rest: "(if vote_count m \<ge> quorum m then become_leader mem_ops m now
      else do { lt \<leftarrow> last_term m;
        Some (m, map (\<lambda>p. \<lparr>to = p, message = RequestVote (n_term m) (last_index m) lt\<rparr>) (peers m)) }) = Some (n', out)"
    using run t1 vs unfolding start_election_def Let_def by (auto simp: mem_persist bind_eq_Some_conv)
  obtain rr d where "m = ?m\<lparr>rng := rr, election_deadline := d\<rparr>"
    using reset_election_timer_SomeD [OF r] by auto
  then show ?thesis
    using rest by (intro exI [of _ m] exI [of _ rr] exI [of _ d]) (simp add: campaigning_def)
qed

lemma campaigning_ready:
  assumes "ready mem_view mem_ok n"
  shows "ready mem_view mem_ok (campaigning n r d)"
proof -
  note R = readyD [OF assms]
  have "vote_storable (Some (cfg_id (cfg n)))" by (rule vote_storable_id [OF R(3,4)])
  then show ?thesis
    using R ready_store [OF assms]
    by (simp add: campaigning_def ready_def node_ok_def indices_ok_def log_fits_def mem_ok_def mem_view_def)
qed

text \<open>
  C40: A node that does not lead and whose election deadline has passed starts an election in
  the next term: its vote for itself is in the storage, and it asks every other node for its
  vote, describing its own log.
\<close>

theorem election_rule:
  assumes "ready mem_view mem_ok n" and "role n \<noteq> Leader" and "election_deadline n \<le> now"
    and "1 < cluster_size (cfg n)" and "tick mem_ops n now = Some (n', out)"
  shows "role n' = Candidate \<and> n_term n' = n_term n + 1 \<and> n_log n' = n_log n
    \<and> store n' = \<lparr>p_term = n_term n + 1, p_voted_for = Some (cfg_id (cfg n)), p_log = n_log n\<rparr>
    \<and> (\<exists>lt. unat lt = last_tm (n_log n) \<and>
         out = map (\<lambda>p. \<lparr>to = p, message = RequestVote (n_term n + 1) (last_index n) lt\<rparr>) (peers n))"
proof -
  let ?N = "cluster_size (cfg n)" and ?i = "cfg_id (cfg n)"
  let ?vs = "(replicate ?N False)[?i := True]"
  obtain m rr d where m: "m = campaigning n rr d"
    and rest: "(if vote_count m \<ge> quorum m then become_leader mem_ops m now
      else do { lt \<leftarrow> last_term m;
        Some (m, map (\<lambda>p. \<lparr>to = p, message = RequestVote (n_term m) (last_index m) lt\<rparr>) (peers m)) }) = Some (n', out)"
    using tick_campaign [OF assms(1,2,3,5)] by blast
  note m = m [unfolded campaigning_def]
  have "{j. j < length ?vs \<and> ?vs ! j} \<subseteq> {?i}"
    by (auto simp: nth_list_update_split split: if_splits)
  then have "vote_count m \<le> 1"
    using card_mono [of "{?i}" "{j. j < length ?vs \<and> ?vs ! j}"] by (simp add: vote_count_eq m)
  moreover have "quorum m \<ge> 2" using assms(4) by (simp add: quorum_def m)
  ultimately have "\<not> vote_count m \<ge> quorum m" by simp
  then obtain lt where lt: "last_term m = Some lt" and res: "n' = m"
    "out = map (\<lambda>p. \<lparr>to = p, message = RequestVote (n_term m) (last_index m) lt\<rparr>) (peers m)"
    using rest by (auto simp: bind_eq_Some_conv)
  have "log_fits m" using readyD(8) [OF assms(1)] by (simp add: m log_fits_def)
  then have "unat lt = last_tm (n_log n)" using unat_last_term [OF lt] by (simp add: m)
  moreover have "peers m = peers n" "last_index m = last_index n" by (simp_all add: m peers_def last_index_def)
  ultimately show ?thesis
    using ready_store [OF assms(1)] res by (auto simp: m)
qed

theorem election_rule_witness:
  "\<exists>n' out. tick mem_ops (fresh_node 0 3) 300 = Some (n', out) \<and> n_term n' = 1
    \<and> store n' = \<lparr>p_term = 1, p_voted_for = Some 0, p_log = []\<rparr>"
proof -
  note F = fresh_node [of 0 3]
  have d: "election_deadline (fresh_node 0 3) \<le> 300" using F(9) by (simp add: word_le_nat_alt)
  obtain n' out where t: "tick mem_ops (fresh_node 0 3) 300 = Some (n', out)"
    using mem.tick_total [OF F(1), of 300] F(2-4) by (auto simp: vec_cap_def)
  show ?thesis
    using election_rule [OF F(1) _ d _ t] t F(2-6) by (simp add: config_new_def)
qed

section \<open>Commitment\<close>

text \<open>
  The indices the leader may commit: above its commit index, with only entries of its own term
  from there to the end of the log, and stored by a quorum.
\<close>

definition committable :: "'s node \<Rightarrow> nat set" where
  "committable n = {k. unat (commit_index n) < k \<and> k \<le> length (n_log n)
     \<and> (\<forall>j. k \<le> j \<and> j \<le> length (n_log n) \<longrightarrow> e_term (n_log n ! (j - 1)) = n_term n)
     \<and> card (replica_set n (of_nat k)) \<ge> quorum n}"

lemma commit_loop_max:
  assumes "length (match_index n) = cluster_size (cfg n)" and "log_fits n"
    and "hi \<le> length (n_log n)" and "0 < lo"
    and "\<And>k. hi < k \<Longrightarrow> k \<le> length (n_log n) \<Longrightarrow> e_term (n_log n ! (k - 1)) = n_term n"
    and "commit_loop n (rev (map of_nat [lo..<Suc hi])) = Some n'"
  shows "(n' = n \<and> (\<forall>k. lo \<le> k \<longrightarrow> k \<le> hi \<longrightarrow> k \<notin> {k. (\<forall>j. k \<le> j \<and> j \<le> length (n_log n) \<longrightarrow> e_term (n_log n ! (j - 1)) = n_term n)
       \<and> card (replica_set n (of_nat k)) \<ge> quorum n}))
    \<or> (\<exists>k. lo \<le> k \<and> k \<le> hi \<and> n' = n\<lparr>commit_index := of_nat k\<rparr>
       \<and> (\<forall>j. k \<le> j \<and> j \<le> length (n_log n) \<longrightarrow> e_term (n_log n ! (j - 1)) = n_term n)
       \<and> card (replica_set n (of_nat k)) \<ge> quorum n
       \<and> (\<forall>m. k < m \<longrightarrow> m \<le> hi \<longrightarrow> \<not> card (replica_set n (of_nat m)) \<ge> quorum n))"
  using assms(3,5,6)
proof (induction hi)
  case 0
  then show ?case using assms(4) by auto
next
  case (Suc hi)
  show ?case
  proof (cases "lo \<le> Suc hi")
    case False
    then show ?thesis using Suc.prems(3) by auto
  next
    case True
    let ?x = "of_nat (Suc hi) :: u64"
    have cap: "Suc hi < vec_cap" using Suc.prems(1) assms(2) by (simp add: log_fits_def)
    have ux: "unat ?x = Suc hi" using unat_of_nat_small [OF cap] .
    then have nz: "?x \<noteq> 0" by (metis nat.distinct(1) unat_0)
    have t: "term_at n ?x = Some (e_term (n_log n ! hi))"
      using term_at_defined [of ?x n] ux nz Suc.prems(1) by simp
    have list: "rev (map of_nat [lo..<Suc (Suc hi)]) = ?x # rev (map of_nat [lo..<Suc hi])"
      using True by simp
    have step: "(if e_term (n_log n ! hi) \<noteq> n_term n then Some n
        else if card (replica_set n ?x) \<ge> quorum n then Some (n\<lparr>commit_index := ?x\<rparr>)
        else commit_loop n (rev (map of_nat [lo..<Suc hi]))) = Some n'"
      using Suc.prems(3) unfolding list commit_loop.simps t replicas_eq [OF assms(1)]
      by (simp only: Option.bind.simps)
    consider (stop) "e_term (n_log n ! hi) \<noteq> n_term n" "n' = n"
      | (found) "e_term (n_log n ! hi) = n_term n" "card (replica_set n ?x) \<ge> quorum n" "n' = n\<lparr>commit_index := ?x\<rparr>"
      | (down) "e_term (n_log n ! hi) = n_term n" "\<not> card (replica_set n ?x) \<ge> quorum n"
          "commit_loop n (rev (map of_nat [lo..<Suc hi])) = Some n'"
      using step by (auto split: if_splits)
    then show ?thesis
    proof cases
      case stop
      then have "\<not> (\<forall>j. k \<le> j \<and> j \<le> length (n_log n) \<longrightarrow> e_term (n_log n ! (j - 1)) = n_term n)"
        if "k \<le> Suc hi" for k
        using that Suc.prems(1) by (metis diff_Suc_1)
      then show ?thesis using stop(2) by blast
    next
      case found
      have "e_term (n_log n ! (j - 1)) = n_term n" if "Suc hi \<le> j" "j \<le> length (n_log n)" for j
        using that found(1) Suc.prems(2) [of j] by (cases "j = Suc hi") auto
      then show ?thesis using found True by (intro disjI2 exI [of _ "Suc hi"]) auto
    next
      case down
      have "e_term (n_log n ! (j - 1)) = n_term n" if "hi < j" "j \<le> length (n_log n)" for j
        using that down(1) Suc.prems(2) [of j] by (cases "j = Suc hi") auto
      note IH = Suc.IH [OF _ this down(3)]
      show ?thesis
        using IH Suc.prems(1) down(2) by (smt (verit) le_Suc_eq less_Suc_eq_le mem_Collect_eq Suc_leD)
    qed
  qed
qed

lemma advance_commit_max:
  assumes "ready mem_view mem_ok n" and "advance_commit n = Some n'"
  shows "committable n = {} \<Longrightarrow> n' = n"
    and "committable n \<noteq> {} \<Longrightarrow> n' = n\<lparr>commit_index := of_nat (Max (committable n))\<rparr>"
proof -
  note R = readyD [OF assms(1)]
  obtain lo where lo: "add64 (commit_index n) 1 = Some lo"
    and loop: "commit_loop n (rev (map of_nat [unat lo..<Suc (unat (last_index n))])) = Some n'"
    using assms(2) unfolding advance_commit_def by (auto simp: bind_eq_Some_conv as_word_of_nat)
  have ul: "unat lo = unat (commit_index n) + 1" using add64_Some_unat [OF lo] by simp
  have li: "unat (last_index n) = length (n_log n)" by (rule unat_last_index [OF R(8)])
  let ?P = "\<lambda>k. (\<forall>j. k \<le> j \<and> j \<le> length (n_log n) \<longrightarrow> e_term (n_log n ! (j - 1)) = n_term n)
       \<and> card (replica_set n (of_nat k)) \<ge> quorum n"
  have mem: "k \<in> committable n \<longleftrightarrow> unat lo \<le> k \<and> k \<le> length (n_log n) \<and> ?P k" for k
    by (auto simp: committable_def ul)
  have fin: "finite (committable n)"
    by (rule finite_subset [of _ "{..length (n_log n)}"]) (auto simp: committable_def)
  from commit_loop_max [OF R(7,8) _ _ _ loop] li ul
  consider (none) "n' = n" "\<forall>k. unat lo \<le> k \<longrightarrow> k \<le> length (n_log n) \<longrightarrow> \<not> ?P k"
    | (some) k where "unat lo \<le> k" "k \<le> length (n_log n)" "n' = n\<lparr>commit_index := of_nat k\<rparr>" "?P k"
        "\<forall>m. k < m \<longrightarrow> m \<le> length (n_log n) \<longrightarrow> \<not> card (replica_set n (of_nat m)) \<ge> quorum n"
    by auto
  then have "(committable n = {} \<longrightarrow> n' = n)
    \<and> (committable n \<noteq> {} \<longrightarrow> n' = n\<lparr>commit_index := of_nat (Max (committable n))\<rparr>)"
  proof cases
    case none
    then have "committable n = {}" using mem by blast
    then show ?thesis using none(1) by simp
  next
    case some
    then have k: "k \<in> committable n" using mem by blast
    have "m \<le> k" if "m \<in> committable n" for m
      using that mem some(5) not_le by blast
    then have "Max (committable n) = k" using k fin by (intro Max_eqI) auto
    then show ?thesis using some(3) k by auto
  qed
  then show "committable n = {} \<Longrightarrow> n' = n"
    and "committable n \<noteq> {} \<Longrightarrow> n' = n\<lparr>commit_index := of_nat (Max (committable n))\<rparr>" by blast+
qed

text \<open>
  C18: The commit rule.  The leader moves its commit index to the largest index it may commit
  and leaves it alone when there is none: an entry of an earlier term is never committed by
  counting its copies, only together with a later entry of the leader's own term.
\<close>

theorem commit_rule:
  assumes "ready mem_view mem_ok n" and "advance_commit n = Some n'"
  shows "if committable n = {} then n' = n
    else n' = n\<lparr>commit_index := of_nat (Max (committable n))\<rparr>"
  using advance_commit_max [OF assms] by simp

definition noop_of :: "u64 \<Rightarrow> entry" where
  "noop_of t = \<lparr>e_term = t, command = []\<rparr>"

text \<open>The term of the last entry, as a word.\<close>

definition last_entry_term :: "entry list \<Rightarrow> u64" where
  "last_entry_term L = (if L = [] then 0 else e_term (last L))"

lemma term_at_end: "unat p = length L \<Longrightarrow> n_log n = L @ es \<Longrightarrow> term_at n p = Some (last_entry_term L)"
  using term_at_defined [of p n] unat_gt_0 [of p]
  by (auto simp: last_entry_term_def nth_append last_conv_nth)

lemma last_term_eq: "log_fits n \<Longrightarrow> last_term n = Some (last_entry_term (n_log n))"
  using term_at_end [of "last_index n" "n_log n" n "[]"] unat_last_index [of n] by (simp add: last_term_def)

lemma unat_last_entry_term: "unat (last_entry_term L) = last_tm L"
  by (simp add: last_entry_term_def last_tm_def tm_def)

definition voters :: "'s node \<Rightarrow> nodeid set" where
  "voters n = {j. j < length (votes n) \<and> votes n ! j}"

lemma vote_count_voters: "vote_count n = card (voters n)"
  by (simp add: voters_def vote_count_eq)

lemma vote_response_result:
  assumes n: "ready mem_view mem_ok n" and src: "src \<noteq> cfg_id (cfg n)" "src < cluster_size (cfg n)"
    and run: "handle mem_ops n now src (VoteResponse (n_term n) True) = Some (n', out)"
  shows "if role n = Candidate then
      (if vote_count (n\<lparr>votes := (votes n)[src := True]\<rparr>) \<ge> quorum n
       then become_leader mem_ops (n\<lparr>votes := (votes n)[src := True]\<rparr>) now = Some (n', out)
       else n' = n\<lparr>votes := (votes n)[src := True]\<rparr> \<and> out = [])
    else n' = n \<and> out = []"
proof -
  have "vec_set (votes n) src True = Some ((votes n)[src := True])"
    using readyD(5) [OF n] src(2) by (simp add: panic_simps)
  moreover have "quorum (n\<lparr>votes := bs\<rparr>) = quorum n" for bs by (simp add: quorum_def)
  ultimately show ?thesis
    using run src by (auto simp: handle_def on_vote_response_def split: if_splits)
qed

lemma voters_insert:
  "src < length (votes n) \<Longrightarrow> voters (n\<lparr>votes := (votes n)[src := True]\<rparr>) = insert src (voters n)"
  by (auto simp: voters_def nth_list_update)

lemma ready_votes: "ready view ok n \<Longrightarrow> length bs = length (votes n) \<Longrightarrow> ready view ok (n\<lparr>votes := bs\<rparr>)"
  by (simp add: ready_def node_ok_def indices_ok_def log_fits_def)

text \<open>
  The message with which a leader brings a peer up to date: the entries from the peer's next index
  on, at most a batch of them, after the entry before them and its term, and the commit index.
\<close>

definition entries_for :: "'s node \<Rightarrow> nodeid \<Rightarrow> outgoing" where
  "entries_for n p =
     (let prev = unat (next_index n ! p) - 1 in
      \<lparr>to = p, message = AppendEntries (n_term n) (of_nat prev) (last_entry_term (take prev (n_log n)))
         (take (max_batch (cfg n)) (drop prev (n_log n))) (commit_index n)\<rparr>)"

lemma map_opt_map: "map_opt f xs = Some ys \<Longrightarrow> (\<And>x y. f x = Some y \<Longrightarrow> y = g x) \<Longrightarrow> ys = map g xs"
  by (induction xs arbitrary: ys) (auto simp: bind_eq_Some_conv)

lemma append_for_eq:
  assumes "append_for n p = Some o1"
  shows "o1 = entries_for n p"
proof -
  obtain nx pv lim t es where nx: "next_index n ! p = nx" and pv: "sub64 nx 1 = Some pv"
    and lim: "addsz (unat pv) (max_batch (cfg n)) = Some lim" and t: "term_at n pv = Some t"
    and es: "vec_slice (n_log n) (unat pv) (min (length (n_log n)) lim) = Some es"
    and o1: "o1 = \<lparr>to = p, message = AppendEntries (n_term n) pv t es (commit_index n)\<rparr>"
    using assms by (auto simp: append_for_def bind_eq_Some_conv Let_def dest!: vec_get_SomeD)
  have upv: "unat pv = unat nx - 1" using pv by (auto simp: sub64_def word_le_nat_alt unat_sub split: if_splits)
  have tle: "unat pv \<le> length (n_log n)" using term_at_SomeD [OF t] by simp
  have "t = last_entry_term (take (unat pv) (n_log n))"
    using term_at_end [of pv "take (unat pv) (n_log n)" n "drop (unat pv) (n_log n)"] tle t by simp
  moreover have "es = take (max_batch (cfg n)) (drop (unat pv) (n_log n))"
    using vec_slice_SomeD [OF es] addsz_SomeD [OF lim] by (auto simp: min_def)
  ultimately show ?thesis unfolding o1 entries_for_def Let_def nx upv [symmetric] by simp
qed

lemma broadcast_eq: "broadcast_append n = Some out \<Longrightarrow> out = map (entries_for n) (peers n)"
  unfolding broadcast_append_def by (rule map_opt_map [OF _ append_for_eq])

text \<open>What \<open>advance_commit\<close> makes of a node.\<close>

definition committed_up :: "'s node \<Rightarrow> 's node" where
  "committed_up n = (if committable n = {} then n else n\<lparr>commit_index := of_nat (Max (committable n))\<rparr>)"

text \<open>A node with one more entry in its log and its storage.\<close>

definition with_entry :: "entry \<Rightarrow> mem_storage node \<Rightarrow> mem_storage node" where
  "with_entry e n = n\<lparr>store := (store n)\<lparr>p_log := n_log n @ [e]\<rparr>, n_log := n_log n @ [e]\<rparr>"

lemma with_entry_simps [simp]:
  "cfg (with_entry e n) = cfg n" "n_term (with_entry e n) = n_term n" "n_log (with_entry e n) = n_log n @ [e]"
  "role (with_entry e n) = role n" "commit_index (with_entry e n) = commit_index n"
  "match_index (with_entry e n) = match_index n" "next_index (with_entry e n) = next_index n"
  by (simp_all add: with_entry_def)

lemma log_append_one:
  assumes "ready mem_view mem_ok n" and "log_append mem_ops n [e] = Some n1"
  shows "n1 = with_entry e n" and "ready mem_view mem_ok n1"
proof -
  have room: "length (n_log n) + length [e] < vec_cap"
    using log_append_SomeD [OF assms(2)] by (auto simp: log_fits_def)
  obtain s where "n1 = n\<lparr>store := s, n_log := n_log n @ [e]\<rparr>" "ready mem_view mem_ok n1"
    using mem.log_append_total [OF assms(1) room] assms(2) by auto
  then show "n1 = with_entry e n" and "ready mem_view mem_ok n1"
    using ready_store [of n1] ready_store [OF assms(1)] by (simp_all add: with_entry_def)
qed

lemma advance_commit_eq: "ready mem_view mem_ok n \<Longrightarrow> advance_commit n = Some n' \<Longrightarrow> n' = committed_up n"
  using advance_commit_max [of n n'] by (simp add: committed_up_def)

lemma peers_cong: "cfg m = cfg n \<Longrightarrow> peers m = peers n"
  by (simp add: peers_def)

text \<open>
  C19: A proposal to a node that does not lead is refused with the last known leader and
  changes nothing.  A leader appends the command, in its own term, to its log and its storage, then
  commits what it may, answers with the index of the new entry, and sends every other node the
  entries from that node's next index on, the new one included where the batch reaches it.
\<close>

theorem propose_rule:
  assumes "ready mem_view mem_ok n" and "propose mem_ops n now cmd = Some (n', r)"
  shows "if role n \<noteq> Leader then n' = n \<and> r = Inl (NotLeader (leader_id n))
    else n_log n' = n_log n @ [\<lparr>e_term = n_term n, command = cmd\<rparr>] \<and> p_log (store n') = n_log n'
      \<and> n' = committed_up (with_entry \<lparr>e_term = n_term n, command = cmd\<rparr> n)
      \<and> r = Inr (of_nat (length (n_log n) + 1), map (entries_for n') (peers n))"
proof (cases "role n = Leader")
  case True
  let ?e = "\<lparr>e_term = n_term n, command = cmd\<rparr>"
  obtain n1 out where la: "log_append mem_ops n [?e] = Some n1" and ac: "advance_commit n1 = Some n'"
    and br: "broadcast_append n' = Some out" and r: "r = Inr (last_index n', out)"
    using assms(2) True by (auto simp: propose_def bind_eq_Some_conv)
  note n1 = log_append_one [OF assms(1) la]
  have n': "n' = committed_up (with_entry ?e n)" using advance_commit_eq [OF n1(2) ac] n1(1) by simp
  then have f: "n_log n' = n_log n @ [?e]" "cfg n' = cfg n" "p_log (store n') = n_log n'"
    by (simp_all add: committed_up_def with_entry_def)
  show ?thesis
    using True n' f r broadcast_eq [OF br] peers_cong [OF f(2)] by (simp add: last_index_def)
qed (use assms(2) in \<open>auto simp: propose_def\<close>)

section \<open>Winning an election\<close>

text \<open>A new leader, before it sends anything.\<close>

definition leading :: "mem_storage node \<Rightarrow> mem_storage node" where
  "leading n = with_entry (noop_of (n_term n))
     (n\<lparr>role := Leader, leader_id := Some (cfg_id (cfg n)),
        next_index := replicate (cluster_size (cfg n)) (of_nat (length (n_log n) + 1)),
        match_index := replicate (cluster_size (cfg n)) 0\<rparr>)"

lemma committed_up_leading:
  assumes "1 < cluster_size (cfg n)" and "cfg_id (cfg n) < cluster_size (cfg n)"
    and "length (n_log n) + 1 < vec_cap"
  shows "committed_up (leading n) = leading n"
proof -
  have "replica_set (leading n) (of_nat k) = {cfg_id (cfg n)}" if "0 < k" "k \<le> length (n_log n) + 1" for k
  proof -
    have "(of_nat k :: u64) \<noteq> 0" using that assms(3) unat_of_nat_small [of k] by force
    then show ?thesis by (auto simp: replica_set_def leading_def)
  qed
  then have "card (replica_set (leading n) (of_nat k)) < quorum (leading n)" if "0 < k" "k \<le> length (n_log n) + 1" for k
    using that assms(1) by (simp add: quorum_def leading_def)
  note few = this
  have len: "length (n_log (leading n)) = length (n_log n) + 1" by (simp add: leading_def)
  have "k \<notin> committable (leading n)" for k
  proof
    assume "k \<in> committable (leading n)"
    then have "0 < k" "k \<le> length (n_log n) + 1" "card (replica_set (leading n) (of_nat k)) \<ge> quorum (leading n)"
      unfolding committable_def len by auto
    then show False using few [of k] by simp
  qed
  then have "committable (leading n) = {}" by blast
  then show ?thesis by (simp add: committed_up_def)
qed

lemma become_leader_eq:
  assumes rn: "ready mem_view mem_ok n" and N: "1 < cluster_size (cfg n)"
    and run: "become_leader mem_ops n now = Some (n', out)"
  shows "n' = (leading n)\<lparr>heartbeat_deadline := now + heartbeat_interval (cfg n)\<rparr>"
    and "p_log (store n') = n_log n @ [noop_of (n_term n)]"
    and "out = map (\<lambda>p. \<lparr>to = p, message = AppendEntries (n_term n) (last_index n) (last_entry_term (n_log n))
             (take (max_batch (cfg n)) [noop_of (n_term n)]) (commit_index n)\<rparr>) (peers n)"
proof -
  note R = readyD [OF rn]
  let ?N = "cluster_size (cfg n)"
  let ?l = "\<lambda>nx. n\<lparr>role := Leader, leader_id := Some (cfg_id (cfg n)), next_index := replicate ?N nx, match_index := replicate ?N 0\<rparr>"
  obtain nx hb l1 l2 where nx: "add64 (last_index n) 1 = Some nx"
    and la: "log_append mem_ops (?l nx) [noop_of (n_term n)] = Some l1"
    and ac: "advance_commit l1 = Some l2" and hb: "add64 now (heartbeat_interval (cfg l2)) = Some hb"
    and br: "broadcast_append (l2\<lparr>heartbeat_deadline := hb\<rparr>) = Some out" and n': "n' = l2\<lparr>heartbeat_deadline := hb\<rparr>"
    using run unfolding become_leader_def Let_def by (auto simp: bind_eq_Some_conv noop_of_def)
  have nxv: "nx = of_nat (length (n_log n) + 1)"
    using add64_SomeD [OF nx] by (simp add: last_index_def)
  have unx: "unat nx = length (n_log n) + 1"
    using add64_Some_unat [OF nx] unat_last_index [OF R(8)] by simp
  have rl: "ready mem_view mem_ok (?l nx)"
    using R unx by (simp add: ready_def node_ok_def indices_ok_def log_fits_def)
  have room: "length (n_log n) + 1 < vec_cap"
    using log_append_SomeD [OF la] by (auto simp: log_fits_def)
  note l1 = log_append_one [OF rl la]
  have lead: "l1 = leading n" using l1(1) by (simp add: leading_def nxv)
  have l2: "l2 = leading n"
    using advance_commit_eq [OF l1(2) ac] committed_up_leading [OF N R(3) room] lead by simp
  have hbv: "hb = now + heartbeat_interval (cfg n)"
    using add64_SomeD [OF hb] by (simp add: l2 leading_def)
  show n'': "n' = (leading n)\<lparr>heartbeat_deadline := now + heartbeat_interval (cfg n)\<rparr>"
    by (simp add: n' l2 hbv)
  show "p_log (store n') = n_log n @ [noop_of (n_term n)]"
    by (simp add: n'' leading_def with_entry_def)
  have "out = map (entries_for n') (peers n)"
    using broadcast_eq [OF br] by (simp add: n' l2 leading_def with_entry_def peers_def)
  moreover have "entries_for n' p = \<lparr>to = p, message = AppendEntries (n_term n) (last_index n) (last_entry_term (n_log n))
             (take (max_batch (cfg n)) [noop_of (n_term n)]) (commit_index n)\<rparr>" if "p \<in> set (peers n)" for p
    using that unx nxv by (simp add: entries_for_def Let_def n'' leading_def with_entry_def last_index_def set_peers)
  ultimately show "out = map (\<lambda>p. \<lparr>to = p, message = AppendEntries (n_term n) (last_index n) (last_entry_term (n_log n))
             (take (max_batch (cfg n)) [noop_of (n_term n)]) (commit_index n)\<rparr>) (peers n)"
    by simp
qed

text \<open>
  C17: Winning an election.  A granted vote of its term counts for a candidate, once for each
  voter; with a majority of the cluster the candidate leads: it appends an empty entry of its term to its
  log and its storage, takes every other node to hold the log before it, commits nothing, and
  sends each of them that entry.  Any other vote changes nothing, except that one from a newer
  term makes the node a follower of that term.
\<close>

theorem leadership_rule:
  assumes "ready mem_view mem_ok n" and "src \<noteq> cfg_id (cfg n)" and "src < cluster_size (cfg n)"
    and "handle mem_ops n now src (VoteResponse t g) = Some (n', out)"
  shows "if n_term n < t then role n' = Follower \<and> n_term n' = t \<and> voted_for n' = None \<and> n_log n' = n_log n \<and> out = []
    else if role n = Candidate \<and> t = n_term n \<and> g then
      (let m = n\<lparr>votes := (votes n)[src := True]\<rparr> in
       if card (insert src (voters n)) > cluster_size (cfg n) div 2 then
         n' = (leading m)\<lparr>heartbeat_deadline := now + heartbeat_interval (cfg n)\<rparr>
         \<and> p_log (store n') = n_log n @ [noop_of (n_term n)]
         \<and> out = map (\<lambda>p. \<lparr>to = p, message = AppendEntries (n_term n) (last_index n) (last_entry_term (n_log n))
             (take (max_batch (cfg n)) [noop_of (n_term n)]) (commit_index n)\<rparr>) (peers n)
       else n' = m \<and> out = [])
    else n' = n \<and> out = []"
proof -
  note R = readyD [OF assms(1)]
  obtain n1 where ad: "adopted t n n1" and run: "on_vote_response mem_ops n1 now src t g = Some (n', out)"
    using handle_adopted [OF assms] by auto
  show ?thesis
  proof (cases "n_term n < t")
    case True
    then have "role n1 = Follower" "n_term n1 = t" "voted_for n1 = None" "n_log n1 = n_log n"
      using ad by (auto simp: adopted_def max_def)
    then show ?thesis using True run by (simp add: on_vote_response_def)
  next
    case False
    then have n1: "n1 = n" using ad by (simp add: adopted_def)
    show ?thesis
    proof (cases "role n = Candidate \<and> t = n_term n \<and> g")
      case no: False
      then show ?thesis using False run n1 by (auto simp: on_vote_response_def)
    next
      case yes: True
      let ?m = "n\<lparr>votes := (votes n)[src := True]\<rparr>"
      have rm: "ready mem_view mem_ok ?m" by (rule ready_votes [OF assms(1)]) simp
      have won: "vote_count ?m \<ge> quorum ?m \<longleftrightarrow> card (insert src (voters n)) > cluster_size (cfg n) div 2"
        using voters_insert [of src n] R(5) assms(3) by (auto simp: vote_count_voters quorum_def)
      have "vec_set (votes n) src True = Some ((votes n)[src := True])"
        using R(5) assms(3) by (simp add: panic_simps)
      then have step: "(if vote_count ?m \<ge> quorum ?m then become_leader mem_ops ?m now else Some (?m, [])) = Some (n', out)"
        using run yes unfolding n1 on_vote_response_def by (simp add: Let_def)
      show ?thesis
      proof (cases "vote_count ?m \<ge> quorum ?m")
        case False
        then show ?thesis using step yes won \<open>\<not> n_term n < t\<close> by (simp add: Let_def)
      next
        case True
        then have bl: "become_leader mem_ops ?m now = Some (n', out)" using step by simp
        note B = become_leader_eq [OF rm _ bl]
        show ?thesis using B True won yes \<open>\<not> n_term n < t\<close> assms(2,3) R(3) peers_cong [of ?m n]
          by (auto simp: Let_def)
      qed
    qed
  qed
qed

text \<open>Node 0 of three stands in term 1 and gets the vote of node 1.\<close>

theorem leadership_rule_witness:
  "\<exists>n' out. handle mem_ops (campaigning (fresh_node 0 3) 0 0) 0 1 (VoteResponse 1 True) = Some (n', out)
    \<and> role n' = Leader \<and> n_log n' = [noop_of 1]
    \<and> out = map (\<lambda>p. \<lparr>to = p, message = AppendEntries 1 0 0 [noop_of 1] 0\<rparr>) [1, 2]"
proof -
  let ?n = "campaigning (fresh_node 0 3) 0 0"
  note F = fresh_node [of 0 3]
  have r: "ready mem_view mem_ok ?n" using campaigning_ready [OF F(1)] by simp
  have f: "role ?n = Candidate" "n_term ?n = 1" "n_log ?n = []" "cfg ?n = config_new 0 3 7" "commit_index ?n = 0"
    "votes ?n = (replicate 3 False)[0 := True]"
    using F(2-7) by (simp_all add: campaigning_def config_new_def)
  have v: "card (insert 1 (voters ?n)) = 2"
  proof -
    have "voters ?n = {0}" unfolding voters_def f(6) by (auto simp: nth_list_update split: if_splits)
    then show ?thesis by simp
  qed
  obtain n' out where h: "handle mem_ops ?n 0 1 (VoteResponse 1 True) = Some (n', out)"
    using mem.handle_total [OF r, of 0 "VoteResponse 1 True" 1] f by (auto simp: vec_cap_def)
  have "(1 :: nat) \<noteq> cfg_id (cfg ?n)" "1 < cluster_size (cfg ?n)" using f(4) by (simp_all add: config_new_def)
  moreover have "peers ?n = [1, 2]" using f(4) by (simp add: peers_def config_new_def upt_rec)
  ultimately show ?thesis
    using leadership_rule [OF r _ _ h] h f v by (simp add: Let_def config_new_def leading_def last_index_def last_entry_term_def)
qed

text \<open>A leader of one node, whose commit index lags behind its log.\<close>

definition lone_leader :: "mem_storage node" where
  "lone_leader = (booted 0 1 one_entry)\<lparr>role := Leader\<rparr>"

lemma lone_leader:
  "ready mem_view mem_ok lone_leader" "role lone_leader = Leader" "n_term lone_leader = 1"
  "n_log lone_leader = [\<lparr>e_term = 1, command = [9]\<rparr>]" "commit_index lone_leader = 0"
  "cfg lone_leader = config_new 0 1 7" "applied_index lone_leader = 0"
proof -
  obtain r d where b: "booted 0 1 one_entry
    = \<lparr>cfg = config_new 0 1 7, store = one_entry, n_term = 1, voted_for = None,
       n_log = [\<lparr>e_term = 1, command = [9]\<rparr>],
       role = Follower, leader_id = None, commit_index = 0, applied_index = 0,
       votes = replicate 1 False, next_index = replicate 1 1,
       match_index = replicate 1 0, election_deadline = d, heartbeat_deadline = 0, rng = r\<rparr>"
    using booted_eq [of 0 1 one_entry] by (auto simp: one_entry_def)
  show "ready mem_view mem_ok lone_leader" "role lone_leader = Leader" "n_term lone_leader = 1"
    "n_log lone_leader = [\<lparr>e_term = 1, command = [9]\<rparr>]" "commit_index lone_leader = 0"
    "cfg lone_leader = config_new 0 1 7" "applied_index lone_leader = 0"
    unfolding lone_leader_def b using one_entry
    by (simp_all add: ready_def node_ok_def indices_ok_def log_fits_def config_new_def mem_view_def vec_cap_def one_entry_def)
qed

theorem commit_rule_witness:
  "\<exists>n'. advance_commit lone_leader = Some n' \<and> n' = lone_leader\<lparr>commit_index := 1\<rparr>"
proof -
  note L = lone_leader
  obtain n' where n': "advance_commit lone_leader = Some n'"
    using advance_commit_total readyD(7,8,10) [OF L(1)] by blast
  have "committable lone_leader = {1}"
    using L(3-6) by (auto simp: committable_def replica_set_def quorum_def config_new_def card_insert_if)
  then show ?thesis using commit_rule [OF L(1) n'] n' by simp
qed

theorem propose_rule_witness:
  "(\<exists>n' r. propose mem_ops lone_leader 0 [5] = Some (n', r) \<and> length (n_log n') = 2)
    \<and> (\<exists>n' r. propose mem_ops (fresh_node 0 3) 0 [5] = Some (n', r) \<and> r = Inl (NotLeader (leader_id n')))"
proof (intro conjI)
  note L = lone_leader
  obtain n' r where p: "propose mem_ops lone_leader 0 [5] = Some (n', r)"
    using mem.propose_total [OF L(1), where now = 0 and cmd = "[5]"] L(4,6) by (auto simp: vec_cap_def config_new_def)
  then show "\<exists>n' r. propose mem_ops lone_leader 0 [5] = Some (n', r) \<and> length (n_log n') = 2"
    using propose_rule [OF L(1) p, unfolded L(2,4) simp_thms if_False, THEN conjunct1] p by simp
  have F: "ready mem_view mem_ok (fresh_node 0 3)" "role (fresh_node 0 3) = Follower"
    "cfg (fresh_node 0 3) = config_new 0 3 7" "n_log (fresh_node 0 3) = []"
    using fresh_node [of 0 3] by simp_all
  obtain m q where q: "propose mem_ops (fresh_node 0 3) 0 [5] = Some (m, q)"
    using mem.propose_total [OF F(1), where now = 0 and cmd = "[5]"] F(3,4) by (auto simp: vec_cap_def config_new_def)
  then show "\<exists>n' r. propose mem_ops (fresh_node 0 3) 0 [5] = Some (n', r) \<and> r = Inl (NotLeader (leader_id n'))"
    using propose_rule [OF F(1) q] F(2) by simp
qed

section \<open>A cluster of one\<close>

text \<open>
  C20: A node that is alone elects itself when its deadline passes, appends the entry of its
  term and commits its whole log at once, without sending anything.
\<close>

theorem lone_node_commits:
  assumes "ready mem_view mem_ok n" and "cluster_size (cfg n) = 1" and "role n \<noteq> Leader"
    and "election_deadline n \<le> now" and "tick mem_ops n now = Some (n', out)"
  shows "role n' = Leader \<and> n_term n' = n_term n + 1 \<and> out = []
    \<and> n_log n' = n_log n @ [\<lparr>e_term = n_term n + 1, command = []\<rparr>]
    \<and> commit_index n' = last_index n' \<and> p_log (store n') = n_log n'"
proof -
  note R = readyD [OF assms(1)]
  obtain m r d where m: "m = campaigning n r d"
    and rest: "(if vote_count m \<ge> quorum m then become_leader mem_ops m now
      else do { lt \<leftarrow> last_term m;
        Some (m, map (\<lambda>p. \<lparr>to = p, message = RequestVote (n_term m) (last_index m) lt\<rparr>) (peers m)) }) = Some (n', out)"
    using tick_campaign [OF assms(1,3,4,5)] by blast
  have i: "cfg_id (cfg n) = 0" using R(3) assms(2) by simp
  have lone: "cluster_size (cfg m) = 1" "cfg_id (cfg m) = 0" using assms(2) i by (simp_all add: m campaigning_def)
  have "vote_count m = 1" "quorum m = 1"
    using assms(2) i by (simp_all add: m campaigning_def vote_count_def quorum_def)
  then have run: "become_leader mem_ops m now = Some (n', out)" using rest by simp
  obtain nx hb l1 l2 where la: "log_append mem_ops (m\<lparr>role := Leader, leader_id := Some 0,
        next_index := replicate 1 nx, match_index := replicate 1 0\<rparr>) [\<lparr>e_term = n_term m, command = []\<rparr>] = Some l1"
    and nx: "add64 (last_index m) 1 = Some nx"
    and ac: "advance_commit l1 = Some l2"
    and br: "broadcast_append (l2\<lparr>heartbeat_deadline := hb\<rparr>) = Some out" and n': "n' = l2\<lparr>heartbeat_deadline := hb\<rparr>"
    using run lone unfolding become_leader_def Let_def by (auto simp: bind_eq_Some_conv)
  let ?l = "m\<lparr>role := Leader, leader_id := Some 0, next_index := replicate 1 nx, match_index := replicate 1 0\<rparr>"
  have rm: "ready mem_view mem_ok m" unfolding m by (rule campaigning_ready [OF assms(1)])
  note M = readyD [OF rm]
  have "ready mem_view mem_ok ?l"
    using M lone add64_Some_unat [OF nx] unat_last_index [OF M(8)]
    by (simp add: ready_def node_ok_def indices_ok_def log_fits_def)
  moreover have "length (n_log ?l) + length [\<lparr>e_term = n_term m, command = []\<rparr>] < vec_cap"
    using log_append_SomeD [OF la] by (auto simp: log_fits_def)
  ultimately obtain s where s: "l1 = ?l\<lparr>store := s, n_log := n_log m @ [\<lparr>e_term = n_term m, command = []\<rparr>]\<rparr>"
    "ready mem_view mem_ok l1"
    using mem.log_append_total [of ?l "[\<lparr>e_term = n_term m, command = []\<rparr>]"] la by auto
  let ?k = "length (n_log m) + 1"
  have f: "n_log l1 = n_log m @ [\<lparr>e_term = n_term m, command = []\<rparr>]" "n_term l1 = n_term m"
    "commit_index l1 = commit_index m" "cfg l1 = cfg m" "match_index l1 = [0]"
    unfolding s(1) by simp_all
  have "replica_set l1 (of_nat ?k) = {0}" using lone unfolding replica_set_def f by auto
  then have card: "card (replica_set l1 (of_nat ?k)) = 1" by simp
  have q: "quorum l1 = 1" using lone by (simp add: quorum_def f)
  have mem: "?k \<in> committable l1"
    unfolding committable_def
  proof (intro CollectI conjI allI impI)
    fix j assume "?k \<le> j \<and> j \<le> length (n_log l1)"
    then have "j = ?k" using f(1) by simp
    then show "e_term (n_log l1 ! (j - 1)) = n_term l1" using f(1,2) by simp
  qed (use M(10) f card q in simp_all)
  have up: "j \<le> ?k" if "j \<in> committable l1" for j using that f(1) by (simp add: committable_def)
  have fin: "finite (committable l1)"
    by (rule finite_subset [of _ "{..?k}"]) (use up in auto)
  have "Max (committable l1) = ?k" by (rule Max_eqI [OF fin up mem])
  moreover have "committable l1 \<noteq> {}" using mem by blast
  ultimately have l2: "l2 = l1\<lparr>commit_index := of_nat ?k\<rparr>" using advance_commit_max(2) [OF s(2) ac] by simp
  have "peers n' = []" using lone by (simp add: n' l2 s(1) peers_def)
  then have "out = []" using br unfolding n' [symmetric] by (simp add: broadcast_append_def)
  then show ?thesis
    using ready_store [OF s(2)] by (simp add: n' l2 s(1) last_index_def m campaigning_def)
qed

theorem lone_node_commits_witness:
  "\<exists>n' out. tick mem_ops (fresh_node 0 1) 300 = Some (n', out) \<and> role n' = Leader \<and> commit_index n' = last_index n'"
proof -
  have F: "ready mem_view mem_ok (fresh_node 0 1)" "role (fresh_node 0 1) = Follower"
    "cfg (fresh_node 0 1) = config_new 0 1 7" "n_log (fresh_node 0 1) = []" "n_term (fresh_node 0 1) = 0"
    "election_deadline (fresh_node 0 1) \<le> 300"
    using fresh_node [of 0 1] by (simp_all add: word_le_nat_alt)
  obtain n' out where t: "tick mem_ops (fresh_node 0 1) 300 = Some (n', out)"
    using mem.tick_total [OF F(1), of 300] F(3-5) by (auto simp: vec_cap_def)
  show ?thesis
    using lone_node_commits [OF F(1) _ _ F(6) t] t F(2,3) by (simp add: config_new_def)
qed

section \<open>Timers\<close>

text \<open>
  The election deadline is drawn within the configured range after the current time,
  both ends included, whatever the state of the random generator.
\<close>

theorem election_deadline_range:
  assumes "clock_ok (cfg n) now"
  shows "\<exists>r d. reset_election_timer n now = Some (n\<lparr>rng := r, election_deadline := d\<rparr>)
    \<and> unat now + unat (fst (election_timeout (cfg n))) \<le> unat d
    \<and> unat d \<le> unat now + unat (snd (election_timeout (cfg n)))"
  using reset_election_timer_defined [of n "fst (election_timeout (cfg n))" "snd (election_timeout (cfg n))" now]
    assms unfolding clock_ok_def by auto

theorem election_deadline_range_witness:
  "\<exists>n'. reset_election_timer (fresh_node 0 3) 1000 = Some n'
    \<and> 1150 \<le> unat (election_deadline n') \<and> unat (election_deadline n') \<le> 1300"
proof -
  have "clock_ok (cfg (fresh_node 0 3)) 1000" using fresh_node(2) [of 0 3] by simp
  from election_deadline_range [OF this] show ?thesis
    using fresh_node(2) [of 0 3] by (auto simp: config_new_def)
qed

end
