(* ===== verification/Node_Limits.thy ===== *)
theory Node_Limits
  imports Node_Rules
begin

text \<open>
  Two places where the node does not do what its documentation says, as concrete executions
  evaluated by the kernel.
\<close>

text \<open>
  The messages a leader of term 1 with \<open>max_batch = 1\<close> sends to a follower whose
  acknowledgements are slow, when three entries are committed: the first entry, then the second.
\<close>

definition cmd_entry :: "u8 \<Rightarrow> entry" where
  "cmd_entry c = \<lparr>e_term = 1, command = [c]\<rparr>"

definition first_batch :: message where
  "first_batch = AppendEntries 1 0 0 [cmd_entry 1] 3"

definition second_batch :: message where
  "second_batch = AppendEntries 1 1 1 [cmd_entry 2] 3"

text \<open>
  A follower receives the two batches, delivers, receives a duplicate of the first, delivers,
  receives a duplicate of the second, and delivers.  The result is its commit index after the
  second and third message and the indices of the three deliveries.
\<close>

definition duplicated_batches :: "(u64 \<times> u64 \<times> u64 list \<times> u64 list \<times> u64 list) option" where
  "duplicated_batches = do {
     n0 \<leftarrow> node_new mem_ops (config_new 1 3 7) empty_persistent 0;
     (n1, _) \<leftarrow> handle mem_ops n0 10 0 first_batch;
     (n2, _) \<leftarrow> handle mem_ops n1 11 0 second_batch;
     (n3, d1) \<leftarrow> take_committed n2;
     (n4, _) \<leftarrow> handle mem_ops n3 12 0 first_batch;
     (n5, d2) \<leftarrow> take_committed n4;
     (n6, _) \<leftarrow> handle mem_ops n5 13 0 second_batch;
     (n7, d3) \<leftarrow> take_committed n6;
     Some (commit_index n2, commit_index n4, map fst d1, map fst d2, map fst d3) }"

text \<open>
  The commit index of a follower can move backwards: \<open>on_append_entries\<close> sets it to the
  end of the message's entries, which for a duplicate can be below the current commit index
  (\<open>Delivery\<close> says exactly when).  After that \<open>take_committed\<close> hands entry 2 to the state machine a second time.
\<close>

theorem commit_index_moves_back:
  "duplicated_batches = Some (2, 1, [1, 2], [], [2])"
  by code_simp

text \<open>
  A message that names the largest term makes the node adopt it, and its next election
  then overflows the term: with overflow checks on, the node panics.
\<close>

definition largest_term :: "(u64 \<times> bool) option" where
  "largest_term = do {
     n0 \<leftarrow> node_new mem_ops (config_new 1 3 7) empty_persistent 0;
     (n1, _) \<leftarrow> handle mem_ops n0 10 0 (VoteResponse 0xFFFFFFFFFFFFFFFF False);
     Some (n_term n1, case tick mem_ops n1 1000 of None \<Rightarrow> True | Some _ \<Rightarrow> False) }"

theorem largest_term_panics: "largest_term = Some (0xFFFFFFFFFFFFFFFF, True)"
  by code_simp

end
