(* ===== verification/Progress.thy ===== *)
theory Progress
  imports Safety Node_Total
begin

text \<open>
  A cluster on \<open>MemStorage\<close> never panics: in every state reached by actions that had room,
  every action that has room again is performed.  Room is what the integer types of the code
  need: a clock, a term and a log below their limits.
\<close>

section \<open>The traced storage\<close>

lemma write_top_total: "l \<noteq> [] \<Longrightarrow> \<exists>s. f (hd l) = Some s \<Longrightarrow> \<exists>l'. write_top f l = Some l'"
  by (cases l) auto

context total_storage
begin

lemma traced_total: "total_storage (traced ops) (top_view view) (top_ok ok)"
proof (intro total_storage.intro traced_storage total_storage_axioms.intro)
  fix l assume "top_ok ok l"
  then show "\<exists>s' p. load (traced ops) l = Some (s', p)"
    using load_total [of "hd l"] by (cases l) (auto simp: top_ok_def)
next
  fix l and t v assume "top_ok ok l"
  then show "\<exists>s'. save_hard_state (traced ops) l t v = Some s'"
    using save_total [of "hd l"] by (simp add: top_ok_def write_top_total)
next
  fix l and es :: "entry list" assume "top_ok ok l" "length (p_log (top_view view l)) + length es < vec_cap"
  then show "\<exists>s'. append_entries (traced ops) l es = Some s'"
    using append_total [of "hd l" es] by (simp add: top_ok_def top_view_def write_top_total)
next
  fix l and i assume "top_ok ok l"
  then show "\<exists>s'. truncate_from (traced ops) l i = Some s'"
    using truncate_total [of "hd l"] by (simp add: top_ok_def write_top_total)
qed

end

lemma traced_node_simps [simp]:
  "cfg (traced_node n) = cfg n" "n_term (traced_node n) = n_term n" "n_log (traced_node n) = n_log n"
  "role (traced_node n) = role n" "store (traced_node n) = [store n]"
  by (simp_all add: traced_node_def)

lemma traced_ready: "ready view ok n \<Longrightarrow> ready (top_view view) (top_ok ok) (traced_node n)"
  by (simp add: ready_def node_ok_def indices_ok_def log_fits_def traced_node_def top_view_def top_ok_def)

lemma traced_msg_room: "msg_room n m \<Longrightarrow> msg_room (traced_node n) m"
  by (cases m) simp_all

section \<open>Actions with room\<close>

fun entries_of :: "message \<Rightarrow> entry list" where
  "entries_of (AppendEntries t p pt es lc) = es"
| "entries_of m = []"

fun action_room :: "nat \<Rightarrow> mem_storage world \<Rightarrow> action \<Rightarrow> bool" where
  "action_room N w (Tick i now) = (case up w i of None \<Rightarrow> False
     | Some n \<Rightarrow> clock_ok (cfg n) now \<and> length (n_log n) + 1 < vec_cap \<and> unat (n_term n) + 1 < 2 ^ 64)"
| "action_room N w (Receive src i m now) = (case up w i of None \<Rightarrow> False
     | Some n \<Rightarrow> (src, i, m) \<in> wire w \<and> clock_ok (cfg n) now
         \<and> length (n_log n) + 1 + length (entries_of m) < vec_cap)"
| "action_room N w (Propose i now cmd) = (case up w i of None \<Rightarrow> False
     | Some n \<Rightarrow> length (n_log n) + 1 < vec_cap \<and> max_batch (cfg n) \<le> 2 ^ 63)"
| "action_room N w (Deliver i) = (up w i \<noteq> None)"
| "action_room N w (Crash i) = (up w i \<noteq> None)"
| "action_room N w (Power_Loss act k) = (case act of
       Deliver i \<Rightarrow> False | Crash i \<Rightarrow> False | Power_Loss act' k' \<Rightarrow> False
     | _ \<Rightarrow> action_room N w act)"
| "action_room N w (Boot c now) = (up w (cfg_id c) = None \<and> cluster_size c = N \<and> cfg_id c < N \<and> clock_ok c now)"

inductive live_reach :: "nat \<Rightarrow> mem_storage world \<Rightarrow> bool" for N where
  lr_init: "N < 2 ^ 64 \<Longrightarrow> live_reach N (init_world empty_persistent)"
| lr_step: "live_reach N w \<Longrightarrow> action_room N w act \<Longrightarrow> sys_step mem_ops N act w = Some w' \<Longrightarrow> live_reach N w'"

lemma live_reach_mem: "live_reach N w \<Longrightarrow> mem_reach N w"
proof (induction rule: live_reach.induct)
  case lr_init
  then show ?case by (simp add: mem_reach_def sr_init)
qed (rule mem_reach_step)

definition live :: "mem_storage world \<Rightarrow> bool" where
  "live w \<longleftrightarrow> (\<forall>i n. up w i = Some n \<longrightarrow> indices_ok n \<and> unat (applied_index n) < vec_cap)"

lemma mem_ready:
  assumes "mem_reach N w" and "live w" and "up w i = Some n"
  shows "ready mem_view mem_ok n" and "cfg_id (cfg n) = i" and "cluster_size (cfg n) = N"
proof -
  obtain a where a: "world_rel mem_view mem_ok N w a" using mem_reach_rel [OF assms(1)] by blast
  note O = relatedD(1) [OF site_up [OF world_relD(2) [OF a] assms(3)]]
  show id: "cfg_id (cfg n) = i" and N: "cluster_size (cfg n) = N" using node_okD(3,4) [OF O] by simp_all
  show "ready mem_view mem_ok n"
    using O assms(2,3) commit_in_log [OF a assms(3)] unfolding ready_def live_def by (simp add: id N)
qed

text \<open>A message in the network has the room its handler needs.\<close>

lemma wire_room:
  assumes "mem_reach N w" and "(src, i, m) \<in> wire w" and "up w i = Some n" and "src \<noteq> i"
    and "length (n_log n) + 1 + length (entries_of m) < vec_cap"
  shows "msg_room n m"
proof -
  obtain a where a: "world_rel mem_view mem_ok N w a" using mem_reach_rel [OF assms(1)] by blast
  have sim: "msg_sim src i m (net a)" by (rule world_relD(3) [OF a assms(2)])
  show ?thesis
  proof (cases m)
    case (AppendEntries t p pt es lc)
    then show ?thesis using append_to_leader [OF a _ assms(3)] assms(2,4,5) by auto
  next
    case (AppendResponse t g h)
    then show ?thesis using sim by (cases g) auto
  qed (use assms(5) in simp_all)
qed

lemma live_put:
  assumes "live w" and "up w i = Some n" and "fine n n'"
  shows "live (put_node i n' out w)"
  using assms unfolding live_def fine_def put_node_def by auto

text \<open>A message a node has room for can be handled, whoever it is from.\<close>

lemma wire_handled:
  assumes mr: "mem_reach N w" and lv: "live w" and n: "up w i = Some n" "(src, i, m) \<in> wire w" "clock_ok (cfg n) now"
    "length (n_log n) + 1 + length (entries_of m) < vec_cap"
  shows "\<exists>n' out. handle mem_ops n now src m = Some (n', out) \<and> fine n n'"
    and "\<exists>n' out. handle (traced mem_ops) (traced_node n) now src m = Some (n', out)"
proof -
  note rd = mem_ready [OF mr lv n(1)]
  have "(\<exists>n' out. handle mem_ops n now src m = Some (n', out) \<and> fine n n')
      \<and> (\<exists>n' out. handle (traced mem_ops) (traced_node n) now src m = Some (n', out))"
  proof (cases "src = i")
    case True
    then show ?thesis using rd(2) readyD(9) [OF rd(1)] by (simp add: handle_def fine_def)
  next
    case False
    note room = wire_room [OF mr n(2,1) False n(4)]
    show ?thesis
      using mem.handle_total [OF rd(1) n(3) room]
        total_storage.handle_total [OF mem.traced_total traced_ready [OF rd(1)] _ traced_msg_room [OF room]] n(3)
      by (simp only: traced_node_simps) blast
  qed
  then show "\<exists>n' out. handle mem_ops n now src m = Some (n', out) \<and> fine n n'"
    and "\<exists>n' out. handle (traced mem_ops) (traced_node n) now src m = Some (n', out)" by blast+
qed

text \<open>The disk of a node that is down is in order.\<close>

lemma down_disk:
  assumes mr: "mem_reach N w" and "up w i = None" and "i < N"
  shows "mem_ok (disk w i)"
proof -
  obtain a where a: "world_rel mem_view mem_ok N w a" using mem_reach_rel [OF mr] by blast
  show ?thesis using world_relD(2) [OF a, of i] assms(2,3) by (simp add: site_rel_def down_rel_def)
qed

lemma trace_total:
  assumes mr: "mem_reach N w" and lv: "live w" and room: "action_room N w (Power_Loss act k)"
  shows "\<exists>l. disk_trace mem_ops N act w = Some l"
proof (cases act)
  case (Tick i now)
  then obtain n where n: "up w i = Some n" "clock_ok (cfg n) now" "length (n_log n) + 1 < vec_cap" "unat (n_term n) + 1 < 2 ^ 64"
    using room by (auto split: option.splits)
  have "\<exists>n' out. tick (traced mem_ops) (traced_node n) now = Some (n', out)"
    using total_storage.tick_total [OF mem.traced_total traced_ready [OF mem_ready(1) [OF mr lv n(1)]]] n(2-4)
    by (simp only: traced_node_simps) blast
  then show ?thesis using n(1) Tick by auto
next
  case (Receive src i m now)
  then obtain n where n: "up w i = Some n" "(src, i, m) \<in> wire w" "clock_ok (cfg n) now"
    "length (n_log n) + 1 + length (entries_of m) < vec_cap"
    using room by (auto split: option.splits)
  then show ?thesis using wire_handled(2) [OF mr lv n] Receive by auto
next
  case (Propose i now cmd)
  then obtain n where n: "up w i = Some n" "length (n_log n) + 1 < vec_cap" "max_batch (cfg n) \<le> 2 ^ 63"
    using room by (auto split: option.splits)
  have "\<exists>n' r. propose (traced mem_ops) (traced_node n) now cmd = Some (n', r)"
    using total_storage.propose_total [OF mem.traced_total traced_ready [OF mem_ready(1) [OF mr lv n(1)]]] n(2,3)
    by (simp only: traced_node_simps) blast
  then show ?thesis using n(1) Propose by auto
next
  case (Boot c now)
  then have c: "up w (cfg_id c) = None" "cluster_size c = N" "cfg_id c < N" "clock_ok c now" using room by auto
  have "top_ok mem_ok [disk w (cfg_id c)]" using down_disk [OF mr c(1,3)] by simp
  then obtain n where "node_new (traced mem_ops) c [disk w (cfg_id c)] now = Some n"
    using total_storage.node_new_total [OF mem.traced_total] c(2-4) by blast
  then show ?thesis using c Boot by simp
qed (use room in simp_all)

text \<open>One step with room, on a state whose nodes are in order.\<close>

lemma live_step:
  assumes mr: "mem_reach N w" and lv: "live w" and room: "action_room N w act"
  shows "\<exists>w'. sys_step mem_ops N act w = Some w' \<and> live w'"
proof (cases act)
  case (Tick i now)
  then obtain n where n: "up w i = Some n" "clock_ok (cfg n) now" "length (n_log n) + 1 < vec_cap" "unat (n_term n) + 1 < 2 ^ 64"
    using room by (auto split: option.splits)
  obtain n' out where t: "tick mem_ops n now = Some (n', out)" "fine n n'"
    using mem.tick_total [OF mem_ready(1) [OF mr lv n(1)] n(2-4)] by blast
  then show ?thesis using live_put [OF lv n(1) t(2)] n(1) Tick by simp
next
  case (Receive src i m now)
  then obtain n where n: "up w i = Some n" "(src, i, m) \<in> wire w" "clock_ok (cfg n) now"
    "length (n_log n) + 1 + length (entries_of m) < vec_cap"
    using room by (auto split: option.splits)
  from wire_handled(1) [OF mr lv n]
  show ?thesis using live_put [OF lv n(1)] n(1,2) Receive by auto
next
  case (Propose i now cmd)
  then obtain n where n: "up w i = Some n" "length (n_log n) + 1 < vec_cap" "max_batch (cfg n) \<le> 2 ^ 63"
    using room by (auto split: option.splits)
  obtain n' r where t: "propose mem_ops n now cmd = Some (n', r)" "fine n n'"
    using mem.propose_total [OF mem_ready(1) [OF mr lv n(1)] n(2,3)] by blast
  then show ?thesis using live_put [OF lv n(1) t(2)] n(1) Propose by simp
next
  case (Deliver i)
  then obtain n where n: "up w i = Some n" using room by auto
  note R = readyD [OF mem_ready(1) [OF mr lv n]]
  obtain n' es where t: "take_committed n = Some (n', es)"
    using take_committed_total [OF R(10,8)] lv n unfolding live_def by blast
  have n': "n' = n\<lparr>applied_index := commit_index n\<rparr>" by (rule take_committed_SomeD(1) [OF t])
  have "indices_ok n' \<and> unat (applied_index n') < vec_cap"
    using R(8-10) unfolding n' by (simp add: indices_ok_def log_fits_def)
  then show ?thesis using lv n t Deliver unfolding live_def by auto
next
  case (Crash i)
  then show ?thesis using lv room unfolding live_def by auto
next
  case (Boot c now)
  then have c: "up w (cfg_id c) = None" "cluster_size c = N" "cfg_id c < N" "clock_ok c now" using room by auto
  have "mem_ok (disk w (cfg_id c))" by (rule down_disk [OF mr c(1,3)])
  then obtain n where "node_new mem_ops c (disk w (cfg_id c)) now = Some n" "role n = Follower" "applied_index n = 0"
    using mem.node_new_total [of _ c now] c(2-4) by blast
  then show ?thesis using lv c Boot unfolding live_def by (auto simp: indices_ok_follower vec_cap_def)
next
  case (Power_Loss act' k)
  then obtain l where "disk_trace mem_ops N act' w = Some l" using trace_total [OF mr lv] room by blast
  then show ?thesis using lv Power_Loss unfolding live_def by auto
qed

lemma live_reach_live: "live_reach N w \<Longrightarrow> live w"
proof (induction rule: live_reach.induct)
  case lr_init
  then show ?case by (simp add: live_def init_world_def)
next
  case (lr_step w act w')
  then show ?case using live_step [OF live_reach_mem [OF lr_step.hyps(1)] lr_step.IH lr_step.hyps(2)] lr_step.hyps(3) by simp
qed

text \<open>
  C12: No panics.  In a state a cluster reached by actions with room, every action with room is
  performed: no index is out of range, no arithmetic overflows, no assertion fires.
\<close>

theorem no_panic:
  assumes "live_reach N w" and "action_room N w act"
  shows "\<exists>w'. sys_step mem_ops N act w = Some w' \<and> live_reach N w'"
  using live_step [OF live_reach_mem [OF assms(1)] live_reach_live [OF assms(1)] assms(2)]
    lr_step [OF assms] by blast

theorem no_panic_witness:
  "\<exists>w'. sys_step mem_ops 3 (Boot (config_new 0 3 7) 0) (init_world empty_persistent) = Some w'
    \<and> live_reach 3 w'"
proof -
  have "live_reach 3 (init_world empty_persistent)" by (rule lr_init) simp
  then show ?thesis
    by (rule no_panic) (simp add: init_world_def config_new_def clock_ok_def word_le_nat_alt word_less_nat_alt)
qed

end
