(* ===== verification/Election.thy ===== *)
theory Election
  imports Progress Node_Rules
begin

text \<open>
  Elections come to an end.  When one node's election deadline passes, and it then exchanges
  one round of messages with a majority whose terms are not ahead and whose logs are not more
  up to date, it leads; if their logs are its own, a second round commits its whole log.  The
  schedules are explicit lists of actions of \<open>System\<close>, and every action of them is performed.
\<close>

section \<open>What the handlers do for a candidate\<close>

lemma map_opt_setD: "map_opt f xs = Some ys \<Longrightarrow> x \<in> set xs \<Longrightarrow> \<exists>y \<in> set ys. f x = Some y"
  by (induction xs arbitrary: ys) (auto simp: bind_eq_Some_conv)

text \<open>The message for a peer that is taken to have all but the last entry.\<close>

lemma append_for_last:
  assumes run: "append_for m p = Some o1" and nx: "next_index m ! p = nx" "sub64 nx 1 = Some pv" "unat pv = length L"
    and log: "n_log m = L @ [e]" and mb: "0 < max_batch (cfg m)"
  shows "o1 = \<lparr>to = p, message = AppendEntries (n_term m) pv (last_entry_term L) [e] (commit_index m)\<rparr>"
proof -
  have at: "term_at m pv = Some (last_entry_term L)"
    by (rule term_at_end [OF nx(3) log])
  obtain lim es where lim: "addsz (length L) (max_batch (cfg m)) = Some lim"
    and es: "vec_slice (L @ [e]) (length L) (min (Suc (length L)) lim) = Some es"
    and o1: "o1 = \<lparr>to = p, message = AppendEntries (n_term m) pv (last_entry_term L) es (commit_index m)\<rparr>"
    using run nx log at by (auto simp: append_for_def bind_eq_Some_conv Let_def dest!: vec_get_SomeD)
  have "min (Suc (length L)) lim = Suc (length L)" using addsz_SomeD [OF lim] mb by simp
  then have "es = [e]" using vec_slice_SomeD [OF es] by simp
  then show ?thesis using o1 by simp
qed

text \<open>The node leads its term with one entry added to the log \<open>L\<close>, and has sent it to all others.\<close>

definition leads_on :: "mem_storage node \<Rightarrow> u64 \<Rightarrow> entry list \<Rightarrow> bool" where
  "leads_on n t L \<longleftrightarrow> role n = Leader \<and> n_term n = t \<and> n_log n = L @ [noop_of t]"

lemma become_leader_result:
  assumes n: "ready mem_view mem_ok n" and run: "become_leader mem_ops n now = Some (n', out)"
  shows "leads_on n' (n_term n) (n_log n) \<and> cfg n' = cfg n \<and> ready mem_view mem_ok n'
    \<and> match_index n' = replicate (cluster_size (cfg n)) 0
    \<and> (\<exists>c. 0 < max_batch (cfg n) \<longrightarrow> (\<forall>p \<in> set (peers n).
         \<lparr>to = p, message = AppendEntries (n_term n) (last_index n) (last_entry_term (n_log n)) [noop_of (n_term n)] c\<rparr> \<in> set out))"
proof -
  note R = readyD [OF n]
  obtain nx hb l1 l2 where la: "log_append mem_ops (n\<lparr>role := Leader, leader_id := Some (cfg_id (cfg n)),
        next_index := replicate (cluster_size (cfg n)) nx, match_index := replicate (cluster_size (cfg n)) 0\<rparr>)
        [noop_of (n_term n)] = Some l1"
    and nx: "add64 (last_index n) 1 = Some nx"
    and ac: "advance_commit l1 = Some l2"
    and br: "broadcast_append (l2\<lparr>heartbeat_deadline := hb\<rparr>) = Some out" and n': "n' = l2\<lparr>heartbeat_deadline := hb\<rparr>"
    using run unfolding become_leader_def Let_def by (auto simp: bind_eq_Some_conv noop_of_def)
  let ?l = "n\<lparr>role := Leader, leader_id := Some (cfg_id (cfg n)),
        next_index := replicate (cluster_size (cfg n)) nx, match_index := replicate (cluster_size (cfg n)) 0\<rparr>"
  have nx': "unat nx = length (n_log n) + 1"
    using add64_Some_unat [OF nx] unat_last_index [OF R(8)] by simp
  have "ready mem_view mem_ok ?l"
    using R nx' by (simp add: ready_def node_ok_def indices_ok_def log_fits_def)
  moreover have "length (n_log ?l) + length [noop_of (n_term n)] < vec_cap"
    using log_append_SomeD [OF la] by (auto simp: log_fits_def)
  ultimately obtain s where s: "l1 = ?l\<lparr>store := s, n_log := n_log n @ [noop_of (n_term n)]\<rparr>"
    "ready mem_view mem_ok l1"
    using mem.log_append_total [of ?l "[noop_of (n_term n)]"] la by auto
  obtain k where k: "l2 = l1\<lparr>commit_index := k\<rparr>" "unat (commit_index l1) \<le> length (n_log l1) \<longrightarrow> unat k \<le> length (n_log l1)"
    using advance_commit_fields [OF ac readyD(8) [OF s(2)]] by blast
  have rn': "ready mem_view mem_ok n'"
    using s(2) k(2) readyD [OF s(2)] unfolding n' k(1) by (simp add: ready_def node_ok_def indices_ok_def log_fits_def)
  have sent: "\<lparr>to = p, message = AppendEntries (n_term n) (last_index n) (last_entry_term (n_log n)) [noop_of (n_term n)] (commit_index n')\<rparr> \<in> set out"
    if p: "p \<in> set (peers n)" and mb: "0 < max_batch (cfg n)" for p
  proof -
    have "p \<in> set (peers n')" using p by (simp add: n' k(1) s(1) peers_def)
    then obtain o1 where o1: "o1 \<in> set out" "append_for n' p = Some o1"
      using map_opt_setD [OF br [unfolded broadcast_append_def n' [symmetric]]] by blast
    have pn: "p < cluster_size (cfg n)" using p by (simp add: set_peers)
    have f: "next_index n' ! p = nx" "n_log n' = n_log n @ [noop_of (n_term n)]" "n_term n' = n_term n"
      "length (next_index n') = cluster_size (cfg n)" "max_batch (cfg n') = max_batch (cfg n)"
      using pn by (simp_all add: n' k(1) s(1))
    have pv: "sub64 nx 1 = Some (last_index n)"
      using add64_SomeD [OF nx] nx' by (simp add: sub64_def word_le_nat_alt)
    have "o1 = \<lparr>to = p, message = AppendEntries (n_term n) (last_index n) (last_entry_term (n_log n)) [noop_of (n_term n)] (commit_index n')\<rparr>"
      using append_for_last [OF o1(2) f(1) pv unat_last_index [OF R(8)] f(2)] mb f(3,5)
      by simp
    then show ?thesis using o1(1) by simp
  qed
  have "leads_on n' (n_term n) (n_log n) \<and> cfg n' = cfg n \<and> match_index n' = replicate (cluster_size (cfg n)) 0"
    by (simp add: leads_on_def n' k(1) s(1))
  then show ?thesis using rn' sent by blast
qed

text \<open>
  Node \<open>i\<close> stands for election in term \<open>t\<close> with the log \<open>L\<close> and the votes \<open>V\<close>, or has won
  it and told everyone.
\<close>

definition wins :: "mem_storage world \<Rightarrow> nodeid \<Rightarrow> mem_storage node \<Rightarrow> u64 \<Rightarrow> entry list \<Rightarrow> bool" where
  "wins w i m t L \<longleftrightarrow> leads_on m t L \<and> match_index m = replicate (cluster_size (cfg m)) 0
     \<and> (\<exists>k. 0 < max_batch (cfg m) \<longrightarrow> (\<forall>p < cluster_size (cfg m). p \<noteq> i \<longrightarrow>
          (i, p, AppendEntries t (of_nat (length L)) (last_entry_term L) [noop_of t] k) \<in> wire w))"

definition stands :: "mem_storage world \<Rightarrow> nodeid \<Rightarrow> config \<Rightarrow> u64 \<Rightarrow> entry list \<Rightarrow> nodeid set \<Rightarrow> bool" where
  "stands w i c t L V \<longleftrightarrow> (\<exists>m. up w i = Some m \<and> cfg m = c \<and> n_term m = t
     \<and> (role m = Candidate \<and> n_log m = L \<and> V \<subseteq> voters m \<and> vote_count m < quorum m \<or> wins w i m t L))"

lemma standsE [consumes 1, case_names stands wins]:
  assumes "stands w i c t L V"
  obtains m where "up w i = Some m" and "cfg m = c" and "n_term m = t"
      and "role m = Candidate" and "n_log m = L" and "V \<subseteq> voters m" and "vote_count m < quorum m"
    | m where "up w i = Some m" and "cfg m = c" and "n_term m = t" and "wins w i m t L"
  using assms unfolding stands_def by blast

lemma stands_candidate:
  "up w i = Some m \<Longrightarrow> role m = Candidate \<Longrightarrow> V \<subseteq> voters m \<Longrightarrow> vote_count m < quorum m \<Longrightarrow>
    stands w i (cfg m) (n_term m) (n_log m) V"
  unfolding stands_def by blast

lemma wins_stands: "up w i = Some m \<Longrightarrow> wins w i m (n_term m) L \<Longrightarrow> stands w i (cfg m) (n_term m) L V"
  unfolding stands_def by blast

lemma wins_mono: "wins w i m t L \<Longrightarrow> wire w \<subseteq> wire w' \<Longrightarrow> wins w' i m t L"
  unfolding wins_def by (elim conjE exE, intro conjI exI, assumption+) blast

lemma stands_put_leader:
  assumes n: "ready mem_view mem_ok m" and id: "cfg_id (cfg m) = i"
    and run: "become_leader mem_ops m now = Some (n', out)"
  shows "stands (put_node i n' out w) i (cfg m) (n_term m) (n_log m) V"
proof -
  note B = become_leader_result [OF n run]
  obtain k where k: "0 < max_batch (cfg m) \<longrightarrow> (\<forall>p \<in> set (peers m).
      \<lparr>to = p, message = AppendEntries (n_term m) (last_index m) (last_entry_term (n_log m)) [noop_of (n_term m)] k\<rparr> \<in> set out)"
    using B by (elim conjE exE)
  have "(i, p, AppendEntries (n_term m) (of_nat (length (n_log m))) (last_entry_term (n_log m)) [noop_of (n_term m)] k)
      \<in> wire (put_node i n' out w)" if "0 < max_batch (cfg m)" "p < cluster_size (cfg m)" "p \<noteq> i" for p
  proof -
    have "p \<in> set (peers m)" using that(2,3) id by (simp add: set_peers)
    then show ?thesis using k that(1) by (force simp: put_node_def last_index_def)
  qed
  then have "wins (put_node i n' out w) i n' (n_term m) (n_log m)"
    using B unfolding wins_def by auto
  then show ?thesis
    using wins_stands [of "put_node i n' out w" i n' "n_log m" V] B by (simp add: put_node_def leads_on_def)
qed

section \<open>One action at a time\<close>

text \<open>An action with room on a node: what is left of the world.\<close>

lemma put_node_simps [simp]:
  "up (put_node i n out w) = (up w)(i := Some n)" "wire (put_node i n out w) = wire w \<union> (\<lambda>o1. (i, to o1, message o1)) ` set out"
  by (simp_all add: put_node_def)

lemma live_ready:
  assumes "live_reach N w" and "up w i = Some n"
  shows "ready mem_view mem_ok n" and "cfg_id (cfg n) = i" and "cluster_size (cfg n) = N" and "i < N"
proof -
  note R = mem_ready [OF live_reach_mem [OF assms(1)] live_reach_live [OF assms(1)] assms(2)]
  show "ready mem_view mem_ok n" and "cfg_id (cfg n) = i" and "cluster_size (cfg n) = N" by (rule R)+
  then show "i < N" using readyD(3) [OF R(1)] by simp
qed

lemma receive_step:
  assumes lr: "live_reach N w" and n: "up w j = Some n" "(i, j, m) \<in> wire w" "clock_ok (cfg n) now"
    "length (n_log n) + 1 + length (entries_of m) < vec_cap"
  obtains n' out where "handle mem_ops n now i m = Some (n', out)" and "live_reach N (put_node j n' out w)"
    and "sys_step mem_ops N (Receive i j m now) w = Some (put_node j n' out w)"
proof -
  obtain n' out where h: "handle mem_ops n now i m = Some (n', out)"
    using wire_handled(1) [OF live_reach_mem [OF lr] live_reach_live [OF lr] n] by blast
  then have s: "sys_step mem_ops N (Receive i j m now) w = Some (put_node j n' out w)" using n(1,2) by simp
  have "action_room N w (Receive i j m now)" using n by simp
  then show thesis using that [OF h lr_step [OF lr _ s] s] by blast
qed

text \<open>The candidate's timer fires.\<close>

lemma tick_stands:
  assumes lr: "live_reach N w" and n: "up w i = Some n" and "role n \<noteq> Leader" and "election_deadline n \<le> now"
    and room: "clock_ok (cfg n) now" "length (n_log n) + 1 < vec_cap" "unat (n_term n) + 1 < 2 ^ 64"
  obtains w' where "sys_step mem_ops N (Tick i now) w = Some w'" and "live_reach N w'"
    and "stands w' i (cfg n) (n_term n + 1) (n_log n) {i}"
    and "\<And>j. 1 < N \<Longrightarrow> j < N \<Longrightarrow> j \<noteq> i \<Longrightarrow>
      (i, j, RequestVote (n_term n + 1) (last_index n) (last_entry_term (n_log n))) \<in> wire w'"
    and "\<And>j. j \<noteq> i \<Longrightarrow> up w' j = up w j"
proof -
  note R = live_ready [OF lr n]
  obtain n' out where t: "tick mem_ops n now = Some (n', out)"
    using mem.tick_total [OF R(1) room] by blast
  obtain m r d where m: "m = campaigning n r d"
    and rest: "(if vote_count m \<ge> quorum m then become_leader mem_ops m now
      else do { lt \<leftarrow> last_term m;
        Some (m, map (\<lambda>p. \<lparr>to = p, message = RequestVote (n_term m) (last_index m) lt\<rparr>) (peers m)) }) = Some (n', out)"
    using tick_campaign [OF R(1) assms(3,4) t] by blast
  have rm: "ready mem_view mem_ok m" unfolding m by (rule campaigning_ready [OF R(1)])
  have f: "cfg m = cfg n" "n_term m = n_term n + 1" "n_log m = n_log n" "role m = Candidate" "last_index m = last_index n"
    "votes m = (replicate N False)[i := True]"
    using R(2,3) by (simp_all add: m campaigning_def last_index_def)
  have v: "voters m = {i}" using R(4) by (auto simp: voters_def f(6) nth_list_update)
  then have q: "vote_count m \<ge> quorum m \<longleftrightarrow> N = 1"
    using R(3,4) f(1) by (auto simp: vote_count_voters quorum_def)
  have sys: "sys_step mem_ops N (Tick i now) w = Some (put_node i n' out w)" using n t by simp
  have "action_room N w (Tick i now)" using n room by simp
  then have lr': "live_reach N (put_node i n' out w)" by (rule lr_step [OF lr _ sys])
  have stand: "stands (put_node i n' out w) i (cfg n) (n_term n + 1) (n_log n) {i}
    \<and> (\<forall>j. 1 < N \<longrightarrow> j < N \<longrightarrow> j \<noteq> i \<longrightarrow>
      (i, j, RequestVote (n_term n + 1) (last_index n) (last_entry_term (n_log n))) \<in> wire (put_node i n' out w))"
  proof (cases "N = 1")
    case True
    then have "become_leader mem_ops m now = Some (n', out)" using rest q by simp
    from stands_put_leader [OF rm _ this, of i w "{i}"] show ?thesis using f R(2) True by simp
  next
    case False
    then have "n' = m" and out: "out = map (\<lambda>p. \<lparr>to = p, message = RequestVote (n_term m) (last_index m) (last_entry_term (n_log m))\<rparr>) (peers m)"
      using rest q last_term_eq [OF readyD(8) [OF rm]] by auto
    moreover have "(i, j, RequestVote (n_term n + 1) (last_index n) (last_entry_term (n_log n))) \<in> wire (put_node i n' out w)"
      if "j < N" "j \<noteq> i" for j
    proof -
      have "j \<in> set (peers m)" using that R(2,3) f(1) by (simp add: set_peers)
      then show ?thesis unfolding out by (force simp: f)
    qed
    moreover have "stands (put_node i n' out w) i (cfg n) (n_term n + 1) (n_log n) {i}"
      using stands_candidate [of "put_node i n' out w" i m "{i}"] \<open>n' = m\<close> f v q False by simp
    ultimately show ?thesis by blast
  qed
  show thesis using that [OF sys lr'] stand by simp
qed

text \<open>A node whose term is behind votes for a candidate whose log is up to date.\<close>

lemma vote_step:
  assumes lr: "live_reach N w" and m: "up w j = Some m" "(i, j, RequestVote t (of_nat (length L)) (last_entry_term L)) \<in> wire w"
    and i: "i \<noteq> j" "i < N" and "n_term m < t" and "up_to_date (length L) (last_tm L) (n_log m)" and "length L < vec_cap"
    and room: "clock_ok (cfg m) now" "length (n_log m) + 1 < vec_cap"
  obtains w' m' where "sys_step mem_ops N (Receive i j (RequestVote t (of_nat (length L)) (last_entry_term L)) now) w = Some w'"
    and "live_reach N w'" and "(j, i, VoteResponse t True) \<in> wire w'" and "wire w \<subseteq> wire w'"
    and "\<And>k. k \<noteq> j \<Longrightarrow> up w' k = up w k"
    and "up w' j = Some m'" and "n_term m' = t" and "n_log m' = n_log m" and "cfg m' = cfg m"
proof -
  let ?q = "RequestVote t (of_nat (length L)) (last_entry_term L)"
  note R = live_ready [OF lr m(1)]
  obtain n' out where h: "handle mem_ops m now i ?q = Some (n', out)"
    and lr': "live_reach N (put_node j n' out w)" and sys: "sys_step mem_ops N (Receive i j ?q now) w = Some (put_node j n' out w)"
    by (rule receive_step [OF lr m room(1)]) (use room in simp_all)
  have "i \<noteq> cfg_id (cfg m)" "i < cluster_size (cfg m)" using i R by simp_all
  note V = vote_result [OF R(1) this h]
  have ul: "unat (of_nat (length L) :: u64) = length L" by (rule unat_of_nat_small [OF assms(8)])
  have le: "n_term m \<le> t" "max t (n_term m) = t" using assms(6) by (auto simp: max_def)
  have out: "out = [\<lparr>to = i, message = VoteResponse t True\<rparr>]"
    using V assms(6,7) le by (auto simp: ul unat_last_entry_term)
  show thesis
    by (rule that [OF sys lr', of n']) (use V le out in auto)
qed

text \<open>The candidate counts a vote, or leads already.\<close>

lemma count_step:
  assumes lr: "live_reach N w" and st: "stands w i c t L V" and vote: "(j, i, VoteResponse t True) \<in> wire w"
    and j: "j \<noteq> i" "j < N" and room: "clock_ok c now" "length L + 2 < vec_cap"
  obtains w' where "sys_step mem_ops N (Receive j i (VoteResponse t True) now) w = Some w'" and "live_reach N w'"
    and "stands w' i c t L (insert j V)" and "wire w \<subseteq> wire w'" and "\<And>k. k \<noteq> i \<Longrightarrow> up w' k = up w k"
proof -
  note finish = that
  have step: thesis
    if m: "up w i = Some m" "cfg m = c" "n_term m = t" "length (n_log m) + 1 < vec_cap"
      and next_state: "\<And>n' out. ready mem_view mem_ok m \<Longrightarrow> cfg_id (cfg m) = i \<Longrightarrow>
        (if role m = Candidate then
          (if vote_count (m\<lparr>votes := (votes m)[j := True]\<rparr>) \<ge> quorum m
           then become_leader mem_ops (m\<lparr>votes := (votes m)[j := True]\<rparr>) now = Some (n', out)
           else n' = m\<lparr>votes := (votes m)[j := True]\<rparr> \<and> out = [])
        else n' = m \<and> out = []) \<Longrightarrow> stands (put_node i n' out w) i c t L (insert j V)" for m
  proof -
    note R = live_ready [OF lr m(1)]
    obtain n' out where h: "handle mem_ops m now j (VoteResponse t True) = Some (n', out)"
      and lr': "live_reach N (put_node i n' out w)"
      and sys: "sys_step mem_ops N (Receive j i (VoteResponse t True) now) w = Some (put_node i n' out w)"
      by (rule receive_step [OF lr m(1) vote, of now]) (use room(1) m(2,4) in simp_all)
    have src: "j \<noteq> cfg_id (cfg m)" "j < cluster_size (cfg m)" using j R by simp_all
    have "quorum (m\<lparr>votes := bs\<rparr>) = quorum m" for bs by (simp add: quorum_def)
    then have "stands (put_node i n' out w) i c t L (insert j V)"
      using vote_response_result [OF R(1) src h [folded m(3)]] next_state [OF R(1,2)] by simp
    then show thesis by (intro finish [OF sys lr']) auto
  qed
  from st show thesis
  proof (cases rule: standsE)
    case (stands m)
    show thesis
    proof (rule step [OF stands(1-3)])
      fix n' out assume rm: "ready mem_view mem_ok m" and id: "cfg_id (cfg m) = i"
        and res: "if role m = Candidate then
          (if vote_count (m\<lparr>votes := (votes m)[j := True]\<rparr>) \<ge> quorum m
           then become_leader mem_ops (m\<lparr>votes := (votes m)[j := True]\<rparr>) now = Some (n', out)
           else n' = m\<lparr>votes := (votes m)[j := True]\<rparr> \<and> out = [])
        else n' = m \<and> out = []"
      let ?m = "m\<lparr>votes := (votes m)[j := True]\<rparr>"
      have r': "ready mem_view mem_ok ?m" by (rule ready_votes [OF rm]) simp
      show "stands (put_node i n' out w) i c t L (insert j V)"
      proof (cases "vote_count ?m \<ge> quorum m")
        case True
        then have "become_leader mem_ops ?m now = Some (n', out)" using res stands(4) by simp
        from stands_put_leader [OF r' _ this, of i w "insert j V"] show ?thesis using id stands(2,3,5) by simp
      next
        case False
        have "j < length (votes m)" using readyD(5) [OF rm] live_ready(3) [OF lr stands(1)] j(2) by simp
        then have "insert j V \<subseteq> voters ?m" using stands(6) by (auto simp: voters_insert)
        moreover have "n' = ?m" using res stands(4) False by simp
        moreover have "vote_count ?m < quorum ?m" using False by (simp add: quorum_def)
        ultimately show ?thesis
          using stands_candidate [of "put_node i n' out w" i ?m "insert j V"] stands(2-5) by simp
      qed
    qed (use stands(5) room(2) in simp)
  next
    case (wins m)
    show thesis
    proof (rule step [OF wins(1-3)])
      have lead: "leads_on m t L" using wins(4) unfolding wins_def by blast
      then show "length (n_log m) + 1 < vec_cap" using room(2) by (simp add: leads_on_def)
      fix n' out
      assume "if role m = Candidate then
          (if vote_count (m\<lparr>votes := (votes m)[j := True]\<rparr>) \<ge> quorum m
           then become_leader mem_ops (m\<lparr>votes := (votes m)[j := True]\<rparr>) now = Some (n', out)
           else n' = m\<lparr>votes := (votes m)[j := True]\<rparr> \<and> out = [])
        else n' = m \<and> out = []"
      then have "n' = m" using lead by (auto simp: leads_on_def)
      moreover have "wins (put_node i n' out w) i m t L" by (rule wins_mono [OF wins(4)]) auto
      ultimately show "stands (put_node i n' out w) i c t L (insert j V)"
        using wins_stands [of "put_node i n' out w" i m L "insert j V"] wins(2,3) by simp
    qed
  qed
qed

section \<open>One round of votes\<close>

text \<open>A node that will vote for the candidate of term \<open>t\<close> with the log \<open>L\<close>.\<close>

definition supports :: "mem_storage world \<Rightarrow> u64 \<Rightarrow> entry list \<Rightarrow> u64 \<Rightarrow> nodeid \<Rightarrow> bool" where
  "supports w t L now j \<longleftrightarrow> (\<exists>m. up w j = Some m \<and> n_term m < t \<and> up_to_date (length L) (last_tm L) (n_log m)
     \<and> clock_ok (cfg m) now \<and> length (n_log m) + 1 < vec_cap)"

text \<open>The actions: the timer, the requests to the nodes \<open>js\<close>, their answers.\<close>

definition ask :: "nodeid \<Rightarrow> u64 \<Rightarrow> u64 \<Rightarrow> entry list \<Rightarrow> nodeid \<Rightarrow> action" where
  "ask i now t L j = Receive i j (RequestVote t (of_nat (length L)) (last_entry_term L)) now"

definition answer :: "nodeid \<Rightarrow> u64 \<Rightarrow> u64 \<Rightarrow> nodeid \<Rightarrow> action" where
  "answer i now t j = Receive j i (VoteResponse t True) now"

definition election_acts :: "nodeid \<Rightarrow> mem_storage node \<Rightarrow> u64 \<Rightarrow> nodeid list \<Rightarrow> action list" where
  "election_acts i n now js =
     Tick i now # map (ask i now (n_term n + 1) (n_log n)) js @ map (answer i now (n_term n + 1)) js"

lemma run_append: "run st N (as @ bs) w = do { w' \<leftarrow> run st N as w; run st N bs w' }"
  by (induction as arbitrary: w) (auto split: Option.bind_split)

lemma ask_round:
  assumes "live_reach N w" and "distinct js" and "i \<notin> set js" and "i < N" and "length L < vec_cap"
    and "\<And>j. j \<in> set js \<Longrightarrow> supports w t L now j"
    and "\<And>j. j \<in> set js \<Longrightarrow> (i, j, RequestVote t (of_nat (length L)) (last_entry_term L)) \<in> wire w"
  shows "\<exists>w'. run mem_ops N (map (ask i now t L) js) w = Some w' \<and> live_reach N w' \<and> wire w \<subseteq> wire w'
    \<and> (\<forall>j \<in> set js. (j, i, VoteResponse t True) \<in> wire w'
         \<and> (\<exists>m m'. up w j = Some m \<and> up w' j = Some m' \<and> n_term m' = t \<and> n_log m' = n_log m \<and> cfg m' = cfg m))
    \<and> (\<forall>k. k \<notin> set js \<longrightarrow> up w' k = up w k)"
  using assms
proof (induction js arbitrary: w)
  case Nil
  then show ?case by simp
next
  case (Cons j js)
  obtain m where m: "up w j = Some m" "n_term m < t" "up_to_date (length L) (last_tm L) (n_log m)"
    "clock_ok (cfg m) now" "length (n_log m) + 1 < vec_cap"
    using Cons.prems(6) [of j] unfolding supports_def by auto
  have req: "(i, j, RequestVote t (of_nat (length L)) (last_entry_term L)) \<in> wire w" using Cons.prems(7) by simp
  have ij: "i \<noteq> j" using Cons.prems(3) by auto
  obtain w1 m1 where w1: "sys_step mem_ops N (ask i now t L j) w = Some w1" "live_reach N w1"
    "(j, i, VoteResponse t True) \<in> wire w1" "wire w \<subseteq> wire w1" "\<And>k. k \<noteq> j \<Longrightarrow> up w1 k = up w k"
    "up w1 j = Some m1" "n_term m1 = t" "n_log m1 = n_log m" "cfg m1 = cfg m"
    unfolding ask_def by (rule vote_step [OF Cons.prems(1) m(1) req ij Cons.prems(4) m(2,3) Cons.prems(5) m(4,5)]) blast
  have "\<exists>w'. run mem_ops N (map (ask i now t L) js) w1 = Some w' \<and> live_reach N w' \<and> wire w1 \<subseteq> wire w'
    \<and> (\<forall>j \<in> set js. (j, i, VoteResponse t True) \<in> wire w'
         \<and> (\<exists>m m'. up w1 j = Some m \<and> up w' j = Some m' \<and> n_term m' = t \<and> n_log m' = n_log m \<and> cfg m' = cfg m))
    \<and> (\<forall>k. k \<notin> set js \<longrightarrow> up w' k = up w1 k)"
  proof (rule Cons.IH [OF w1(2) _ _ Cons.prems(4,5)])
    fix k assume k: "k \<in> set js"
    then have "k \<noteq> j" using Cons.prems(2) by auto
    then show "supports w1 t L now k" using Cons.prems(6) [of k] k w1(5) unfolding supports_def by simp
    show "(i, k, RequestVote t (of_nat (length L)) (last_entry_term L)) \<in> wire w1" using Cons.prems(7) [of k] k w1(4) by auto
  qed (use Cons.prems(2,3) in auto)
  then obtain w' where w': "run mem_ops N (map (ask i now t L) js) w1 = Some w'" "live_reach N w'" "wire w1 \<subseteq> wire w'"
    "\<And>j. j \<in> set js \<Longrightarrow> (j, i, VoteResponse t True) \<in> wire w'
         \<and> (\<exists>m m'. up w1 j = Some m \<and> up w' j = Some m' \<and> n_term m' = t \<and> n_log m' = n_log m \<and> cfg m' = cfg m)"
    "\<And>k. k \<notin> set js \<Longrightarrow> up w' k = up w1 k" by blast
  have nj: "j \<notin> set js" using Cons.prems(2) by simp
  have "run mem_ops N (map (ask i now t L) (j # js)) w = Some w'" using w1(1) w'(1) by simp
  moreover have "(k, i, VoteResponse t True) \<in> wire w'
      \<and> (\<exists>m m'. up w k = Some m \<and> up w' k = Some m' \<and> n_term m' = t \<and> n_log m' = n_log m \<and> cfg m' = cfg m)"
    if "k \<in> set (j # js)" for k
  proof (cases "k = j")
    case True
    then show ?thesis using w1(3,6-9) w'(3) w'(5) [OF nj] m(1) by auto
  next
    case False
    then have "k \<in> set js" using that by simp
    then show ?thesis using w'(4) [of k] w1(5) [OF False] by simp
  qed
  moreover have "up w' k = up w k" if "k \<notin> set (j # js)" for k using that w'(5) w1(5) by simp
  ultimately show ?case using w'(2,3) w1(4) by blast
qed

lemma answer_round:
  assumes "live_reach N w" and "stands w i c t L V" and "i \<notin> set js" and "clock_ok c now" and "length L + 2 < vec_cap"
    and "\<And>j. j \<in> set js \<Longrightarrow> j < N \<and> (j, i, VoteResponse t True) \<in> wire w"
  shows "\<exists>w'. run mem_ops N (map (answer i now t) js) w = Some w' \<and> live_reach N w' \<and> wire w \<subseteq> wire w'
    \<and> stands w' i c t L (V \<union> set js) \<and> (\<forall>k. k \<noteq> i \<longrightarrow> up w' k = up w k)"
  using assms
proof (induction js arbitrary: w V)
  case Nil
  then show ?case by simp
next
  case (Cons j js)
  have j: "(j, i, VoteResponse t True) \<in> wire w" "j \<noteq> i" "j < N" using Cons.prems(3,6) by auto
  obtain w1 where w1: "sys_step mem_ops N (answer i now t j) w = Some w1" "live_reach N w1"
    "stands w1 i c t L (insert j V)" "wire w \<subseteq> wire w1" "\<And>k. k \<noteq> i \<Longrightarrow> up w1 k = up w k"
    unfolding answer_def by (rule count_step [OF Cons.prems(1,2) j Cons.prems(4,5)]) blast
  have "\<exists>w'. run mem_ops N (map (answer i now t) js) w1 = Some w' \<and> live_reach N w' \<and> wire w1 \<subseteq> wire w'
    \<and> stands w' i c t L (insert j V \<union> set js) \<and> (\<forall>k. k \<noteq> i \<longrightarrow> up w' k = up w1 k)"
    by (rule Cons.IH [OF w1(2,3) _ Cons.prems(4,5)]) (use Cons.prems(3,6) w1(4) in auto)
  then obtain w' where w': "run mem_ops N (map (answer i now t) js) w1 = Some w'" "live_reach N w'" "wire w1 \<subseteq> wire w'"
    "stands w' i c t L (insert j V \<union> set js)" "\<And>k. k \<noteq> i \<Longrightarrow> up w' k = up w1 k" by blast
  have "run mem_ops N (map (answer i now t) (j # js)) w = Some w'" using w1(1) w'(1) by simp
  then show ?case using w'(2-5) w1(4,5) by auto
qed

lemma stands_majority:
  assumes lr: "live_reach N w" and st: "stands w i c t L V" and maj: "majority N V"
  obtains m where "up w i = Some m" and "cfg m = c" and "wins w i m t L"
  using st
proof (cases rule: standsE)
  case (stands m)
  have "finite (voters m)" by (simp add: voters_def)
  then have "card V < N div 2 + 1"
    using card_mono [of "voters m" V] stands(6,7) live_ready(3) [OF lr stands(1)]
    by (simp add: vote_count_voters quorum_def)
  then show thesis using maj by (simp add: majority_def)
qed (rule that)

lemma elected:
  assumes lr: "live_reach N w" and n: "up w i = Some n" "role n \<noteq> Leader" "election_deadline n \<le> now"
    and room: "clock_ok (cfg n) now" "length (n_log n) + 2 < vec_cap" "unat (n_term n) + 1 < 2 ^ 64"
    and js: "distinct js" "i \<notin> set js" "majority N (insert i (set js))"
    and sup: "\<And>j. j \<in> set js \<Longrightarrow> supports w (n_term n + 1) (n_log n) now j"
  obtains w' n' where "run mem_ops N (election_acts i n now js) w = Some w'" and "live_reach N w'"
    and "up w' i = Some n'" and "cfg n' = cfg n" and "wins w' i n' (n_term n + 1) (n_log n)"
    and "\<forall>j \<in> set js. \<exists>m m'. up w j = Some m \<and> up w' j = Some m' \<and> n_term m' = n_term n + 1
      \<and> n_log m' = n_log m \<and> cfg m' = cfg m"
proof -
  let ?t = "n_term n + 1" and ?L = "n_log n"
  note R = live_ready [OF lr n(1)]
  have len: "length ?L + 1 < vec_cap" "length ?L < vec_cap" using room(2) by simp_all
  have jN: "j < N" if "j \<in> set js" for j using js(3) that by (auto simp: majority_def)
  obtain w1 where w1: "sys_step mem_ops N (Tick i now) w = Some w1" "live_reach N w1" "stands w1 i (cfg n) ?t ?L {i}"
    and req: "\<And>j. 1 < N \<Longrightarrow> j < N \<Longrightarrow> j \<noteq> i \<Longrightarrow> (i, j, RequestVote ?t (last_index n) (last_entry_term ?L)) \<in> wire w1"
    and same1: "\<And>j. j \<noteq> i \<Longrightarrow> up w1 j = up w j"
    by (rule tick_stands [OF lr n room(1) len(1) room(3)]) blast
  have asked: "(i, j, RequestVote ?t (of_nat (length ?L)) (last_entry_term ?L)) \<in> wire w1" if "j \<in> set js" for j
  proof -
    have "j \<noteq> i" using that js(2) by auto
    moreover have "1 < N" using jN [OF that] R(4) \<open>j \<noteq> i\<close> by linarith
    ultimately show ?thesis using req jN [OF that] by (simp add: last_index_def)
  qed
  have sup1: "supports w1 ?t ?L now j" if "j \<in> set js" for j
  proof -
    have "j \<noteq> i" using that js(2) by auto
    then show ?thesis using sup [OF that] same1 unfolding supports_def by simp
  qed
  obtain w2 where w2: "run mem_ops N (map (ask i now ?t ?L) js) w1 = Some w2" "live_reach N w2"
    "\<And>j. j \<in> set js \<Longrightarrow> (j, i, VoteResponse ?t True) \<in> wire w2
         \<and> (\<exists>m m'. up w1 j = Some m \<and> up w2 j = Some m' \<and> n_term m' = ?t \<and> n_log m' = n_log m \<and> cfg m' = cfg m)"
    "\<And>k. k \<notin> set js \<Longrightarrow> up w2 k = up w1 k" "wire w1 \<subseteq> wire w2"
    using ask_round [OF w1(2) js(1,2) R(4) len(2) sup1 asked] by blast
  have "stands w2 i (cfg n) ?t ?L {i}"
    using w1(3)
  proof (cases rule: standsE)
    case (stands m)
    then show ?thesis using stands_candidate [of w2 i m "{i}"] w2(4) [OF js(2)] by simp
  next
    case (wins m)
    then show ?thesis
      using wins_stands [of w2 i m ?L "{i}"] wins_mono [OF wins(4) w2(5)] w2(4) [OF js(2)] by simp
  qed
  moreover have "j < N \<and> (j, i, VoteResponse ?t True) \<in> wire w2" if "j \<in> set js" for j
    using w2(3) [OF that] jN [OF that] by blast
  ultimately obtain w3 where w3: "run mem_ops N (map (answer i now ?t) js) w2 = Some w3" "live_reach N w3"
    "stands w3 i (cfg n) ?t ?L ({i} \<union> set js)" "\<And>k. k \<noteq> i \<Longrightarrow> up w3 k = up w2 k"
    using answer_round [OF w2(2) _ js(2) room(1,2)] by blast
  have run: "run mem_ops N (election_acts i n now js) w = Some w3"
    using w1(1) w2(1) w3(1) by (simp add: election_acts_def run_append)
  have maj: "majority N ({i} \<union> set js)" using js(3) by simp
  obtain m where m: "up w3 i = Some m" "cfg m = cfg n" "wins w3 i m ?t ?L"
    by (rule stands_majority [OF w3(2,3) maj])
  show thesis
  proof (rule that [OF run w3(2) m], intro ballI)
    fix j assume j: "j \<in> set js"
    then have "j \<noteq> i" using js(2) by auto
    then show "\<exists>m m'. up w j = Some m \<and> up w3 j = Some m' \<and> n_term m' = ?t \<and> n_log m' = n_log m \<and> cfg m' = cfg m"
      using w2(3) [OF j] w3(4) same1 by simp
  qed
qed

text \<open>
  C13: Elections end.  When the deadline of a node has passed and a majority, itself included,
  has no newer term and no more up-to-date log, then its timer, its requests and their answers
  make it the leader of the next term; each of these steps is performed, without a panic.
\<close>

theorem timely_election:
  assumes "live_reach N w" and "up w i = Some n" and "role n \<noteq> Leader" and "election_deadline n \<le> now"
    and "clock_ok (cfg n) now" and "length (n_log n) + 2 < vec_cap" and "unat (n_term n) + 1 < 2 ^ 64"
    and "distinct js" and "i \<notin> set js" and "majority N (insert i (set js))"
    and "\<And>j. j \<in> set js \<Longrightarrow> supports w (n_term n + 1) (n_log n) now j"
  shows "\<exists>w' n'. run mem_ops N (election_acts i n now js) w = Some w' \<and> live_reach N w'
    \<and> up w' i = Some n' \<and> role n' = Leader \<and> n_term n' = n_term n + 1
    \<and> n_log n' = n_log n @ [\<lparr>e_term = n_term n + 1, command = []\<rparr>]"
proof -
  obtain w' n' where "run mem_ops N (election_acts i n now js) w = Some w'" "live_reach N w'"
    "up w' i = Some n'" "wins w' i n' (n_term n + 1) (n_log n)"
    by (rule elected [OF assms])
  then show ?thesis by (auto simp: wins_def leads_on_def noop_of_def)
qed

section \<open>One round of entries\<close>

definition share :: "nodeid \<Rightarrow> u64 \<Rightarrow> u64 \<Rightarrow> entry list \<Rightarrow> u64 \<Rightarrow> nodeid \<Rightarrow> action" where
  "share i now t L k j = Receive i j (AppendEntries t (of_nat (length L)) (last_entry_term L) [noop_of t] k) now"

definition acknowledge :: "nodeid \<Rightarrow> u64 \<Rightarrow> u64 \<Rightarrow> entry list \<Rightarrow> nodeid \<Rightarrow> action" where
  "acknowledge i now t L j = Receive j i (AppendResponse t True (of_nat (length L) + 1)) now"

lemma share_step:
  assumes lr: "live_reach N w" and m: "up w j = Some m" "n_term m = t" "n_log m = L"
    and msg: "(i, j, AppendEntries t (of_nat (length L)) (last_entry_term L) [noop_of t] k) \<in> wire w"
    and i: "i \<noteq> j" "i < N" and room: "clock_ok (cfg m) now" "length L + 2 < vec_cap"
  obtains w' where "sys_step mem_ops N (share i now t L k j) w = Some w'" and "live_reach N w'"
    and "(j, i, AppendResponse t True (of_nat (length L) + 1)) \<in> wire w'" and "wire w \<subseteq> wire w'"
    and "\<And>k. k \<noteq> j \<Longrightarrow> up w' k = up w k"
proof -
  let ?q = "AppendEntries t (of_nat (length L)) (last_entry_term L) [noop_of t] k"
  note R = live_ready [OF lr m(1)]
  obtain n' out where h: "handle mem_ops m now i ?q = Some (n', out)"
    and lr': "live_reach N (put_node j n' out w)" and sys: "sys_step mem_ops N (Receive i j ?q now) w = Some (put_node j n' out w)"
    by (rule receive_step [OF lr m(1) msg room(1)]) (use room m(3) in simp_all)
  have "i \<noteq> cfg_id (cfg m)" "i < cluster_size (cfg m)" using i R by simp_all
  note A = append_result [OF R(1) this h]
  have "unat (of_nat (length L) :: u64) = length L" using room(2) by (intro unat_of_nat_small) simp
  then have "out = [\<lparr>to = i, message = AppendResponse t True (of_nat (length L) + 1)\<rparr>]"
    using A m(2,3) by (simp add: unat_last_entry_term last_tm_before)
  then show thesis by (intro that [OF sys [folded share_def] lr']) auto
qed

lemma share_round:
  assumes "live_reach N w" and "distinct js" and "i \<notin> set js" and "i < N" and "length L + 2 < vec_cap"
    and "\<And>j. j \<in> set js \<Longrightarrow> \<exists>m. up w j = Some m \<and> n_term m = t \<and> n_log m = L \<and> clock_ok (cfg m) now"
    and "\<And>j. j \<in> set js \<Longrightarrow> (i, j, AppendEntries t (of_nat (length L)) (last_entry_term L) [noop_of t] k) \<in> wire w"
  shows "\<exists>w'. run mem_ops N (map (share i now t L k) js) w = Some w' \<and> live_reach N w' \<and> wire w \<subseteq> wire w'
    \<and> (\<forall>j \<in> set js. (j, i, AppendResponse t True (of_nat (length L) + 1)) \<in> wire w')
    \<and> (\<forall>k. k \<notin> set js \<longrightarrow> up w' k = up w k)"
  using assms
proof (induction js arbitrary: w)
  case Nil
  then show ?case by simp
next
  case (Cons j js)
  obtain m where m: "up w j = Some m" "n_term m = t" "n_log m = L" "clock_ok (cfg m) now"
    using Cons.prems(6) [of j] by auto
  have msg: "(i, j, AppendEntries t (of_nat (length L)) (last_entry_term L) [noop_of t] k) \<in> wire w"
    using Cons.prems(7) by simp
  have ij: "i \<noteq> j" using Cons.prems(3) by auto
  obtain w1 where w1: "sys_step mem_ops N (share i now t L k j) w = Some w1" "live_reach N w1"
    "(j, i, AppendResponse t True (of_nat (length L) + 1)) \<in> wire w1" "wire w \<subseteq> wire w1"
    "\<And>k. k \<noteq> j \<Longrightarrow> up w1 k = up w k"
    by (rule share_step [OF Cons.prems(1) m(1-3) msg ij Cons.prems(4) m(4) Cons.prems(5)]) blast
  have "\<exists>w'. run mem_ops N (map (share i now t L k) js) w1 = Some w' \<and> live_reach N w' \<and> wire w1 \<subseteq> wire w'
    \<and> (\<forall>j \<in> set js. (j, i, AppendResponse t True (of_nat (length L) + 1)) \<in> wire w')
    \<and> (\<forall>k. k \<notin> set js \<longrightarrow> up w' k = up w1 k)"
  proof (rule Cons.IH [OF w1(2) _ _ Cons.prems(4,5)])
    fix h assume h: "h \<in> set js"
    then have "h \<noteq> j" using Cons.prems(2) by auto
    then show "\<exists>m. up w1 h = Some m \<and> n_term m = t \<and> n_log m = L \<and> clock_ok (cfg m) now"
      using Cons.prems(6) [of h] h w1(5) by simp
    show "(i, h, AppendEntries t (of_nat (length L)) (last_entry_term L) [noop_of t] k) \<in> wire w1"
      using Cons.prems(7) [of h] h w1(4) by auto
  qed (use Cons.prems(2,3) in auto)
  then obtain w' where w': "run mem_ops N (map (share i now t L k) js) w1 = Some w'" "live_reach N w'" "wire w1 \<subseteq> wire w'"
    "\<forall>j \<in> set js. (j, i, AppendResponse t True (of_nat (length L) + 1)) \<in> wire w'"
    "\<And>k. k \<notin> set js \<Longrightarrow> up w' k = up w1 k" by blast
  have "run mem_ops N (map (share i now t L k) (j # js)) w = Some w'" using w1(1) w'(1) by simp
  moreover have "up w' h = up w h" if "h \<notin> set (j # js)" for h using that w'(5) w1(5) by simp
  ultimately show ?case using w'(2-4) w1(3,4) by auto
qed

text \<open>The nodes that have acknowledged the whole log of the leader.\<close>

definition caught_up :: "mem_storage node \<Rightarrow> nodeid set" where
  "caught_up n = {j. j < length (match_index n) \<and> match_index n ! j = last_index n}"

lemma committable_last:
  assumes n: "ready mem_view mem_ok n" and own: "e_term (last (n_log n)) = n_term n" and "n_log n \<noteq> []"
    and "unat (commit_index n) < length (n_log n)"
    and maj: "majority (cluster_size (cfg n)) (insert (cfg_id (cfg n)) (caught_up n))"
  shows "length (n_log n) \<in> committable n" and "Max (committable n) = length (n_log n)"
proof -
  note R = readyD [OF n]
  have li: "of_nat (length (n_log n)) = last_index n" by (simp add: last_index_def)
  have "insert (cfg_id (cfg n)) (caught_up n) \<subseteq> replica_set n (last_index n)"
    using R(7) by (auto simp: caught_up_def replica_set_def)
  moreover have "finite (replica_set n (last_index n))" by (simp add: replica_set_def)
  ultimately have "quorum n \<le> card (replica_set n (of_nat (length (n_log n))))"
    using maj card_mono unfolding majority_def quorum_def li by (meson le_trans)
  moreover have "e_term (n_log n ! (j - 1)) = n_term n" if "length (n_log n) \<le> j \<and> j \<le> length (n_log n)" for j
  proof -
    have "j = length (n_log n)" using that by simp
    then show ?thesis using own assms(3) by (simp add: last_conv_nth)
  qed
  ultimately show c: "length (n_log n) \<in> committable n"
    using assms(4) by (simp add: committable_def)
  have "finite (committable n)"
    by (rule finite_subset [of _ "{..length (n_log n)}"]) (auto simp: committable_def)
  then show "Max (committable n) = length (n_log n)"
    using c by (intro Max_eqI) (auto simp: committable_def)
qed

lemma ack_result:
  assumes n: "ready mem_view mem_ok n" and lead: "leads_on n t L"
    and src: "src \<noteq> cfg_id (cfg n)" "src < cluster_size (cfg n)" and len: "length L + 2 < vec_cap"
    and run: "handle mem_ops n now src (AppendResponse t True (of_nat (length L) + 1)) = Some (n', out)"
  shows "leads_on n' t L \<and> cfg n' = cfg n \<and> insert src (caught_up n) \<subseteq> caught_up n'
    \<and> (majority (cluster_size (cfg n)) (insert (cfg_id (cfg n)) (caught_up n')) \<longrightarrow> commit_index n' = last_index n')"
proof -
  note R = readyD [OF n]
  let ?K = "of_nat (length L) + 1 :: u64"
  have ld: "role n = Leader" "n_term n = t" "n_log n = L @ [noop_of t]" using lead by (simp_all add: leads_on_def)
  have li: "last_index n = ?K" by (simp add: last_index_def ld(3) add.commute)
  then have uk: "unat ?K = length L + 1" using unat_last_index [OF R(8)] ld(3) by simp
  have "unat (match_index n ! src) \<le> unat ?K"
    using indices_okD(2) [OF R(9) ld(1), of src] src(2) R(7) ld(3) by (simp add: uk)
  then have max: "max (match_index n ! src) (min ?K (last_index n)) = ?K"
    unfolding li by (simp add: max_def word_le_nat_alt)
  have get: "vec_get (match_index n) src = Some (match_index n ! src)"
    "vec_set (match_index n) src ?K = Some ((match_index n)[src := ?K])"
    "vec_set (next_index n) src x = Some ((next_index n)[src := x])" for x
    using R(6,7) src(2) by (simp_all add: panic_simps)
  have "unat ?K + unat (1 :: u64) < 18446744073709551616" using len by (simp add: uk vec_cap_def)
  note nx = add64_defined [OF this] and unx = add64_Some_unat [OF add64_defined [OF this]]
  let ?n = "n\<lparr>match_index := (match_index n)[src := ?K], next_index := (next_index n)[src := ?K + 1]\<rparr>"
  have "on_append_response n src t True ?K = Some (n', out)"
    using run src ld(2) by (simp add: handle_def)
  then obtain n1 where ac: "advance_commit ?n = Some n1"
    and rest: "(if ?K + 1 \<le> last_index n1 then do { o1 \<leftarrow> append_for n1 src; Some (n1, [o1]) } else Some (n1, [])) = Some (n', out)"
    using ld(1,2) max get nx by (auto simp: on_append_response_def bind_eq_Some_conv Let_def)
  have rn: "ready mem_view mem_ok ?n"
    using R indices_ok_set(2) [OF R(9), of "?K + 1" ?K src] ld(3) uk unx
    by (simp add: ready_def node_ok_def log_fits_def)
  obtain k where k: "n1 = ?n\<lparr>commit_index := k\<rparr>"
    using advance_commit_fields [OF ac readyD(8) [OF rn]] by blast
  have "last_index n1 = ?K" using li by (simp add: k last_index_def)
  moreover have "\<not> ?K + 1 \<le> ?K" using unx by (simp add: word_le_nat_alt uk)
  ultimately have n': "n' = n1" using rest by simp
  have "leads_on n' t L \<and> cfg n' = cfg n" using lead by (simp add: n' k leads_on_def)
  moreover have "insert src (caught_up n) \<subseteq> caught_up n'"
    using src(2) R(7) li by (auto simp: n' k caught_up_def nth_list_update_split last_index_def)
  moreover have "commit_index n' = last_index n'"
    if maj: "majority (cluster_size (cfg n)) (insert (cfg_id (cfg n)) (caught_up n'))"
  proof (cases "unat (commit_index n) < length L + 1")
    case True
    have "caught_up n' = caught_up ?n" by (simp add: n' k caught_up_def last_index_def)
    then have c: "length (n_log ?n) \<in> committable ?n" "Max (committable ?n) = length (n_log ?n)"
      using committable_last [OF rn] maj True ld by (simp_all add: noop_of_def)
    then have "n1 = ?n\<lparr>commit_index := of_nat (Max (committable ?n))\<rparr>"
      using advance_commit_max(2) [OF rn ac] by blast
    then show ?thesis unfolding c(2) n' by (simp add: last_index_def)
  next
    case False
    then have "committable ?n = {}" using ld(3) by (auto simp: committable_def)
    then have "n1 = ?n" by (rule advance_commit_max(1) [OF rn ac])
    moreover have "commit_index n = ?K"
      using False R(10) ld(3) uk by (intro word_unat_eq_iff [THEN iffD2]) simp
    ultimately show ?thesis using li by (simp add: n' last_index_def)
  qed
  ultimately show ?thesis by blast
qed

definition acked :: "mem_storage world \<Rightarrow> nodeid \<Rightarrow> config \<Rightarrow> u64 \<Rightarrow> entry list \<Rightarrow> nodeid set \<Rightarrow> bool" where
  "acked w i c t L V \<longleftrightarrow> (\<exists>m. up w i = Some m \<and> cfg m = c \<and> leads_on m t L \<and> V \<subseteq> caught_up m
     \<and> (V \<noteq> {} \<longrightarrow> majority (cluster_size c) (insert i (caught_up m)) \<longrightarrow> commit_index m = last_index m))"

lemma ack_step:
  assumes lr: "live_reach N w" and st: "acked w i c t L V"
    and msg: "(j, i, AppendResponse t True (of_nat (length L) + 1)) \<in> wire w"
    and j: "j \<noteq> i" "j < N" and room: "clock_ok c now" "length L + 2 < vec_cap"
  obtains w' where "sys_step mem_ops N (acknowledge i now t L j) w = Some w'" and "live_reach N w'"
    and "acked w' i c t L (insert j V)" and "wire w \<subseteq> wire w'"
proof -
  let ?q = "AppendResponse t True (of_nat (length L) + 1)"
  obtain m where m: "up w i = Some m" "cfg m = c" "leads_on m t L" "V \<subseteq> caught_up m"
    using st unfolding acked_def by blast
  note R = live_ready [OF lr m(1)]
  have len: "length (n_log m) + 1 < vec_cap" using m(3) room(2) by (simp add: leads_on_def)
  obtain n' out where h: "handle mem_ops m now j ?q = Some (n', out)"
    and lr': "live_reach N (put_node i n' out w)" and sys: "sys_step mem_ops N (Receive j i ?q now) w = Some (put_node i n' out w)"
    by (rule receive_step [OF lr m(1) msg, of now]) (use room(1) m(2) len in simp_all)
  have "j \<noteq> cfg_id (cfg m)" "j < cluster_size (cfg m)" using j R by simp_all
  note A = ack_result [OF R(1) m(3) this room(2) h]
  have "acked (put_node i n' out w) i c t L (insert j V)"
    unfolding acked_def using A m(2,4) R(2) by auto
  then show thesis by (intro that [OF sys [folded acknowledge_def] lr']) auto
qed

lemma ack_round:
  assumes "live_reach N w" and "acked w i c t L V" and "i \<notin> set js" and "clock_ok c now" and "length L + 2 < vec_cap"
    and "\<And>j. j \<in> set js \<Longrightarrow> j < N \<and> (j, i, AppendResponse t True (of_nat (length L) + 1)) \<in> wire w"
  shows "\<exists>w'. run mem_ops N (map (acknowledge i now t L) js) w = Some w' \<and> live_reach N w' \<and> acked w' i c t L (V \<union> set js)"
  using assms
proof (induction js arbitrary: w V)
  case Nil
  then show ?case by simp
next
  case (Cons j js)
  have j: "(j, i, AppendResponse t True (of_nat (length L) + 1)) \<in> wire w" "j \<noteq> i" "j < N" using Cons.prems(3,6) by auto
  obtain w1 where w1: "sys_step mem_ops N (acknowledge i now t L j) w = Some w1" "live_reach N w1"
    "acked w1 i c t L (insert j V)" "wire w \<subseteq> wire w1"
    by (rule ack_step [OF Cons.prems(1,2) j Cons.prems(4,5)])
  have "\<exists>w'. run mem_ops N (map (acknowledge i now t L) js) w1 = Some w' \<and> live_reach N w'
    \<and> acked w' i c t L (insert j V \<union> set js)"
    by (rule Cons.IH [OF w1(2,3) _ Cons.prems(4,5)]) (use Cons.prems(3,6) w1(4) in auto)
  then show ?case using w1(1) by auto
qed

text \<open>The two rounds: an election, then the entries and their acknowledgements.\<close>

definition commit_acts :: "nodeid \<Rightarrow> mem_storage node \<Rightarrow> u64 \<Rightarrow> u64 \<Rightarrow> nodeid list \<Rightarrow> action list" where
  "commit_acts i n now k js = election_acts i n now js
     @ map (share i now (n_term n + 1) (n_log n) k) js @ map (acknowledge i now (n_term n + 1) (n_log n)) js"

text \<open>
  C14: A stable majority commits.  When moreover the nodes of the majority have the log of the
  node whose deadline passed, one more round of messages (its entries, which carry some commit
  index \<open>k\<close>, and their acknowledgements) makes it commit its whole log, the entry of its own
  term included.
\<close>

theorem timely_commit:
  assumes "live_reach N w" and "up w i = Some n" and "role n \<noteq> Leader" and "election_deadline n \<le> now"
    and "clock_ok (cfg n) now" and "length (n_log n) + 2 < vec_cap" and "unat (n_term n) + 1 < 2 ^ 64"
    and "0 < max_batch (cfg n)" and "js \<noteq> []" and "distinct js" and "i \<notin> set js" and "majority N (insert i (set js))"
    and "\<And>j. j \<in> set js \<Longrightarrow> supports w (n_term n + 1) (n_log n) now j"
    and "\<And>j m. j \<in> set js \<Longrightarrow> up w j = Some m \<Longrightarrow> n_log m = n_log n"
  shows "\<exists>k w' n'. run mem_ops N (commit_acts i n now k js) w = Some w' \<and> live_reach N w'
    \<and> up w' i = Some n' \<and> role n' = Leader \<and> n_log n' = n_log n @ [\<lparr>e_term = n_term n + 1, command = []\<rparr>]
    \<and> commit_index n' = last_index n'"
proof -
  let ?t = "n_term n + 1" and ?L = "n_log n"
  note R = live_ready [OF assms(1,2)]
  have jN: "j < N" if "j \<in> set js" for j using assms(12) that by (auto simp: majority_def)
  obtain w1 n1 where w1: "run mem_ops N (election_acts i n now js) w = Some w1" "live_reach N w1"
    "up w1 i = Some n1" "cfg n1 = cfg n" "wins w1 i n1 ?t ?L"
    and voters: "\<forall>j \<in> set js. \<exists>m m'. up w j = Some m \<and> up w1 j = Some m' \<and> n_term m' = ?t
      \<and> n_log m' = n_log m \<and> cfg m' = cfg m"
    by (rule elected [OF assms(1-7,10-13)])
  obtain k where k: "\<And>p. p < N \<Longrightarrow> p \<noteq> i \<Longrightarrow>
      (i, p, AppendEntries ?t (of_nat (length ?L)) (last_entry_term ?L) [noop_of ?t] k) \<in> wire w1"
    and lead: "leads_on n1 ?t ?L"
    using w1(4,5) assms(8) R(3) unfolding wins_def by auto
  have same: "\<exists>m. up w1 j = Some m \<and> n_term m = ?t \<and> n_log m = ?L \<and> clock_ok (cfg m) now" if j: "j \<in> set js" for j
  proof -
    obtain m m' where m: "up w j = Some m" "up w1 j = Some m'" "n_term m' = ?t" "n_log m' = n_log m" "cfg m' = cfg m"
      using bspec [OF voters j] by blast
    moreover have "clock_ok (cfg m) now" using assms(13) [OF j] m(1) unfolding supports_def by auto
    ultimately show ?thesis using assms(14) [OF j m(1)] by auto
  qed
  have sent: "(i, j, AppendEntries ?t (of_nat (length ?L)) (last_entry_term ?L) [noop_of ?t] k) \<in> wire w1"
    if "j \<in> set js" for j using k jN [OF that] assms(11) that by metis
  obtain w2 where w2: "run mem_ops N (map (share i now ?t ?L k) js) w1 = Some w2" "live_reach N w2"
    "\<forall>j \<in> set js. (j, i, AppendResponse ?t True (of_nat (length ?L) + 1)) \<in> wire w2" "up w2 i = up w1 i"
    using share_round [OF w1(2) assms(10,11) R(4) assms(6) same sent] assms(11) by blast
  have "acked w2 i (cfg n) ?t ?L {}"
    using w1(3,4) w2(4) lead unfolding acked_def by simp
  then obtain w3 where w3: "run mem_ops N (map (acknowledge i now ?t ?L) js) w2 = Some w3" "live_reach N w3"
    "acked w3 i (cfg n) ?t ?L ({} \<union> set js)"
    using ack_round [OF w2(2) _ assms(11,5,6), of ?t "{}"] w2(3) jN by blast
  obtain n3 where n3: "up w3 i = Some n3" "cfg n3 = cfg n" "leads_on n3 ?t ?L" "set js \<subseteq> caught_up n3"
    and com: "majority N (insert i (caught_up n3)) \<longrightarrow> commit_index n3 = last_index n3"
    using w3(3) assms(9) R(3) unfolding acked_def by auto
  have "caught_up n3 \<subseteq> {..<N}"
    using readyD(7) [OF live_ready(1) [OF w3(2) n3(1)]] n3(2) R(3) by (auto simp: caught_up_def)
  then have sub: "insert i (caught_up n3) \<subseteq> {..<N}" "insert i (set js) \<subseteq> insert i (caught_up n3)"
    using R(4) n3(4) by auto
  then have "card (insert i (set js)) \<le> card (insert i (caught_up n3))"
    by (meson card_mono finite_lessThan finite_subset)
  then have "commit_index n3 = last_index n3"
    using com sub(1) assms(12) by (simp add: majority_def)
  moreover have "run mem_ops N (commit_acts i n now k js) w = Some w3"
    using w1(1) w2(1) w3(1) by (simp add: commit_acts_def run_append)
  ultimately show ?thesis
    using n3 w3(2) by (intro exI [of _ k] exI [of _ w3] exI [of _ n3]) (simp add: leads_on_def noop_of_def)
qed

section \<open>Two nodes of three that have just started\<close>

definition two_up :: "mem_storage world" where
  "two_up = (init_world empty_persistent)\<lparr>up := (\<lambda>_. None)(0 := Some (fresh_node 0 3), 1 := Some (fresh_node 1 3))\<rparr>"

lemma boot_live:
  assumes lr: "live_reach N w" and "up w i = None" and "i < N" and "disk w i = empty_persistent"
  shows "live_reach N (w\<lparr>up := (up w)(i := Some (fresh_node i N))\<rparr>)"
proof -
  have "\<exists>n. node_new mem_ops (config_new i N 7) empty_persistent 0 = Some n"
    using mem.node_new_total [of empty_persistent "config_new i N 7" 0] assms(3) by (auto simp: config_new_def clock_ok_def word_le_nat_alt word_less_nat_alt)
  then have "node_new mem_ops (config_new i N 7) empty_persistent 0 = Some (fresh_node i N)"
    by (auto simp: booted_def)
  then have "sys_step mem_ops N (Boot (config_new i N 7) 0) w = Some (w\<lparr>up := (up w)(i := Some (fresh_node i N))\<rparr>)"
    using assms(2,4) by (simp add: config_new_def)
  moreover have "action_room N w (Boot (config_new i N 7) 0)"
    using assms(2,3) by (simp add: config_new_def clock_ok_def word_le_nat_alt word_less_nat_alt)
  ultimately show ?thesis using lr_step [OF lr] by blast
qed

lemma two_up:
  "live_reach 3 two_up" "up two_up 0 = Some (fresh_node 0 3)" "up two_up 1 = Some (fresh_node 1 3)"
  "supports two_up 1 [] 300 1" "majority 3 {0, 1}"
proof -
  have "live_reach 3 (init_world empty_persistent)" by (rule lr_init) simp
  then have "live_reach 3 ((init_world empty_persistent)\<lparr>up := (\<lambda>_. None)(0 := Some (fresh_node 0 3))\<rparr>)"
    using boot_live [of 3 "init_world empty_persistent" 0] by (simp add: init_world_def)
  then show "live_reach 3 two_up"
    using boot_live [of 3 "(init_world empty_persistent)\<lparr>up := (\<lambda>_. None)(0 := Some (fresh_node 0 3))\<rparr>" 1]
    by (simp add: two_up_def init_world_def)
  show up: "up two_up 0 = Some (fresh_node 0 3)" "up two_up 1 = Some (fresh_node 1 3)"
    by (simp_all add: two_up_def)
  show "supports two_up 1 [] 300 1"
    using fresh_node(2-4) [of 1 3] up(2) by (simp add: supports_def up_to_date_def last_tm_def vec_cap_def)
  show "majority 3 {0, 1}" by (auto simp: majority_def)
qed

lemma fresh_deadline: "election_deadline (fresh_node 0 3) \<le> 300"
  using fresh_node(9) [of 0 3] by (simp add: word_le_nat_alt)

theorem timely_election_witness:
  "\<exists>w' n'. run mem_ops 3 (election_acts 0 (fresh_node 0 3) 300 [1]) two_up = Some w'
    \<and> up w' 0 = Some n' \<and> role n' = Leader \<and> n_term n' = 1 \<and> n_log n' = [\<lparr>e_term = 1, command = []\<rparr>]"
  using timely_election [of 3 two_up 0 "fresh_node 0 3" 300 "[1]"] fresh_node(2-6) [of 0 3] fresh_deadline two_up
  by (auto simp: vec_cap_def)

theorem timely_commit_witness:
  "\<exists>k w' n'. run mem_ops 3 (commit_acts 0 (fresh_node 0 3) 300 k [1]) two_up = Some w'
    \<and> up w' 0 = Some n' \<and> n_log n' = [\<lparr>e_term = 1, command = []\<rparr>] \<and> commit_index n' = last_index n'"
proof -
  have "0 < max_batch (cfg (fresh_node 0 3))" using fresh_node(2) [of 0 3] by (simp add: config_new_def)
  moreover have "n_log (fresh_node 1 3) = []" using fresh_node(4) [of 1 3] by simp
  ultimately show ?thesis
    using timely_commit [of 3 two_up 0 "fresh_node 0 3" 300 "[1]"] fresh_node(2-6) [of 0 3] fresh_deadline two_up
    by (auto simp: vec_cap_def)
qed

end
