(* ===== verification/Delivery.thy ===== *)
theory Delivery
  imports Safety Node_Limits
begin

text \<open>
  What a state machine is given between two starts of its node.  The commit index falls in one
  case only, which is characterised here; as long as it does not, the entries handed over by
  \<open>take_committed\<close> are the log from its first entry on, each once and in order, and even when it
  does, no entry is skipped.
\<close>

section \<open>The applied and the commit index\<close>

text \<open>The applied index stays and the commit index does not fall.\<close>

definition advances :: "'s node \<Rightarrow> 's node \<Rightarrow> bool" where
  "advances n n' \<longleftrightarrow> applied_index n' = applied_index n \<and> commit_index n \<le> commit_index n'"

lemma advances_refl [simp, intro]: "advances n n"
  by (simp add: advances_def)

lemma advances_trans: "advances n m \<Longrightarrow> advances m k \<Longrightarrow> advances n k"
  by (auto simp: advances_def)

lemma advances_update [simp]:
  "advances n (m\<lparr>role := a\<rparr>) = advances n m" "advances n (m\<lparr>store := b\<rparr>) = advances n m"
  "advances n (m\<lparr>n_term := c\<rparr>) = advances n m" "advances n (m\<lparr>voted_for := d\<rparr>) = advances n m"
  "advances n (m\<lparr>leader_id := e\<rparr>) = advances n m" "advances n (m\<lparr>n_log := f\<rparr>) = advances n m"
  "advances n (m\<lparr>votes := g\<rparr>) = advances n m" "advances n (m\<lparr>next_index := h\<rparr>) = advances n m"
  "advances n (m\<lparr>match_index := i\<rparr>) = advances n m" "advances n (m\<lparr>election_deadline := j\<rparr>) = advances n m"
  "advances n (m\<lparr>heartbeat_deadline := k\<rparr>) = advances n m" "advances n (m\<lparr>rng := l\<rparr>) = advances n m"
  by (simp_all add: advances_def)

lemma advances_persist: "persist_hard_state st n = Some n' \<Longrightarrow> advances n n'"
  by (auto simp: persist_hard_state_def bind_eq_Some_conv)

lemma advances_reset: "reset_election_timer n now = Some n' \<Longrightarrow> advances n n'"
  using reset_election_timer_SomeD by fastforce

lemma advances_log_append: "log_append st n es = Some n' \<Longrightarrow> advances n n' \<and> log_fits n'"
  using log_append_SomeD by fastforce

lemma advances_commit: "advance_commit n = Some n' \<Longrightarrow> log_fits n \<Longrightarrow> advances n n'"
  using advance_commit_SomeD [of n n'] by (auto simp: advances_def word_le_nat_alt)

lemma advances_step_down: "step_down st n now t = Some n' \<Longrightarrow> advances n n'"
  by (auto simp: step_down_def persist_hard_state_def bind_eq_Some_conv dest!: reset_election_timer_SomeD)

lemma advances_append_commit:
  assumes "log_append st n es = Some n1" and "advance_commit n1 = Some n2"
  shows "advances n n2"
  using advances_log_append [OF assms(1)] advances_commit [OF assms(2)] advances_trans by blast

lemma advances_become_leader:
  assumes "become_leader st n now = Some (n', out)"
  shows "advances n n'"
proof -
  obtain nx hb n1 n2 where "log_append st (n\<lparr>role := Leader, leader_id := Some (cfg_id (cfg n)),
      next_index := replicate (cluster_size (cfg n)) nx, match_index := replicate (cluster_size (cfg n)) 0\<rparr>)
        [\<lparr>e_term = n_term n, command = []\<rparr>] = Some n1"
    "advance_commit n1 = Some n2" and n': "n' = n2\<lparr>heartbeat_deadline := hb\<rparr>"
    using assms unfolding become_leader_def Let_def by (auto simp: bind_eq_Some_conv)
  from advances_append_commit [OF this(1,2)] show ?thesis by (simp add: n' advances_def)
qed

lemma advances_start_election:
  assumes "start_election st n now = Some (n', out)"
  shows "advances n n'"
proof -
  obtain t m vs k where p: "persist_hard_state st (n\<lparr>n_term := t, voted_for := Some (cfg_id (cfg n))\<rparr>) = Some m"
    and r: "reset_election_timer (m\<lparr>role := Candidate, leader_id := None, votes := vs\<rparr>) now = Some k"
    and rest: "become_leader st k now = Some (n', out) \<or> n' = k"
    using assms unfolding start_election_def Let_def by (auto simp: bind_eq_Some_conv split: if_splits)
  have "advances n k"
    using advances_persist [OF p] advances_reset [OF r] by (auto simp: advances_def)
  then show ?thesis using rest advances_become_leader advances_trans by blast
qed

lemma advances_tick: "tick st n now = Some (n', out) \<Longrightarrow> advances n n'"
  using advances_start_election
  by (fastforce simp: tick_def bind_eq_Some_conv Let_def split: role.splits if_splits)

lemma advances_propose: "propose st n now cmd = Some (n', r) \<Longrightarrow> advances n n'"
  using advances_append_commit
  by (fastforce simp: propose_def bind_eq_Some_conv split: if_splits)

lemma advances_request_vote: "on_request_vote st n now src t li lt = Some (n', out) \<Longrightarrow> advances n n'"
  by (auto simp: on_request_vote_def persist_hard_state_def bind_eq_Some_conv Let_def split: if_splits
      dest!: reset_election_timer_SomeD)

lemma advances_vote_response:
  assumes "on_vote_response st n now src t g = Some (n', out)"
  shows "advances n n'"
proof (cases "role n \<noteq> Candidate \<or> t \<noteq> n_term n \<or> \<not> g")
  case False
  then obtain vs where "become_leader st (n\<lparr>votes := vs\<rparr>) now = Some (n', out) \<or> n' = n\<lparr>votes := vs\<rparr>"
    using assms by (auto simp: on_vote_response_def bind_eq_Some_conv Let_def split: if_splits)
  then show ?thesis using advances_become_leader by (fastforce simp: advances_def)
qed (use assms in \<open>auto simp: on_vote_response_def\<close>)

lemma advances_append_response:
  assumes "on_append_response n src t s k = Some (n', out)" and "log_fits n"
  shows "advances n n'"
proof -
  have "advances n n'" if "advance_commit (n\<lparr>match_index := ms, next_index := ns\<rparr>) = Some n'" for ms ns n'
    using advances_commit [OF that] assms(2) by (simp add: advances_def)
  then show ?thesis
    using assms(1) by (auto simp: on_append_response_def bind_eq_Some_conv Let_def split: if_splits)
qed

lemma append_loop_indices:
  "append_loop st n p k es = Some n' \<Longrightarrow> applied_index n' = applied_index n \<and> commit_index n' = commit_index n"
proof (induction es arbitrary: n k)
  case (Cons e es)
  have la: "applied_index m' = applied_index m \<and> commit_index m' = commit_index m" if "log_append st m xs = Some m'" for m m' xs
    using log_append_SomeD [OF that] by auto
  have cut: "\<exists>m. log_append st m (e # es) = Some n' \<and> applied_index m = applied_index n \<and> commit_index m = commit_index n"
    if "log_append st (n\<lparr>store := s, n_log := L\<rparr>) (e # es) = Some n'" for s L
    using that by (intro exI [of _ "n\<lparr>store := s, n_log := L\<rparr>"]) simp
  have "append_loop st n p (Suc k) es = Some n'
      \<or> (\<exists>m. log_append st m (e # es) = Some n' \<and> applied_index m = applied_index n \<and> commit_index m = commit_index n)"
    using Cons.prems by (auto simp: bind_eq_Some_conv Let_def split: if_splits dest!: cut)
  then show ?case using Cons.IH la by metis
qed simp

lemma applied_append_entries:
  "on_append_entries st n now src t p pt es lc = Some (n', out) \<Longrightarrow> applied_index n' = applied_index n"
proof -
  assume run: "on_append_entries st n now src t p pt es lc = Some (n', out)"
  show "applied_index n' = applied_index n"
  proof (cases "t < n_term n")
    case False
    obtain m where r: "reset_election_timer (n\<lparr>role := Follower, leader_id := Some src\<rparr>) now = Some m"
      and rest: "n' = m \<or> (\<exists>m1. append_loop st m p 0 es = Some m1 \<and> applied_index n' = applied_index m1)"
      using run False by (auto simp: on_append_entries_def bind_eq_Some_conv Let_def split: if_splits)
    have "applied_index m = applied_index n" using reset_election_timer_SomeD [OF r] by auto
    then show ?thesis using rest append_loop_indices by metis
  qed (use run in \<open>simp add: on_append_entries_def\<close>)
qed

lemma applied_handle:
  assumes "handle st n now src m = Some (n', out)" and "log_fits n"
  shows "applied_index n' = applied_index n"
    and "(\<forall>t p pt es lc. m \<noteq> AppendEntries t p pt es lc) \<Longrightarrow> commit_index n \<le> commit_index n'"
proof -
  have "applied_index n' = applied_index n \<and> ((\<forall>t p pt es lc. m \<noteq> AppendEntries t p pt es lc) \<longrightarrow> commit_index n \<le> commit_index n')"
  proof (cases "src = cfg_id (cfg n) \<or> src \<ge> cluster_size (cfg n)")
    case False
    obtain n1 where n1: "(if msg_term m > n_term n then step_down st n now (msg_term m) else Some n) = Some n1"
      and rest: "(case m of
           RequestVote t li lt \<Rightarrow> on_request_vote st n1 now src t li lt
         | VoteResponse t g \<Rightarrow> on_vote_response st n1 now src t g
         | AppendEntries t p pt es lc \<Rightarrow> on_append_entries st n1 now src t p pt es lc
         | AppendResponse t s k \<Rightarrow> on_append_response n1 src t s k) = Some (n', out)"
      using assms(1) False unfolding handle_def by (auto simp: bind_eq_Some_conv)
    have a: "advances n n1" using n1 advances_step_down by (auto split: if_splits)
    have "n_log n1 = n_log n"
      using n1 by (auto simp: step_down_def persist_hard_state_def bind_eq_Some_conv split: if_splits
          dest!: reset_election_timer_SomeD)
    then have f: "log_fits n1" using assms(2) by (simp add: log_fits_def)
    show ?thesis
    proof (cases m)
      case (RequestVote t li lt)
      then show ?thesis using rest advances_request_vote advances_trans [OF a] by (fastforce simp: advances_def)
    next
      case (VoteResponse t g)
      then show ?thesis using rest advances_vote_response advances_trans [OF a] by (fastforce simp: advances_def)
    next
      case (AppendEntries t p pt es lc)
      then show ?thesis using rest applied_append_entries a by (fastforce simp: advances_def)
    next
      case (AppendResponse t s k)
      then show ?thesis using rest advances_append_response [OF _ f] advances_trans [OF a] by (fastforce simp: advances_def)
    qed
  qed (use assms(1) in \<open>auto simp: handle_def\<close>)
  then show "applied_index n' = applied_index n"
    and "(\<forall>t p pt es lc. m \<noteq> AppendEntries t p pt es lc) \<Longrightarrow> commit_index n \<le> commit_index n'" by blast+
qed

section \<open>What a state machine is given\<close>

lemma take_committed_eq:
  assumes "take_committed n = Some (n', es)"
  shows "es = map (\<lambda>k. (of_nat k, n_log n ! (k - 1))) [unat (applied_index n) + 1..<unat (commit_index n) + 1]"
    and "n' = n\<lparr>applied_index := commit_index n\<rparr>"
proof -
  obtain lo where lo: "add64 (applied_index n) 1 = Some lo"
    and es: "map_opt (\<lambda>i. do { e \<leftarrow> vec_get (n_log n) (i - 1); Some (of_nat i :: u64, e) })
      [unat lo..<Suc (unat (commit_index n))] = Some es"
    and n': "n' = n\<lparr>applied_index := commit_index n\<rparr>"
    using assms by (auto simp: take_committed_def bind_eq_Some_conv)
  have "es = map (\<lambda>k. (of_nat k, n_log n ! (k - 1))) [unat lo..<Suc (unat (commit_index n))]"
    by (rule map_opt_map [OF es]) (auto simp: bind_eq_Some_conv dest: vec_get_SomeD)
  then show "es = map (\<lambda>k. (of_nat k, n_log n ! (k - 1))) [unat (applied_index n) + 1..<unat (commit_index n) + 1]"
    using add64_Some_unat [OF lo] by simp
  show "n' = n\<lparr>applied_index := commit_index n\<rparr>" by (rule n')
qed

text \<open>What an action hands to the state machine of node \<open>i\<close>.\<close>

fun handed :: "nodeid \<Rightarrow> action \<Rightarrow> 's world \<Rightarrow> (u64 \<times> entry) list" where
  "handed i (Deliver j) w =
     (if i = j then (case up w j of Some n \<Rightarrow> (case take_committed n of Some (n', es) \<Rightarrow> es | None \<Rightarrow> []) | None \<Rightarrow> [])
      else [])"
| "handed i act w = []"

text \<open>
  The entries handed over by node \<open>i\<close> in a run, and whether its commit index fell; both start
  afresh when the node starts.
\<close>

fun history :: "'s storage_ops \<Rightarrow> nat \<Rightarrow> nodeid \<Rightarrow> action list \<Rightarrow> 's world
    \<Rightarrow> (u64 \<times> entry) list \<times> bool \<Rightarrow> (u64 \<times> entry) list \<times> bool" where
  "history st N i [] w h = h"
| "history st N i (act # acts) w h =
     (case sys_step st N act w of
        None \<Rightarrow> h
      | Some w' \<Rightarrow> history st N i acts w'
          (case (up w i, up w' i) of
             (Some n, Some n') \<Rightarrow> (fst h @ handed i act w, snd h \<or> commit_index n' < commit_index n)
           | _ \<Rightarrow> ([], False)))"

text \<open>Each index is at most one above the one before it.\<close>

fun gapless :: "nat \<Rightarrow> nat list \<Rightarrow> bool" where
  "gapless m [] \<longleftrightarrow> True"
| "gapless m (k # ks) \<longleftrightarrow> k \<le> m + 1 \<and> gapless k ks"

lemma gapless_append: "gapless m (xs @ ys) \<longleftrightarrow> gapless m xs \<and> gapless (last (m # xs)) ys"
  by (induction xs arbitrary: m) auto

lemma gapless_upt: "a \<le> m + 1 \<Longrightarrow> gapless m [a..<b]"
proof (induction "b - a" arbitrary: a m)
  case (Suc d)
  then have "[a..<b] = a # [Suc a..<b]" by (simp add: upt_conv_Cons)
  then show ?case using Suc by simp
qed simp

lemma given_step: "sys_step st N act w = Some w' \<Longrightarrow> given w \<subseteq> given w'"
  by (induction st N act w rule: sys_step.induct) (auto simp: bind_eq_Some_conv put_node_def split: if_splits)

lemma handed_given:
  assumes "sys_step st N act w = Some w'" and "up w i = Some n" and "(k, e) \<in> set (handed i act w)"
  shows "(i, n_term n, k, e) \<in> given w'"
proof (cases act)
  case (Deliver j)
  have "i = j" using assms(3) unfolding Deliver by (cases "i = j") simp_all
  then obtain n' es where "take_committed n = Some (n', es)" "(k, e) \<in> set es"
    using assms(2,3) unfolding Deliver by (cases "take_committed n") auto
  moreover have "w' = w\<lparr>up := (up w)(i := Some n'), given := given w \<union> (\<lambda>(k, e). (i, n_term n, k, e)) ` set es\<rparr>"
    using assms(1,2) Deliver \<open>i = j\<close> calculation(1) by simp
  ultimately show ?thesis by (auto simp: image_iff intro!: bexI [of _ "(k, e)"])
qed (use assms(3) in auto)

text \<open>What one action does to the indices of a node that is up before and after it.\<close>

lemma step_indices:
  assumes "sys_step st N act w = Some w'" and "up w i = Some n" and "up w' i = Some n'" and "log_fits n"
  shows "(handed i act w = [] \<and> applied_index n' = applied_index n)
    \<or> (handed i act w = map (\<lambda>k. (of_nat k, n_log n ! (k - 1))) [unat (applied_index n) + 1..<unat (commit_index n) + 1]
       \<and> applied_index n' = commit_index n \<and> commit_index n' = commit_index n)"
proof (cases act)
  case (Deliver j)
  then obtain m m' es where m: "up w j = Some m" "take_committed m = Some (m', es)"
    "w' = w\<lparr>up := (up w)(j := Some m'), given := given w \<union> (\<lambda>(k, e). (j, n_term m, k, e)) ` set es\<rparr>"
    using assms(1) by (auto simp: bind_eq_Some_conv)
  then show ?thesis
    using assms(2,3) Deliver take_committed_eq [OF m(2)] by (cases "i = j") auto
next
  case (Tick j now)
  then show ?thesis using assms by (auto simp: bind_eq_Some_conv put_node_def advances_def split: if_splits dest!: advances_tick)
next
  case (Receive src j m now)
  then show ?thesis
    using assms by (auto simp: bind_eq_Some_conv put_node_def split: if_splits dest!: applied_handle(1))
next
  case (Propose j now cmd)
  then show ?thesis using assms by (auto simp: bind_eq_Some_conv put_node_def advances_def split: if_splits dest!: advances_propose)
next
  case (Crash j)
  then show ?thesis using assms by (auto simp: bind_eq_Some_conv split: if_splits)
next
  case (Boot c now)
  then show ?thesis using assms by (auto simp: bind_eq_Some_conv split: if_splits)
next
  case (Power_Loss a k)
  then show ?thesis using assms by (auto simp: bind_eq_Some_conv split: if_splits)
qed

text \<open>A node that was down has just started.\<close>

lemma step_started:
  assumes "sys_step st N act w = Some w'" and "up w i = None" and "up w' i = Some n'"
  shows "applied_index n' = 0 \<and> commit_index n' = 0"
proof -
  have "applied_index n = 0 \<and> commit_index n = 0" if "node_new st c s now = Some n" for c s now n
    using that by (auto simp: node_new_def bind_eq_Some_conv Let_def split: if_splits dest!: reset_election_timer_SomeD)
  then show ?thesis
    using assms by (cases act) (auto simp: bind_eq_Some_conv put_node_def split: if_splits)
qed

text \<open>The history up to now of a node that is up, against its indices.\<close>

definition history_ok :: "nodeid \<Rightarrow> mem_storage world \<Rightarrow> (u64 \<times> entry) list \<times> bool \<Rightarrow> bool" where
  "history_ok i w h \<longleftrightarrow> (\<forall>n. up w i = Some n \<longrightarrow>
     (\<forall>(k, e) \<in> set (fst h). \<exists>t. (i, t, k, e) \<in> given w)
   \<and> gapless 0 (map (unat \<circ> fst) (fst h))
   \<and> unat (applied_index n) \<le> last (0 # map (unat \<circ> fst) (fst h))
   \<and> (\<not> snd h \<longrightarrow> applied_index n \<le> commit_index n \<and> map (unat \<circ> fst) (fst h) = [1..<unat (applied_index n) + 1]))"

lemma history_okD:
  assumes "history_ok i w h" and "up w i = Some n"
  shows "(k, e) \<in> set (fst h) \<Longrightarrow> \<exists>t. (i, t, k, e) \<in> given w"
    and "gapless 0 (map (unat \<circ> fst) (fst h))"
    and "unat (applied_index n) \<le> last (0 # map (unat \<circ> fst) (fst h))"
    and "\<not> snd h \<Longrightarrow> unat (applied_index n) \<le> unat (commit_index n)"
    and "\<not> snd h \<Longrightarrow> map (unat \<circ> fst) (fst h) = [1..<unat (applied_index n) + 1]"
  using assms unfolding history_ok_def word_le_nat_alt by blast+

lemma unat_upt:
  "b \<le> 2 ^ 64 \<Longrightarrow> map (unat \<circ> fst) (map (\<lambda>k. (of_nat k :: u64, f k)) [a..<b]) = [a..<b]"
  by (auto intro!: map_idI simp: unat_of_nat take_bit_nat_eq_self)

lemma history_step:
  assumes reach: "mem_reach N w" and ok: "history_ok i w h" and step: "sys_step mem_ops N act w = Some w'"
  shows "history_ok i w' (case (up w i, up w' i) of
             (Some n, Some n') \<Rightarrow> (fst h @ handed i act w, snd h \<or> commit_index n' < commit_index n)
           | _ \<Rightarrow> ([], False))"
proof (cases "up w' i")
  case (Some n')
  show ?thesis
  proof (cases "up w i")
    case None
    then show ?thesis using step_started [OF step None Some] Some by (simp add: history_ok_def)
  next
    case up: (Some n)
    let ?ks = "map (unat \<circ> fst) (fst h)" and ?new = "handed i act w"
    note O = history_okD [OF ok up]
    obtain a where a: "world_rel mem_view mem_ok N w a" using mem_reach_rel [OF reach] by blast
    have fits: "log_fits n" using node_okD relatedD(1) [OF site_up [OF world_relD(2) [OF a] up]] by fastforce
    have given: "\<forall>(k, e) \<in> set (fst h @ ?new). \<exists>t. (i, t, k, e) \<in> given w'"
    proof (intro ballI case_prodI2)
      fix x k e assume "x \<in> set (fst h @ ?new)" "x = (k, e)"
      then show "\<exists>t. (i, t, k, e) \<in> given w'"
        using O(1) [of k e] given_step [OF step] handed_given [OF step up, of k e] by auto
    qed
    from step_indices [OF step up Some fits]
    have "gapless 0 (map (unat \<circ> fst) (fst h @ ?new))
      \<and> unat (applied_index n') \<le> last (0 # map (unat \<circ> fst) (fst h @ ?new))
      \<and> (\<not> (snd h \<or> commit_index n' < commit_index n) \<longrightarrow> applied_index n' \<le> commit_index n'
           \<and> map (unat \<circ> fst) (fst h @ ?new) = [1..<unat (applied_index n') + 1])"
    proof
      assume "?new = [] \<and> applied_index n' = applied_index n"
      then show ?thesis using O(2-5) by (auto simp: word_le_nat_alt not_less simp del: last.simps)
    next
      let ?is = "[unat (applied_index n) + 1..<unat (commit_index n) + 1]"
      assume "?new = map (\<lambda>k. (of_nat k, n_log n ! (k - 1))) ?is
        \<and> applied_index n' = commit_index n \<and> commit_index n' = commit_index n"
      then have eq: "?new = map (\<lambda>k. (of_nat k, n_log n ! (k - 1))) ?is"
        and n': "applied_index n' = commit_index n" "commit_index n' = commit_index n" by blast+
      have new: "map (unat \<circ> fst) ?new = ?is"
        unfolding eq using unat_lt_2_64 [of "commit_index n"] by (intro unat_upt) simp
      have ks: "map (unat \<circ> fst) (fst h @ ?new) = ?ks @ ?is" using new by simp
      have gap: "gapless 0 (?ks @ ?is)"
        unfolding gapless_append
      proof (intro conjI gapless_upt)
        show "gapless 0 ?ks" by (rule O(2))
        show "unat (applied_index n) + 1 \<le> last (0 # ?ks) + 1" using O(3) by (rule add_right_mono)
      qed
      have top: "unat (commit_index n) \<le> last (0 # ?ks @ ?is)"
      proof (cases "unat (applied_index n) < unat (commit_index n)")
        case True
        then have "?is = [unat (applied_index n) + 1..<unat (commit_index n)] @ [unat (commit_index n)]" by simp
        then show ?thesis by simp
      next
        case False
        then show ?thesis using O(3) by simp
      qed
      have "?ks @ ?is = [1..<unat (commit_index n) + 1]" if "\<not> snd h"
      proof -
        have "unat (applied_index n) \<le> unat (commit_index n)" "?ks = [1..<unat (applied_index n) + 1]"
          using O(4,5) that by blast+
        then show ?thesis using upt_add_eq_append [of 1 "unat (applied_index n) + 1" "unat (commit_index n) - unat (applied_index n)"]
          by simp
      qed
      then show ?thesis unfolding ks n' using gap top by simp
    qed
    then show ?thesis using given by (simp add: history_ok_def up Some)
  qed
qed (simp add: history_ok_def)

lemma history_run:
  "mem_reach N w \<Longrightarrow> history_ok i w h \<Longrightarrow> run mem_ops N acts w = Some w' \<Longrightarrow>
    mem_reach N w' \<and> history_ok i w' (history mem_ops N i acts w h)"
proof (induction acts arbitrary: w h)
  case (Cons act acts)
  obtain w1 where w1: "sys_step mem_ops N act w = Some w1" "run mem_ops N acts w1 = Some w'"
    using Cons.prems(3) by (auto simp: bind_eq_Some_conv)
  from Cons.IH [OF mem_reach_step [OF Cons.prems(1) w1(1)] history_step [OF Cons.prems(1,2) w1(1)] w1(2)]
  show ?case using w1(1) by simp
qed simp

text \<open>
  C21: Delivery.  In a run of the cluster, consider what \<open>take_committed\<close> has handed to the state
  machine of a node that is up since the node was started.  Every entry is still the entry of the
  node's log at the index it came with.  No entry is skipped: each index is at most one above the
  one before it, from 1 on.  And unless the commit index of the node fell in between, each entry
  was handed over once and in order: together they are the log up to the applied index.
\<close>

theorem deliveries_in_order:
  assumes "N < 2 ^ 64" and "run mem_ops N acts (init_world empty_persistent) = Some w" and "up w i = Some n"
    and "history mem_ops N i acts (init_world empty_persistent) ([], False) = (ds, fell)"
  shows "(\<forall>(k, e) \<in> set ds. 0 < unat k \<and> unat k \<le> length (n_log n) \<and> n_log n ! (unat k - 1) = e)
    \<and> gapless 0 (map (unat \<circ> fst) ds)
    \<and> (\<not> fell \<longrightarrow> ds = map (\<lambda>k. (of_nat k, n_log n ! (k - 1))) [1..<unat (applied_index n) + 1])"
proof -
  have "mem_reach N (init_world empty_persistent)" using assms(1) by (simp add: mem_reach_def sr_init)
  moreover have "history_ok i (init_world empty_persistent) ([], False)" by (simp add: history_ok_def init_world_def)
  ultimately have w: "mem_reach N w" "history_ok i w (ds, fell)"
    using history_run [OF _ _ assms(2)] assms(4) by force+
  note O = history_okD [OF w(2) assms(3), unfolded fst_conv snd_conv]
  obtain a where a: "world_rel mem_view mem_ok N w a" using mem_reach_rel [OF w(1)] by blast
  have rel: "related mem_view mem_ok N i n a" by (rule site_up [OF world_relD(2) [OF a] assms(3)])
  have i: "i < N" and log: "p_log (durable mem_view w i) = n_log n"
    using node_okD [OF relatedD(1) [OF rel]] assms(3) by (auto simp: durable_def)
  have entries: "0 < unat k \<and> unat k \<le> length (n_log n) \<and> n_log n ! (unat k - 1) = e" if "(k, e) \<in> set ds" for k e
    using O(1) [OF that] given_durable [OF a _ i] unfolding log by blast
  have "ds = map (\<lambda>k. (of_nat k, n_log n ! (k - 1))) [1..<unat (applied_index n) + 1]" if "\<not> fell"
  proof -
    have "map (unat \<circ> fst) ds = [1..<unat (applied_index n) + 1]" using O(5) that by blast
    then have "map (\<lambda>k. (of_nat k, n_log n ! (k - 1))) [1..<unat (applied_index n) + 1]
      = map ((\<lambda>k. (of_nat k, n_log n ! (k - 1))) \<circ> (unat \<circ> fst)) ds" by (metis list.map_comp)
    also have "\<dots> = ds" using entries by (intro map_idI) auto
    finally show ?thesis by simp
  qed
  then show ?thesis using entries O(2) by blast
qed

text \<open>The run of \<open>Scenario\<close>, in which node 1 delivers the entry of node 0.\<close>

theorem deliveries_in_order_witness:
  "history mem_ops 3 1 demo_acts (init_world empty_persistent) ([], False) = ([(1, noop)], False)
   \<and> (\<exists>n. up demo_world 1 = Some n \<and> [(1 :: u64, noop)] = map (\<lambda>k. (of_nat k, n_log n ! (k - 1))) [1..<unat (applied_index n) + 1])"
proof -
  have h: "history mem_ops 3 1 demo_acts (init_world empty_persistent) ([], False) = ([(1, noop)], False)"
    by code_simp
  obtain n where n: "up demo_world 1 = Some n" by (rule demo_nodes)
  have N: "(3 :: nat) < 2 ^ 64" and False: "\<not> False" by simp_all
  have "[(1 :: u64, noop)] = map (\<lambda>k. (of_nat k, n_log n ! (k - 1))) [1..<unat (applied_index n) + 1]"
    using mp [OF conjunct2 [OF conjunct2 [OF deliveries_in_order [OF N demo_world(1) n h]]] False] .
  note delivered = this
  show ?thesis by (intro conjI exI [of _ n] h n delivered)
qed

text \<open>
  C39: The commit index falls in one case.  A tick and a proposal never lower it, and a message
  lowers it exactly when it is an accepted \<open>AppendEntries\<close> with a leader commit above the node's
  commit index and with entries that end below it.  If everything committed had been delivered, the
  applied index then falls with it at the next call of \<open>take_committed\<close>, and the entries in between
  are handed over a second time once they are committed again.
\<close>

theorem commit_index_falls:
  assumes "ready mem_view mem_ok n" and "src \<noteq> cfg_id (cfg n)" and "src < cluster_size (cfg n)"
  shows "(tick mem_ops n now = Some (n1, out) \<longrightarrow> commit_index n \<le> commit_index n1)
    \<and> (propose mem_ops n now cmd = Some (n2, r) \<longrightarrow> commit_index n \<le> commit_index n2)
    \<and> (handle mem_ops n now src m = Some (n', out') \<longrightarrow>
        (commit_index n' < commit_index n \<longleftrightarrow>
          (\<exists>t p pt es lc. m = AppendEntries t p pt es lc \<and> n_term n \<le> t
             \<and> unat p \<le> length (n_log n) \<and> tm_before (n_log n) (unat p) = unat pt
             \<and> commit_index n < lc \<and> p + of_nat (length es) < commit_index n))
        \<and> (commit_index n' < commit_index n \<longrightarrow> applied_index n = commit_index n \<longrightarrow>
            take_committed n' = Some (n'\<lparr>applied_index := commit_index n'\<rparr>, [])))"
proof (intro conjI impI)
  note R = readyD [OF assms(1)]
  show "commit_index n \<le> commit_index n1" if "tick mem_ops n now = Some (n1, out)"
    using advances_tick [OF that] by (simp add: advances_def)
  show "commit_index n \<le> commit_index n2" if "propose mem_ops n now cmd = Some (n2, r)"
    using advances_propose [OF that] by (simp add: advances_def)
  assume h: "handle mem_ops n now src m = Some (n', out')"
  note H = applied_handle [OF h R(8)]
  show "commit_index n' < commit_index n \<longleftrightarrow>
          (\<exists>t p pt es lc. m = AppendEntries t p pt es lc \<and> n_term n \<le> t
             \<and> unat p \<le> length (n_log n) \<and> tm_before (n_log n) (unat p) = unat pt
             \<and> commit_index n < lc \<and> p + of_nat (length es) < commit_index n)"
  proof (cases "\<exists>t p pt es lc. m = AppendEntries t p pt es lc")
    case True
    then obtain t p pt es lc where m: "m = AppendEntries t p pt es lc" by blast
    show ?thesis using append_result [OF assms(1-3) h [unfolded m]] by (auto simp: m min_less_iff_disj split: if_splits)
  next
    case False
    then show ?thesis using H(2) by fastforce
  qed
  assume f: "commit_index n' < commit_index n" and a: "applied_index n = commit_index n"
  have "unat (commit_index n) < vec_cap" using R(8,10) by (simp add: log_fits_def)
  then have room: "unat (commit_index n) + unat (1 :: u64) < 18446744073709551616" using vec_cap_less by simp
  have "unat (commit_index n + 1) = unat (commit_index n) + 1"
    using add64_Some_unat [OF add64_defined [OF room]] by simp
  moreover have "unat (commit_index n') < unat (commit_index n)" using f by (simp add: word_less_nat_alt)
  ultimately have "[unat (commit_index n + 1)..<Suc (unat (commit_index n'))] = []" by simp
  then show "take_committed n' = Some (n'\<lparr>applied_index := commit_index n'\<rparr>, [])"
    unfolding take_committed_def H(1) a add64_defined [OF room] by simp
qed

text \<open>A follower with two delivered entries gets a duplicate of the batch with the first.\<close>

definition two_entries :: persistent where
  "two_entries = \<lparr>p_term = 1, p_voted_for = None, p_log = [cmd_entry 1, cmd_entry 2]\<rparr>"

theorem commit_index_falls_witness:
  "\<exists>n' out. handle mem_ops ((booted 1 3 two_entries)\<lparr>commit_index := 2, applied_index := 2\<rparr>) 0 0 first_batch = Some (n', out)
    \<and> commit_index n' < 2 \<and> take_committed n' = Some (n'\<lparr>applied_index := commit_index n'\<rparr>, [])"
proof -
  let ?n = "(booted 1 3 two_entries)\<lparr>commit_index := 2, applied_index := 2\<rparr>"
  have ok: "mem_ok two_entries" by (simp add: two_entries_def mem_ok_def vec_cap_def vote_storable_def)
  note B = booted [of 1 3 two_entries]
  have f: "n_log ?n = [cmd_entry 1, cmd_entry 2]" "cfg ?n = config_new 1 3 7" "n_term ?n = 1" "commit_index ?n = 2"
    "applied_index ?n = 2" "role ?n = Follower"
    using B(2-6) by (simp_all add: two_entries_def)
  have r: "ready mem_view mem_ok ?n"
    using B(1) ok f(1) by (simp add: ready_def node_ok_def log_fits_def indices_ok_def)
  obtain n' out where h: "handle mem_ops ?n 0 0 first_batch = Some (n', out)"
    using mem.handle_total [OF r, of 0 first_batch 0] f by (auto simp: first_batch_def vec_cap_def)
  have "n_term ?n \<le> 1 \<and> unat 0 \<le> length (n_log ?n) \<and> tm_before (n_log ?n) (unat 0) = unat 0
    \<and> commit_index ?n < 3 \<and> 0 + of_nat (length [cmd_entry 1]) < commit_index ?n"
    using f by (simp add: tm_before_def)
  then have "commit_index n' < commit_index ?n"
    using commit_index_falls [OF r, of 0 0 _ _ _ _ _ first_batch n' out] h f(2) unfolding first_batch_def config_new_def by auto
  then show ?thesis
    using commit_index_falls [OF r, of 0 0 _ _ _ _ _ first_batch n' out] h f by (auto simp: config_new_def)
qed

end
