(* ===== verification/Ordered_Map.thy ===== *)
theory Ordered_Map
  imports Prelude "HOL-Library.List_Lexorder"
begin

text \<open>
  The standard library's ordered map (\<open>BTreeMap\<close>), as the list of its pairs in ascending key
  order: what \<open>iter\<close> yields.  The locale \<open>ordered_map\<close> is the contract its clients use;
  byte strings are ordered lexicographically, as \<open>Vec<u8>\<close> is.
\<close>

section \<open>Operations\<close>

fun map_insert :: "'k::linorder \<Rightarrow> 'v \<Rightarrow> ('k \<times> 'v) list \<Rightarrow> ('k \<times> 'v) list" where
  "map_insert k v [] = [(k, v)]"
| "map_insert k v ((a, b) # xs) =
     (if k < a then (k, v) # (a, b) # xs
      else if k = a then (k, v) # xs
      else (a, b) # map_insert k v xs)"

fun map_remove :: "'k::linorder \<Rightarrow> ('k \<times> 'v) list \<Rightarrow> ('k \<times> 'v) list" where
  "map_remove k [] = []"
| "map_remove k ((a, b) # xs) = (if k = a then xs else (a, b) # map_remove k xs)"

fun map_get :: "('k::linorder \<times> 'v) list \<Rightarrow> 'k \<Rightarrow> 'v option" where
  "map_get [] k = None"
| "map_get ((a, b) # xs) k = (if k = a then Some b else map_get xs k)"

definition map_ok :: "('k::linorder \<times> 'v) list \<Rightarrow> bool" where
  "map_ok m \<longleftrightarrow> sorted_wrt (<) (map fst m)"

text \<open>A list of pairs in strictly ascending key order is determined by its set.\<close>

lemma sorted_pairs_eqI:
  fixes xs ys :: "('k::linorder \<times> 'v) list"
  assumes "sorted_wrt (<) (map fst xs)" and "sorted_wrt (<) (map fst ys)" and eq: "set xs = set ys"
  shows "xs = ys"
proof -
  have "map fst xs = map fst ys"
    using assms by (metis list.set_map strict_sorted_equal)
  moreover have "inj_on fst (set xs)"
    using assms(1) by (metis distinct_map strict_sorted_iff)
  then have "inj_on fst (set xs \<union> set ys)" using eq by simp
  ultimately show ?thesis using map_inj_on by blast
qed

section \<open>The contract\<close>

locale ordered_map =
  fixes empty :: 'm
    and get :: "'m \<Rightarrow> 'k::linorder \<Rightarrow> 'v option"
    and insert :: "'k \<Rightarrow> 'v \<Rightarrow> 'm \<Rightarrow> 'm"
    and remove :: "'k \<Rightarrow> 'm \<Rightarrow> 'm"
    and pairs :: "'m \<Rightarrow> ('k \<times> 'v) list"
    and ok :: "'m \<Rightarrow> bool"
  assumes ok_empty: "ok empty" and get_empty: "get empty k = None"
    and ok_insert: "ok m \<Longrightarrow> ok (insert k v m)" and ok_remove: "ok m \<Longrightarrow> ok (remove k m)"
    and get_insert: "ok m \<Longrightarrow> get (insert k v m) j = (if j = k then Some v else get m j)"
    and get_remove: "ok m \<Longrightarrow> get (remove k m) j = (if j = k then None else get m j)"
    and pairs_sorted: "ok m \<Longrightarrow> sorted_wrt (<) (map fst (pairs m))"
    and pairs_get: "ok m \<Longrightarrow> (k, v) \<in> set (pairs m) \<longleftrightarrow> get m k = Some v"
begin

text \<open>A map is determined by what \<open>get\<close> returns.\<close>

lemma pairs_determined:
  assumes "ok m" and "ok m'" and "\<And>k. get m k = get m' k"
  shows "pairs m = pairs m'"
proof -
  have "set (pairs m) = set (pairs m')" using assms pairs_get by auto
  then show ?thesis by (intro sorted_pairs_eqI pairs_sorted assms)
qed

lemma insert_insert_get: "ok m \<Longrightarrow> get (insert k v (insert k w m)) j = get (insert k v m) j"
  using ok_insert get_insert by simp

end

section \<open>Sorted pairs keep the contract\<close>

lemma map_insert_keys: "fst ` set (map_insert k v m) = insert k (fst ` set m)"
  by (induction k v m rule: map_insert.induct) auto

lemma map_remove_keys: "set (map_remove k m) \<subseteq> set m"
  by (induction k m rule: map_remove.induct) auto

lemma map_ok_insert: "map_ok m \<Longrightarrow> map_ok (map_insert k v m)"
proof (induction k v m rule: map_insert.induct)
  case (2 k v a b xs)
  then have "\<forall>x \<in> fst ` set (map_insert k v xs). x = k \<or> a < x"
    using map_insert_keys [of k v xs] by (auto simp: map_ok_def)
  then show ?case using 2 by (fastforce simp: map_ok_def dest: less_trans)
qed (simp add: map_ok_def)

lemma map_ok_remove: "map_ok m \<Longrightarrow> map_ok (map_remove k m)"
proof (induction k m rule: map_remove.induct)
  case (2 k a b xs)
  then show ?case using map_remove_keys [of k xs] by (auto simp: map_ok_def)
qed (simp add: map_ok_def)

lemma map_get_absent: "k \<notin> fst ` set m \<Longrightarrow> map_get m k = None"
  by (induction m k rule: map_get.induct) auto

lemma map_get_insert: "map_ok m \<Longrightarrow> map_get (map_insert k v m) j = (if j = k then Some v else map_get m j)"
  by (induction k v m rule: map_insert.induct) (auto simp: map_ok_def)

lemma map_get_remove: "map_ok m \<Longrightarrow> map_get (map_remove k m) j = (if j = k then None else map_get m j)"
proof (induction k m rule: map_remove.induct)
  case (2 k a b xs)
  have "map_get xs a = None" using 2(2) by (intro map_get_absent) (auto simp: map_ok_def)
  then show ?case using 2 by (auto simp: map_ok_def)
qed simp

lemma map_get_mem: "map_ok m \<Longrightarrow> (k, v) \<in> set m \<longleftrightarrow> map_get m k = Some v"
proof (induction m k rule: map_get.induct)
  case (2 a b xs k)
  have "map_get xs a = None" using 2(2) by (intro map_get_absent) (auto simp: map_ok_def)
  then show ?case using 2 by (auto simp: map_ok_def)
qed simp

interpretation btree: ordered_map "[]" map_get map_insert map_remove "\<lambda>m. m" map_ok
proof
  show "map_ok []" by (simp add: map_ok_def)
  show "map_get [] k = None" for k by simp
qed (rule map_ok_insert map_ok_remove map_get_insert map_get_remove map_get_mem map_ok_def [THEN iffD1]; assumption)+

lemma map_eqI: "map_ok m \<Longrightarrow> map_ok m' \<Longrightarrow> (\<And>k. map_get m k = map_get m' k) \<Longrightarrow> m = m'"
  by (rule btree.pairs_determined)

end
