(* ===== verification/Kv.thy ===== *)
theory Kv
  imports Message_Codec Ordered_Map
begin

text \<open>
  The replicated key-value state machine of \<open>crates/kv/src/lib.rs\<close>: commands and their
  encoding, the store, and the replay of a log.
\<close>

section \<open>Commands\<close>

datatype kv_command = Put bytes bytes | Delete bytes

definition kv_encode :: "kv_command \<Rightarrow> bytes" where
  "kv_encode c = (case c of
     Put key val \<Rightarrow> [1] @ to_le_bytes32 (as_word (length key)) @ key @ val
   | Delete key \<Rightarrow> [2] @ key)"

text \<open>\<open>rest.get(..4)?\<close>, \<open>rest.get(4..)?\<close> and \<open>body.get(..len)?\<close> are guards on the lengths.\<close>

fun kv_decode :: "bytes \<Rightarrow> kv_command option" where
  "kv_decode [] = None"
| "kv_decode (k # rest) =
     (if k = 1 then
        (if length rest < 4 then None
         else
           let len = unat (le_word (take 4 rest) :: u32);
               body = drop 4 rest
           in if length body < len then None else Some (Put (take len body) (drop len body)))
      else if k = 2 then Some (Delete rest)
      else None)"

text \<open>The commands whose key length fits the 32-bit length field.\<close>

fun key_fits :: "kv_command \<Rightarrow> bool" where
  "key_fits (Put key val) \<longleftrightarrow> length key < 2 ^ 32"
| "key_fits (Delete key) \<longleftrightarrow> True"

section \<open>The store\<close>

record kv_store =
  kv_map :: "(bytes \<times> bytes) list"

definition kv_new :: kv_store where
  "kv_new = \<lparr>kv_map = []\<rparr>"

definition kv_apply :: "kv_store \<Rightarrow> entry \<Rightarrow> kv_store" where
  "kv_apply s e = (case kv_decode (command e) of
     Some (Put key val) \<Rightarrow> s\<lparr>kv_map := map_insert key val (kv_map s)\<rparr>
   | Some (Delete key) \<Rightarrow> s\<lparr>kv_map := map_remove key (kv_map s)\<rparr>
   | None \<Rightarrow> s)"

definition kv_get :: "kv_store \<Rightarrow> bytes \<Rightarrow> bytes option" where
  "kv_get s key = map_get (kv_map s) key"

definition kv_len :: "kv_store \<Rightarrow> nat" where
  "kv_len s = length (kv_map s)"

definition kv_is_empty :: "kv_store \<Rightarrow> bool" where
  "kv_is_empty s \<longleftrightarrow> kv_map s = []"

definition kv_iter :: "kv_store \<Rightarrow> (bytes \<times> bytes) list" where
  "kv_iter s = kv_map s"

definition replay :: "entry list \<Rightarrow> kv_store" where
  "replay es = fold (\<lambda>e s. kv_apply s e) es kv_new"

section \<open>Encoding\<close>

lemma kv_decode_encoded: "key_fits c \<Longrightarrow> kv_decode (kv_encode c) = Some c"
  by (cases c) (simp_all add: kv_encode_def unat_of_nat_u32)

lemma kv_decode_SomeD: "kv_decode b = Some c \<Longrightarrow> kv_encode c = b \<and> key_fits c"
proof (cases b)
  case (Cons k rest)
  assume d: "kv_decode b = Some c"
  show ?thesis
  proof (cases "k = 1")
    case True
    let ?w = "le_word (take 4 rest) :: u32"
    from d have c: "4 \<le> length rest" "unat ?w \<le> length rest - 4"
      "c = Put (take (unat ?w) (drop 4 rest)) (drop (unat ?w) (drop 4 rest))"
      using Cons True by (auto simp: Let_def split: if_splits)
    have w: "to_le_bytes32 ?w = take 4 rest" using c(1) by (simp add: to_le_bytes32_le_word)
    have fits: "unat ?w < 2 ^ 32" using unsigned_less [of ?w] by simp
    have len: "length (take (unat ?w) (drop 4 rest)) = unat ?w" using c(2) by simp
    have "kv_encode c = 1 # to_le_bytes32 (of_nat (unat ?w)) @ take (unat ?w) (drop 4 rest) @ drop (unat ?w) (drop 4 rest)"
      unfolding c(3) kv_encode_def kv_command.case len as_word_of_nat by simp
    also have "\<dots> = 1 # take 4 rest @ drop 4 rest" unfolding of_nat_unat ucast_id w by (simp only: append_take_drop_id)
    also have "\<dots> = b" using Cons True by simp
    finally show ?thesis using len fits unfolding c(3) by (simp only: key_fits.simps)
  qed (use d Cons in \<open>auto simp: kv_encode_def split: if_splits\<close>)
qed simp

text \<open>
  C29: A command is decoded from its encoding exactly when its key length fits 32 bits, and
  whatever decodes is the encoding of the result.
\<close>

theorem kv_roundtrip:
  "(kv_decode (kv_encode c) = Some c \<longleftrightarrow> key_fits c) \<and> (kv_decode b = Some c \<longrightarrow> kv_encode c = b)"
  using kv_decode_encoded kv_decode_SomeD by blast

theorem kv_roundtrip_witness: "kv_encode (Delete [7]) = [2, 7]"
proof -
  have "kv_decode [2, 7] = Some (Delete [7])" by simp
  then show ?thesis using kv_roundtrip [of "Delete [7]" "[2, 7]"] by blast
qed

section \<open>The store as a map\<close>

lemma kv_ok_apply: "map_ok (kv_map s) \<Longrightarrow> map_ok (kv_map (kv_apply s e))"
  by (auto simp: kv_apply_def map_ok_insert map_ok_remove split: option.split kv_command.split)

lemma kv_ok_replay: "map_ok (kv_map (replay es))"
proof -
  have "map_ok (kv_map s) \<Longrightarrow> map_ok (kv_map (fold (\<lambda>e s. kv_apply s e) es s))" for s
    by (induction es arbitrary: s) (simp_all add: kv_ok_apply)
  then show ?thesis by (simp add: replay_def kv_new_def map_ok_def)
qed

text \<open>What an entry writes at a key: nothing, or a value, or a removal.\<close>

definition writes :: "entry \<Rightarrow> bytes \<Rightarrow> bytes option option" where
  "writes e key = (case kv_decode (command e) of
     Some (Put k v) \<Rightarrow> (if k = key then Some (Some v) else None)
   | Some (Delete k) \<Rightarrow> (if k = key then Some None else None)
   | None \<Rightarrow> None)"

lemma kv_get_apply:
  assumes "map_ok (kv_map s)"
  shows "kv_get (kv_apply s e) key = (case writes e key of None \<Rightarrow> kv_get s key | Some r \<Rightarrow> r)"
  using btree.get_insert [OF assms] btree.get_remove [OF assms]
  by (auto simp: kv_get_def kv_apply_def writes_def split: option.split kv_command.split)

text \<open>
  One entry.  In a replayed store, applying an entry changes what \<open>get\<close> returns for the
  key of its command, as the command says, and for no other key; an empty or malformed command
  changes nothing.
\<close>

theorem kv_apply_rule:
  "kv_get (kv_apply (replay es) e) key = (case kv_decode (command e) of
     Some (Put k v) \<Rightarrow> (if k = key then Some v else kv_get (replay es) key)
   | Some (Delete k) \<Rightarrow> (if k = key then None else kv_get (replay es) key)
   | None \<Rightarrow> kv_get (replay es) key)
   \<and> (kv_decode (command e) = None \<longrightarrow> kv_apply (replay es) e = replay es)"
  using kv_get_apply [OF kv_ok_replay, of es e key]
  by (auto simp: writes_def kv_apply_def split: option.split kv_command.split)

theorem kv_apply_rule_witness: "kv_apply (replay []) \<lparr>e_term = 1, command = []\<rparr> = replay []"
proof -
  have "kv_decode (command \<lparr>e_term = 1, command = []\<rparr>) = None" by simp
  then show ?thesis using kv_apply_rule [of "[]" "\<lparr>e_term = 1, command = []\<rparr>"] by blast
qed

text \<open>
  C30: The last write wins.  After the replay of a log, \<open>get\<close> returns what the last entry that
  writes the key put there, or nothing when none does or the last one deletes it.
\<close>

theorem replay_last_write:
  "kv_get (replay es) key = (case find (\<lambda>e. writes e key \<noteq> None) (rev es) of
     None \<Rightarrow> None | Some e \<Rightarrow> the (writes e key))"
proof (induction es rule: rev_induct)
  case Nil
  then show ?case by (simp add: replay_def kv_new_def kv_get_def)
next
  case (snoc e es)
  have "replay (es @ [e]) = kv_apply (replay es) e" by (simp add: replay_def)
  then show ?case
    using kv_get_apply [OF kv_ok_replay, of es e key] snoc.IH by (auto split: option.split)
qed

text \<open>
  The log leaves \<open>v\<close> at \<open>k\<close>: some entry puts it there and no later one puts or deletes \<open>k\<close>.
\<close>

definition leaves :: "entry list \<Rightarrow> bytes \<Rightarrow> bytes \<Rightarrow> bool" where
  "leaves es k v \<longleftrightarrow> (\<exists>xs e ys. es = xs @ e # ys \<and> kv_decode (command e) = Some (Put k v)
     \<and> (\<forall>e' \<in> set ys. kv_decode (command e') \<noteq> Some (Delete k)
          \<and> (\<forall>w. kv_decode (command e') \<noteq> Some (Put k w))))"

lemma writes_None_iff:
  "writes e k = None \<longleftrightarrow> kv_decode (command e) \<noteq> Some (Delete k) \<and> (\<forall>w. kv_decode (command e) \<noteq> Some (Put k w))"
  by (auto simp: writes_def split: option.split kv_command.split)

lemma writes_Some_iff: "writes e k = Some (Some v) \<longleftrightarrow> kv_decode (command e) = Some (Put k v)"
  by (auto simp: writes_def split: option.split kv_command.split)

lemma leaves_Nil [simp]: "\<not> leaves [] k v"
  by (simp add: leaves_def)

lemma leaves_writes:
  "leaves es k v \<longleftrightarrow> (\<exists>xs e ys. es = xs @ e # ys \<and> writes e k = Some (Some v) \<and> (\<forall>e' \<in> set ys. writes e' k = None))"
  unfolding leaves_def writes_Some_iff writes_None_iff ..

lemma leaves_snoc: "leaves (es @ [e]) k v \<longleftrightarrow> (case writes e k of None \<Rightarrow> leaves es k v | Some r \<Rightarrow> r = Some v)"
proof
  assume "leaves (es @ [e]) k v"
  then obtain xs x ys where l: "es @ [e] = xs @ x # ys" "writes x k = Some (Some v)" "\<forall>e' \<in> set ys. writes e' k = None"
    unfolding leaves_writes by blast
  show "case writes e k of None \<Rightarrow> leaves es k v | Some r \<Rightarrow> r = Some v"
  proof (cases ys rule: rev_cases)
    case Nil
    then show ?thesis using l by simp
  next
    case (snoc zs z)
    then have "es = xs @ x # zs" "writes e k = None" "\<forall>e' \<in> set zs. writes e' k = None" using l by simp_all
    then show ?thesis using l(2) unfolding leaves_writes by (simp only: option.case) blast
  qed
next
  assume *: "case writes e k of None \<Rightarrow> leaves es k v | Some r \<Rightarrow> r = Some v"
  show "leaves (es @ [e]) k v"
  proof (cases "writes e k")
    case None
    then obtain xs x ys where l: "es = xs @ x # ys" "writes x k = Some (Some v)" "\<forall>e' \<in> set ys. writes e' k = None"
      using * unfolding leaves_writes by auto
    then have "es @ [e] = xs @ x # (ys @ [e])" "\<forall>e' \<in> set (ys @ [e]). writes e' k = None" using None by simp_all
    then show ?thesis using l(2) unfolding leaves_writes by blast
  next
    case (Some r)
    then have "writes e k = Some (Some v)" using * by simp
    moreover have "\<forall>e' \<in> set []. writes e' k = None" by simp
    ultimately show ?thesis unfolding leaves_writes by blast
  qed
qed

lemma replay_snoc: "replay (es @ [e]) = kv_apply (replay es) e"
  by (simp add: replay_def)

lemma replay_leaves: "kv_get (replay es) k = Some v \<longleftrightarrow> leaves es k v"
proof (induction es rule: rev_induct)
  case Nil
  show ?case by (simp add: replay_def kv_new_def kv_get_def)
next
  case (snoc e es)
  show ?case
    using kv_get_apply [OF kv_ok_replay, of es e k] snoc.IH
    by (simp add: replay_snoc leaves_snoc split: option.split)
qed

lemma mem_iter_replay: "(k, v) \<in> set (kv_iter (replay es)) \<longleftrightarrow> leaves es k v"
  using btree.pairs_get [OF kv_ok_replay] by (simp add: kv_iter_def kv_get_def flip: replay_leaves)

text \<open>
  C31: The content of a replayed store.  Iteration yields, in strictly ascending key order, exactly
  the pairs the log leaves: those put by some entry whose key no later entry puts or deletes.  The
  length is the number of those keys, and two logs that leave the same pairs give the same store.
\<close>

theorem kv_content:
  "sorted_wrt (<) (map fst (kv_iter (replay es)))
   \<and> ((k, v) \<in> set (kv_iter (replay es)) \<longleftrightarrow> leaves es k v)
   \<and> kv_len (replay es) = card {k. \<exists>v. leaves es k v}
   \<and> (kv_is_empty (replay es) \<longleftrightarrow> (\<forall>k v. \<not> leaves es k v))
   \<and> ((\<forall>k v. leaves es k v \<longleftrightarrow> leaves es' k v) \<longrightarrow> replay es = replay es')"
proof (intro conjI impI)
  show sorted: "sorted_wrt (<) (map fst (kv_iter (replay es)))"
    using btree.pairs_sorted [OF kv_ok_replay] by (simp add: kv_iter_def)
  show "(k, v) \<in> set (kv_iter (replay es)) \<longleftrightarrow> leaves es k v" by (rule mem_iter_replay)
  have keys: "{k. \<exists>v. leaves es k v} = set (map fst (kv_iter (replay es)))"
  proof (intro set_eqI)
    fix k
    have "k \<in> set (map fst (kv_iter (replay es))) \<longleftrightarrow> (\<exists>v. (k, v) \<in> set (kv_iter (replay es)))" by force
    then show "k \<in> {k. \<exists>v. leaves es k v} \<longleftrightarrow> k \<in> set (map fst (kv_iter (replay es)))" by (simp only: mem_iter_replay mem_Collect_eq)
  qed
  have "distinct (map fst (kv_iter (replay es)))" using sorted by (simp add: strict_sorted_iff)
  then show "kv_len (replay es) = card {k. \<exists>v. leaves es k v}"
    unfolding keys using distinct_card by (fastforce simp: kv_len_def kv_iter_def)
  have "kv_is_empty (replay es) \<longleftrightarrow> set (kv_iter (replay es)) = {}" by (simp add: kv_is_empty_def kv_iter_def)
  also have "\<dots> \<longleftrightarrow> (\<forall>k v. (k, v) \<notin> set (kv_iter (replay es)))"
    unfolding set_eq_iff split_paired_All by simp
  finally show "kv_is_empty (replay es) \<longleftrightarrow> (\<forall>k v. \<not> leaves es k v)" by (simp only: mem_iter_replay)
  assume "\<forall>k v. leaves es k v \<longleftrightarrow> leaves es' k v"
  then have "kv_get (replay es) k = Some v \<longleftrightarrow> kv_get (replay es') k = Some v" for k v by (simp add: replay_leaves)
  then have "kv_get (replay es) k = kv_get (replay es') k" for k by (metis option.exhaust)
  then have "kv_map (replay es) = kv_map (replay es')"
    by (intro map_eqI kv_ok_replay) (simp add: kv_get_def)
  then show "replay es = replay es'" by simp
qed

text \<open>A put that is deleted again leaves what the empty log leaves.\<close>

theorem kv_content_witness:
  "replay [\<lparr>e_term = 1, command = kv_encode (Put [7] [8])\<rparr>, \<lparr>e_term = 1, command = kv_encode (Delete [7])\<rparr>] = replay []"
proof -
  let ?es = "[\<lparr>e_term = 1, command = kv_encode (Put [7] [8])\<rparr>, \<lparr>e_term = 1, command = kv_encode (Delete [7])\<rparr>]"
  have "leaves ?es k v \<longleftrightarrow> leaves [] k v" for k v
    using leaves_snoc [of "butlast ?es" "last ?es" k v] leaves_snoc [of "[]" "hd ?es" k v]
    by (simp add: writes_def kv_decode_encoded del: kv_decode.simps split: if_splits)
  then show ?thesis using kv_content [of ?es _ _ "[]"] by blast
qed

end
