(* ===== verification/Rng.thy ===== *)
theory Rng
  imports Complex_Main Node
begin

text \<open>
  The simulator's random generator, \<open>crates/sim/src/rng.rs\<close>.  A probability is a rational
  number: every finite \<open>f64\<close> is one, and the quotient \<open>chance\<close> computes (53 bits divided by a
  power of two) is exact in \<open>f64\<close>, so comparing rationals is what the code does.
\<close>

section \<open>The generator\<close>

type_synonym rng = u64

definition rng_new :: "u64 \<Rightarrow> rng" where
  "rng_new seed = seed"

definition next_u64 :: "rng \<Rightarrow> rng \<times> u64" where
  "next_u64 r =
     (let r = r + 0x9E3779B97F4A7C15;
          z = r;
          z = (xor z (drop_bit 30 z)) * 0xBF58476D1CE4E5B9;
          z = (xor z (drop_bit 27 z)) * 0x94D049BB133111EB
      in (r, xor z (drop_bit 31 z)))"

text \<open>\<open>&&\<close> does not draw a number when the probability is not positive.\<close>

definition chance :: "rat \<Rightarrow> rng \<Rightarrow> rng \<times> bool" where
  "chance p r =
     (if p > 0 then let (r, x) = next_u64 r in (r, of_nat (unat (drop_bit 11 x)) / 2 ^ 53 \<le> p)
      else (r, False))"

definition chance_from :: "rat \<Rightarrow> rng \<times> u64 \<Rightarrow> rng \<times> bool" where
  "chance_from p q = (fst q, of_int (uint (drop_bit 11 (snd q))) / 2 ^ 53 \<le> p)"

lemma chance_code [code]: "chance p r = (if p > 0 then chance_from p (next_u64 r) else (r, False))"
  by (simp add: chance_def chance_from_def case_prod_beta Let_def)

text \<open>A remainder by zero panics.\<close>

definition below :: "nat \<Rightarrow> rng \<Rightarrow> (rng \<times> nat) option" where
  "below n r = (let (r, x) = next_u64 r in do { m \<leftarrow> rem64 x (as_word n); Some (r, unat m) })"

section \<open>The node's timer uses the same generator\<close>

text \<open>
  A node's \<open>next_rand\<close> and the simulator's \<open>next_u64\<close> are the same generator.
\<close>

theorem next_rand_is_next_u64:
  "next_rand n = (n\<lparr>rng := fst (next_u64 (rng n))\<rparr>, snd (next_u64 (rng n)))"
  by (simp add: next_rand_def next_u64_def Let_def)

section \<open>Mixing loses nothing\<close>

text \<open>A word and its right shift, added bitwise, determine the word.\<close>

lemma xorshift_inj:
  fixes a b :: "'a::len word"
  assumes "0 < k" and eq: "xor a (drop_bit k a) = xor b (drop_bit k b)"
  shows "a = b"
proof (rule bit_word_eqI)
  have step: "bit a i = bit b i" if "bit a (k + i) = bit b (k + i)" for i
  proof -
    have "bit (xor a (drop_bit k a)) i = bit (xor b (drop_bit k b)) i" using eq by simp
    then show ?thesis using that by (auto simp: bit_xor_iff bit_drop_bit_eq)
  qed
  have all: "bit a i = bit b i" if "LENGTH('a) \<le> i + m" for i m
    using that
  proof (induction m arbitrary: i rule: less_induct)
    case (less m)
    show ?case
    proof (cases "LENGTH('a) \<le> i")
      case True
      then show ?thesis by (simp add: bit_word.rep_eq)
    next
      case False
      have "bit a (k + i) = bit b (k + i)"
        using less.prems False assms(1) by (intro less.IH [of "m - k"]) (cases "m < k"; simp)+
      then show ?thesis by (rule step)
    qed
  qed
  show "bit a i = bit b i" for i using all [of i "LENGTH('a)"] by simp
qed

lemma times_unit_inj:
  fixes c d :: u64
  assumes "c * d = 1" and "a * c = b * c"
  shows "a = b"
proof -
  have "a = a * c * d" using assms(1) by (simp add: mult.assoc)
  also have "\<dots> = b" using assms by (simp add: mult.assoc)
  finally show ?thesis .
qed

text \<open>
  The generator is a permutation of its 64-bit states: different states lead to different
  states and produce different numbers, so one period produces every number exactly once.
\<close>

theorem next_u64_bijective:
  "bij (\<lambda>r. fst (next_u64 r)) \<and> bij (\<lambda>r. snd (next_u64 r))"
proof
  have "inj (\<lambda>r. fst (next_u64 r))" by (rule injI) (simp add: next_u64_def Let_def)
  then show "bij (\<lambda>r. fst (next_u64 r))" by (simp add: bij_def finite_UNIV_inj_surj)
  have "inj (\<lambda>r. snd (next_u64 r))"
  proof (rule injI)
    fix a b :: rng assume eq: "snd (next_u64 a) = snd (next_u64 b)"
    let ?f = "\<lambda>r :: u64. (xor r (drop_bit 30 r)) * 0xBF58476D1CE4E5B9"
    let ?g = "\<lambda>z :: u64. (xor z (drop_bit 27 z)) * 0x94D049BB133111EB"
    let ?c = "0x9E3779B97F4A7C15 :: u64"
    have "xor (?g (?f (a + ?c))) (drop_bit 31 (?g (?f (a + ?c))))
        = xor (?g (?f (b + ?c))) (drop_bit 31 (?g (?f (b + ?c))))"
      using eq by (simp add: next_u64_def Let_def)
    then have "?g (?f (a + ?c)) = ?g (?f (b + ?c))" by (rule xorshift_inj [rotated]) simp
    then have "xor (?f (a + ?c)) (drop_bit 27 (?f (a + ?c))) = xor (?f (b + ?c)) (drop_bit 27 (?f (b + ?c)))"
      by (rule times_unit_inj [where d = "0x319642b2d24d8ec3", rotated]) simp
    then have "?f (a + ?c) = ?f (b + ?c)" by (rule xorshift_inj [rotated]) simp
    then have "xor (a + ?c) (drop_bit 30 (a + ?c)) = xor (b + ?c) (drop_bit 30 (b + ?c))"
      by (rule times_unit_inj [where d = "0x96de1b173f119089", rotated]) simp
    then have "a + ?c = b + ?c" by (rule xorshift_inj [rotated]) simp
    then show "a = b" by simp
  qed
  then show "bij (\<lambda>r. snd (next_u64 r))" by (simp add: bij_def finite_UNIV_inj_surj)
qed

section \<open>Draws\<close>

lemma draw_less_one: "(of_nat (unat (drop_bit 11 (x :: u64))) :: rat) / 2 ^ 53 < 1"
proof -
  have "unat (drop_bit 11 x) = unat x div 2 ^ 11" by (simp add: drop_bit_eq_div unat_div)
  also have "\<dots> < 2 ^ 53" using unat_lt_2_64 [of x] by (simp add: less_mult_imp_div_less)
  finally have "(of_nat (unat (drop_bit 11 x)) :: rat) < of_nat (2 ^ 53)" by (simp only: of_nat_less_iff)
  then show ?thesis by simp
qed

text \<open>
  A probability of 0 never happens and draws no number, a probability of 1 always
  happens, and with the same state a larger probability happens whenever a smaller one does.
\<close>

theorem chance_rule:
  "(p \<le> 0 \<longrightarrow> chance p r = (r, False)) \<and> (1 \<le> p \<longrightarrow> snd (chance p r))
   \<and> (p \<le> q \<longrightarrow> snd (chance p r) \<longrightarrow> snd (chance q r))
   \<and> (0 < p \<longrightarrow> fst (chance p r) = fst (next_u64 r))"
proof (intro conjI impI)
  show "chance p r = (r, False)" if "p \<le> 0" using that by (simp add: chance_def)
  show "snd (chance p r)" if "1 \<le> p"
    using that draw_less_one [of "snd (next_u64 r)"]
    by (auto simp: chance_def case_prod_beta Let_def)
  show "snd (chance q r)" if "p \<le> q" "snd (chance p r)"
    using that by (auto simp: chance_def case_prod_beta Let_def split: if_splits)
  show "fst (chance p r) = fst (next_u64 r)" if "0 < p"
    using that by (simp add: chance_def case_prod_beta Let_def)
qed

theorem chance_rule_witness: "chance 0 5 = (5, False) \<and> snd (chance 1 5)"
  using chance_rule [of 0 5] chance_rule [of 1 5] by simp

text \<open>\<open>below(n)\<close> returns a number below \<open>n\<close>, and panics exactly when \<open>n\<close> is 0.\<close>

theorem below_rule:
  assumes "n < 2 ^ 64"
  shows "(n = 0 \<longrightarrow> below n r = None) \<and> (0 < n \<longrightarrow> (\<exists>r' k. below n r = Some (r', k) \<and> k < n))"
proof -
  have u: "unat (of_nat n :: u64) = n" using assms by (simp add: unat_of_nat take_bit_nat_eq_self)
  show ?thesis
  proof (cases "n = 0")
    case True
    then show ?thesis by (simp add: below_def rem64_def case_prod_beta Let_def)
  next
    case False
    then have "(of_nat n :: u64) \<noteq> 0" using u by (metis unat_0)
    moreover have "unat (snd (next_u64 r) mod of_nat n) < n" using False u by (simp add: unat_mod)
    ultimately show ?thesis using False by (simp add: below_def rem64_def case_prod_beta Let_def)
  qed
qed

theorem below_rule_witness: "\<exists>r' k. below 3 7 = Some (r', k) \<and> k < 3"
  using below_rule [of 3 7] by simp

end
