(* ===== verification/Sietch.thy ===== *)
theory Sietch
  imports Storage Ordered_Map
begin

text \<open>
  \<open>SietchStorage\<close> of \<open>crates/raft/src/storage.rs\<close>: the raft state laid out in an external
  ordered key-value store, the hard state under one key and each log entry under a big-endian
  index.  The external store is a parameter: a table of the methods the code calls
  (\<open>store_api\<close>), with the documented behaviour of \<open>sietch::Store\<close> as the locale \<open>store_spec\<close>.
  \<^const>\<open>None\<close> is the panic of the fail-stop \<open>expect\<close> and \<open>assert\<close> calls.
\<close>

section \<open>The external store\<close>

datatype log_op = LogPut bytes bytes | LogDelete bytes

record ('d, 'e) store_api =
  s_open :: "'d \<Rightarrow> 'e + 'd"
  s_get :: "'d \<Rightarrow> bytes \<Rightarrow> bytes option"
  s_scan :: "'d \<Rightarrow> bytes \<Rightarrow> (bytes \<times> bytes) list"
  s_put :: "'d \<Rightarrow> bytes \<Rightarrow> bytes \<Rightarrow> 'd option"
  s_apply_batch :: "'d \<Rightarrow> log_op list \<Rightarrow> 'd option"

fun apply_op :: "log_op \<Rightarrow> (bytes \<Rightarrow> bytes option) \<Rightarrow> bytes \<Rightarrow> bytes option" where
  "apply_op (LogPut k v) m = m(k := Some v)"
| "apply_op (LogDelete k) m = m(k := None)"

text \<open>
  A store holds a map.  Opening one takes what lies in its directory (\<open>'d\<close> is a store, open or as
  it was left there) and can fail; when it succeeds, it gives the map of the writes that had
  succeeded.  A scan returns the pairs whose key starts with a prefix, in key order; a write that
  succeeds has its effect, and a batch is applied as a whole.
\<close>

locale store_spec =
  fixes api :: "('d, 'e) store_api"
    and contents :: "'d \<Rightarrow> bytes \<Rightarrow> bytes option"
    and valid :: "'d \<Rightarrow> bool"
  assumes open_ok: "valid d \<Longrightarrow> s_open api d = Inr d' \<Longrightarrow> valid d' \<and> contents d' = contents d"
    and get_ok: "valid d \<Longrightarrow> s_get api d k = contents d k"
    and scan_sorted: "valid d \<Longrightarrow> sorted_wrt (<) (map fst (s_scan api d p))"
    and scan_mem: "valid d \<Longrightarrow> (k, v) \<in> set (s_scan api d p) \<longleftrightarrow> contents d k = Some v \<and> take (length p) k = p"
    and put_ok: "valid d \<Longrightarrow> s_put api d k v = Some d' \<Longrightarrow> valid d' \<and> contents d' = (contents d)(k := Some v)"
    and batch_ok: "valid d \<Longrightarrow> s_apply_batch api d ops = Some d' \<Longrightarrow>
      valid d' \<and> contents d' = fold apply_op ops (contents d)"
begin

text \<open>A scan is determined by the pairs the store holds under the prefix.\<close>

lemma scan_eq:
  assumes "valid d" and "sorted_wrt (<) (map fst xs)"
    and "\<And>k v. (k, v) \<in> set xs \<longleftrightarrow> contents d k = Some v \<and> take (length p) k = p"
  shows "s_scan api d p = xs"
  using scan_sorted [OF assms(1)] assms(2,3) scan_mem [OF assms(1)] by (intro sorted_pairs_eqI) auto

end

section \<open>SietchStorage\<close>

definition hard_state_key :: bytes where
  "hard_state_key = [0x68]"

definition entry_prefix :: u8 where
  "entry_prefix = 0x65"

definition no_vote :: u64 where
  "no_vote = 0xFFFFFFFFFFFFFFFF"

definition entry_key :: "u64 \<Rightarrow> bytes" where
  "entry_key index = [entry_prefix] @ to_be_bytes64 index"

record 'd sietch =
  st_store :: 'd
  st_last :: u64

text \<open>\<open>expect\<close> and \<open>unwrap\<close> of a \<open>Result\<close>: an error is a panic.\<close>

fun expect :: "'e + 'a \<Rightarrow> 'a option" where
  "expect (Inl e) = None"
| "expect (Inr x) = Some x"

lemma expect_Some: "expect r = Some x \<longleftrightarrow> r = Inr x"
  by (cases r) simp_all

text \<open>\<open>Store::open(dir)?\<close>: an error of the store is the result.\<close>

definition sietch_open :: "('d, 'e) store_api \<Rightarrow> 'd \<Rightarrow> 'e + 'd sietch" where
  "sietch_open api dir =
     (case s_open api dir of
        Inl e \<Rightarrow> Inl e
      | Inr d \<Rightarrow> Inr \<lparr>st_store = d, st_last = as_word (length (s_scan api d [entry_prefix]))\<rparr>)"

text \<open>The loop of \<open>load\<close> over the scanned pairs, \<open>i\<close> counting them.\<close>

fun load_log :: "nat \<Rightarrow> (bytes \<times> bytes) list \<Rightarrow> entry list option" where
  "load_log i [] = Some []"
| "load_log i ((key, val) # xs) = do {
     idx \<leftarrow> add64 (as_word i) 1;
     if key \<noteq> entry_key idx then None
     else if length val < 8 then None
     else do {
       es \<leftarrow> load_log (Suc i) xs;
       Some (\<lparr>e_term = le_word (take 8 val), command = drop 8 val\<rparr> # es) } }"

definition sietch_load :: "('d, 'e) store_api \<Rightarrow> 'd sietch \<Rightarrow> ('d sietch \<times> persistent) option" where
  "sietch_load api s = do {
     (t, v) \<leftarrow> (case s_get api (st_store s) hard_state_key of
         Some b \<Rightarrow> (if length b = 16 then
              let vote = le_word (drop 8 b) :: u64
              in Some (le_word (take 8 b) :: u64, if vote \<noteq> no_vote then Some (unat vote) else None)
            else None)
       | None \<Rightarrow> Some (0, None));
     es \<leftarrow> load_log 0 (s_scan api (st_store s) [entry_prefix]);
     Some (s\<lparr>st_last := as_word (length es)\<rparr>, \<lparr>p_term = t, p_voted_for = v, p_log = es\<rparr>) }"

definition sietch_save_hard_state :: "('d, 'e) store_api \<Rightarrow> 'd sietch \<Rightarrow> u64 \<Rightarrow> nodeid option \<Rightarrow> 'd sietch option" where
  "sietch_save_hard_state api s t v = do {
     let b = to_le_bytes64 t @ to_le_bytes64 (case v of None \<Rightarrow> no_vote | Some n \<Rightarrow> as_word n);
     d \<leftarrow> s_put api (st_store s) hard_state_key b;
     Some (s\<lparr>st_store := d\<rparr>) }"

definition entry_value :: "entry \<Rightarrow> bytes" where
  "entry_value e = to_le_bytes64 (e_term e) @ command e"

definition sietch_append :: "('d, 'e) store_api \<Rightarrow> 'd sietch \<Rightarrow> entry list \<Rightarrow> 'd sietch option" where
  "sietch_append api s es = do {
     ops \<leftarrow> map_opt (\<lambda>(i, e). do {
         a \<leftarrow> add64 (st_last s) 1;
         idx \<leftarrow> add64 a (as_word i);
         Some (LogPut (entry_key idx) (entry_value e)) }) (enumerate 0 es);
     if ops = [] then Some s
     else do {
       d \<leftarrow> s_apply_batch api (st_store s) ops;
       l \<leftarrow> add64 (st_last s) (as_word (length es));
       Some (s\<lparr>st_store := d, st_last := l\<rparr>) } }"

definition sietch_truncate_from :: "('d, 'e) store_api \<Rightarrow> 'd sietch \<Rightarrow> u64 \<Rightarrow> 'd sietch option" where
  "sietch_truncate_from api s index =
     (if index > st_last s then Some s
      else do {
        let ops = map (\<lambda>i. LogDelete (entry_key (as_word i))) [unat index..<Suc (unat (st_last s))];
        d \<leftarrow> s_apply_batch api (st_store s) ops;
        Some (s\<lparr>st_store := d, st_last := saturating_sub64 index 1\<rparr>) })"

definition sietch_ops :: "('d, 'e) store_api \<Rightarrow> 'd sietch storage_ops" where
  "sietch_ops api = \<lparr>load = sietch_load api, save_hard_state = sietch_save_hard_state api,
     append_entries = sietch_append api, truncate_from = sietch_truncate_from api\<rparr>"

section \<open>Big-endian keys are ordered like the indices\<close>

lemma snoc_less_iff:
  fixes xs ys :: "'a::linorder list"
  shows "length xs = length ys \<Longrightarrow> xs @ [a] < ys @ [b] \<longleftrightarrow> xs < ys \<or> xs = ys \<and> a < b"
proof (induction xs ys rule: list_induct2)
  case (Cons x xs y ys)
  then show ?case by auto
qed simp

definition be_val :: "bytes \<Rightarrow> nat" where
  "be_val bs = foldl (\<lambda>v b. v * 256 + unat b) 0 bs"

lemma be_val_snoc [simp]: "be_val (bs @ [b]) = be_val bs * 256 + unat b" "be_val [] = 0"
  by (simp_all add: be_val_def)

lemma digit_less:
  fixes x y a b :: nat
  assumes "a < 256" and "b < 256"
  shows "x * 256 + a < y * 256 + b \<longleftrightarrow> x < y \<or> x = y \<and> a < b"
    and "x * 256 + a = y * 256 + b \<longleftrightarrow> x = y \<and> a = b"
  using assms by (cases x y rule: linorder_cases; simp; linarith)+

lemma be_val_less:
  "length xs = length ys \<Longrightarrow> (xs < ys \<longleftrightarrow> be_val xs < be_val ys) \<and> (xs = ys \<longleftrightarrow> be_val xs = be_val ys)"
proof (induction xs arbitrary: ys rule: rev_induct)
  case (snoc a xs)
  then obtain zs b where ys: "ys = zs @ [b]" by (cases ys rule: rev_cases) auto
  then have len: "length xs = length zs" using snoc.prems by simp
  note IH = snoc.IH [OF len]
  have b: "unat a < 256" "unat b < 256" using unsigned_less [of a] unsigned_less [of b] by simp_all
  show ?case
    using IH snoc_less_iff [OF len, of a b] unfolding ys
    by (simp add: digit_less [OF b] word_less_nat_alt word_unat_eq_iff)
qed simp

lemma be_val_le_bytes: "be_val (rev (le_bytes k (w :: u64))) = unat w mod 256 ^ k"
proof (induction k arbitrary: w)
  case (Suc k)
  have "unat (ucast w :: u8) = unat w mod 256"
    by (simp add: unsigned_ucast_eq take_bit_eq_mod)
  moreover have "unat (drop_bit 8 w) = unat w div 256" by (simp add: drop_bit_eq_div unat_div)
  ultimately show ?case
    using Suc.IH [of "drop_bit 8 w"] by (simp add: mod_mult2_eq [of "unat w" 256 "256 ^ k"])
qed simp

lemma to_be_bytes64_less: "to_be_bytes64 a < to_be_bytes64 b \<longleftrightarrow> a < b"
proof -
  have v: "be_val (to_be_bytes64 w) = unat w" for w
    using be_val_le_bytes [of 8 w] unat_lt_2_64 [of w] by (simp add: to_be_bytes64_def)
  show ?thesis
    using be_val_less [of "to_be_bytes64 a" "to_be_bytes64 b"] v
    by (simp add: word_less_nat_alt)
qed

lemma entry_key_less: "entry_key a < entry_key b \<longleftrightarrow> a < b"
  by (simp add: entry_key_def to_be_bytes64_less)

lemma entry_key_inject [simp]: "entry_key a = entry_key b \<longleftrightarrow> a = b"
  by (simp add: entry_key_def)

lemma entry_key_other [simp]: "entry_key a \<noteq> hard_state_key" "hard_state_key \<noteq> entry_key a"
  "take (Suc 0) (entry_key a) = [entry_prefix]" "take (Suc 0) hard_state_key \<noteq> [entry_prefix]"
  by (simp_all add: entry_key_def hard_state_key_def entry_prefix_def)

section \<open>The layout\<close>

text \<open>The pairs that hold the entries of a log, in index order.\<close>

definition log_pairs :: "entry list \<Rightarrow> (bytes \<times> bytes) list" where
  "log_pairs L = map (\<lambda>i. (entry_key (of_nat (Suc i)), entry_value (L ! i))) [0..<length L]"

definition hard_bytes :: "u64 \<Rightarrow> nodeid option \<Rightarrow> bytes" where
  "hard_bytes t v = to_le_bytes64 t @ to_le_bytes64 (case v of None \<Rightarrow> no_vote | Some n \<Rightarrow> as_word n)"

text \<open>A map holds a persistent state.\<close>

definition holds_state :: "(bytes \<Rightarrow> bytes option) \<Rightarrow> persistent \<Rightarrow> bool" where
  "holds_state m p \<longleftrightarrow>
     (case m hard_state_key of None \<Rightarrow> p_term p = 0 \<and> p_voted_for p = None
      | Some b \<Rightarrow> b = hard_bytes (p_term p) (p_voted_for p))
   \<and> (\<forall>k v. (k, v) \<in> set (log_pairs (p_log p)) \<longleftrightarrow> m k = Some v \<and> take 1 k = [entry_prefix])
   \<and> length (p_log p) < vec_cap \<and> vote_storable (p_voted_for p)"

lemma log_pairs_sorted: "length L < vec_cap \<Longrightarrow> sorted_wrt (<) (map fst (log_pairs L))"
proof -
  assume cap: "length L < vec_cap"
  have "(of_nat (Suc i) :: u64) < of_nat (Suc j)" if "i < j" "j < length L" for i j
  proof -
    have "Suc i < vec_cap" "Suc j < vec_cap" using that cap by linarith+
    then show ?thesis
      using that unat_of_nat_small [of "Suc i"] unat_of_nat_small [of "Suc j"]
      unfolding word_less_nat_alt by simp
  qed
  then show ?thesis
    by (auto simp: log_pairs_def sorted_wrt_iff_nth_less entry_key_less simp del: of_nat_Suc)
qed


lemma mem_log_pairs:
  "(k, v) \<in> set (log_pairs L) \<longleftrightarrow> (\<exists>i < length L. k = entry_key (of_nat (Suc i)) \<and> v = entry_value (L ! i))"
  by (auto simp: log_pairs_def simp del: of_nat_Suc)

lemma mem_log_keys:
  "k \<in> set (map fst (log_pairs L)) \<longleftrightarrow> (\<exists>i < length L. k = entry_key (of_nat (Suc i)))"
  by (auto simp: log_pairs_def simp del: of_nat_Suc)

lemma entry_index_eq:
  "Suc i \<le> vec_cap \<Longrightarrow> Suc j \<le> vec_cap \<Longrightarrow> (of_nat (Suc i) :: u64) = of_nat (Suc j) \<longleftrightarrow> i = j"
  by (simp add: word_unat_eq_iff unat_of_nat vec_cap_def del: of_nat_Suc)

lemma pairs_from_Cons:
  "map (\<lambda>j. (entry_key (of_nat (Suc (i + j))), entry_value ((e # L) ! j))) [0..<length (e # L)]
    = (entry_key (of_nat (Suc i)), entry_value e)
      # map (\<lambda>j. (entry_key (of_nat (Suc (Suc i + j))), entry_value (L ! j))) [0..<length L]"
  by (simp only: length_Cons upt_conv_Cons [OF zero_less_Suc] list.map nth_Cons_0 add_0_right map_Suc_upt [symmetric])
    (simp add: comp_def)

lemma load_log_pairs:
  "i + length L < vec_cap \<Longrightarrow>
    load_log i (map (\<lambda>j. (entry_key (of_nat (Suc (i + j))), entry_value (L ! j))) [0..<length L]) = Some L"
proof (induction L arbitrary: i)
  case (Cons e L)
  have "i < vec_cap" using Cons.prems by simp
  then have a: "add64 (of_nat i) 1 = Some (of_nat (Suc i))"
    using unat_of_nat_small [of i] by (simp add: add64_iff vec_cap_def add.commute)
  have "load_log (Suc i) (map (\<lambda>j. (entry_key (of_nat (Suc (Suc i + j))), entry_value (L ! j))) [0..<length L]) = Some L"
    by (rule Cons.IH) (use Cons.prems in simp)
  then show ?case
    by (simp only: pairs_from_Cons load_log.simps as_word_of_nat a bind.simps) (simp add: entry_value_def)
qed simp

lemma read_hard_bytes:
  assumes "vote_storable v"
  shows "length (hard_bytes t v) = 16" and "le_word (take 8 (hard_bytes t v)) = t"
    and "(let vote = le_word (drop 8 (hard_bytes t v)) in if vote \<noteq> no_vote then Some (unat vote) else None) = v"
proof -
  show "length (hard_bytes t v) = 16" "le_word (take 8 (hard_bytes t v)) = t" by (simp_all add: hard_bytes_def)
  show "(let vote = le_word (drop 8 (hard_bytes t v)) in if vote \<noteq> no_vote then Some (unat vote) else None) = v"
  proof (cases v)
    case (Some n)
    then have u: "unat (of_nat n :: u64) = n" "n \<noteq> 2 ^ 64 - 1" using assms by (simp_all add: vote_storable_def unat_of_nat)
    then have "(of_nat n :: u64) \<noteq> no_vote"
      by (auto simp: no_vote_def dest: arg_cong [where f = unat])
    then show ?thesis using Some u(1) by (simp add: hard_bytes_def)
  qed (simp add: hard_bytes_def)
qed

text \<open>The storage a handle stands for, and when a handle is in order.\<close>

definition sietch_view :: "('d, 'e) store_api \<Rightarrow> 'd sietch \<Rightarrow> persistent" where
  "sietch_view api s = (case sietch_load api s of Some (_, p) \<Rightarrow> p | None \<Rightarrow> empty_persistent)"

definition sietch_ok :: "('d \<Rightarrow> bytes \<Rightarrow> bytes option) \<Rightarrow> ('d \<Rightarrow> bool) \<Rightarrow> 'd sietch \<Rightarrow> bool" where
  "sietch_ok contents valid s \<longleftrightarrow> valid (st_store s)
     \<and> (\<exists>p. holds_state (contents (st_store s)) p \<and> st_last s = of_nat (length (p_log p)))"

section \<open>Writes on the layout\<close>

lemma fold_puts:
  "distinct (map fst ps) \<Longrightarrow>
    fold apply_op (map (\<lambda>(k, v). LogPut k v) ps) m k = (case map_of ps k of Some v \<Rightarrow> Some v | None \<Rightarrow> m k)"
proof (induction ps arbitrary: m)
  case (Cons p ps)
  obtain a b where p: "p = (a, b)" by (cases p)
  have "map_of ps a = None" using Cons.prems by (simp add: p map_of_eq_None_iff)
  then show ?case using Cons by (auto simp: p split: option.split)
qed simp

lemma fold_deletes: "fold apply_op (map (\<lambda>i. LogDelete (f i)) is) m k = (if k \<in> f ` set is then None else m k)"
  by (induction "is" arbitrary: m) auto

lemma holds_save:
  assumes "holds_state m p" and "vote_storable v"
  shows "holds_state (m(hard_state_key \<mapsto> hard_bytes t v)) (p\<lparr>p_term := t, p_voted_for := v\<rparr>)"
  using assms by (auto simp: holds_state_def)

lemma holds_log:
  assumes "holds_state m p" and "m' hard_state_key = m hard_state_key" and "length L < vec_cap"
    and "\<And>k v. (k, v) \<in> set (log_pairs L) \<longleftrightarrow> m' k = Some v \<and> take 1 k = [entry_prefix]"
  shows "holds_state m' (p\<lparr>p_log := L\<rparr>)"
  unfolding holds_state_def
proof (intro conjI allI)
  show "case m' hard_state_key of None \<Rightarrow> p_term (p\<lparr>p_log := L\<rparr>) = 0 \<and> p_voted_for (p\<lparr>p_log := L\<rparr>) = None
      | Some b \<Rightarrow> b = hard_bytes (p_term (p\<lparr>p_log := L\<rparr>)) (p_voted_for (p\<lparr>p_log := L\<rparr>))"
    using assms(1,2) by (cases "m hard_state_key") (simp_all add: holds_state_def)
  show "vote_storable (p_voted_for (p\<lparr>p_log := L\<rparr>))" using assms(1) by (simp add: holds_state_def)
qed (simp_all add: assms(3,4))

lemma log_pairs_append:
  "log_pairs (L @ es) = log_pairs L
    @ map (\<lambda>i. (entry_key (of_nat (Suc (length L + i))), entry_value (es ! i))) [0..<length es]"
proof -
  have "map (\<lambda>i. (entry_key (of_nat (Suc i)), entry_value ((L @ es) ! i))) [length L..<length L + length es]
    = map (\<lambda>i. (entry_key (of_nat (Suc (length L + i))), entry_value (es ! i))) [0..<length es]"
    by (rule nth_equalityI) (simp_all add: nth_append del: of_nat_Suc)
  then show ?thesis
    by (simp add: log_pairs_def upt_add_eq_append [OF le0] nth_append del: of_nat_Suc)
qed

lemma holds_append:
  assumes h: "holds_state m p" and room: "length (p_log p) + length es < vec_cap"
  defines "ps \<equiv> map (\<lambda>i. (entry_key (of_nat (Suc (length (p_log p) + i))), entry_value (es ! i))) [0..<length es]"
  shows "holds_state (fold apply_op (map (\<lambda>(k, v). LogPut k v) ps) m) (p\<lparr>p_log := p_log p @ es\<rparr>)"
proof -
  let ?m = "fold apply_op (map (\<lambda>(k, v). LogPut k v) ps) m"
  have all: "log_pairs (p_log p @ es) = log_pairs (p_log p) @ ps" unfolding ps_def by (rule log_pairs_append)
  have "distinct (map fst (log_pairs (p_log p) @ ps))"
    using log_pairs_sorted [of "p_log p @ es"] room by (simp add: strict_sorted_iff flip: all)
  then have d: "distinct (map fst ps)" "set (map fst (log_pairs (p_log p))) \<inter> set (map fst ps) = {}" by simp_all
  have m: "?m k = (case map_of ps k of Some v \<Rightarrow> Some v | None \<Rightarrow> m k)" for k by (rule fold_puts [OF d(1)])
  have key: "take 1 k = [entry_prefix]" if "k \<in> set (map fst ps)" for k
    using that by (auto simp: ps_def)
  have "map_of ps hard_state_key = None" using key [of hard_state_key] by (auto simp: map_of_eq_None_iff)
  then have hard: "?m hard_state_key = m hard_state_key" by (simp add: m)
  have "(k, v) \<in> set (log_pairs (p_log p) @ ps) \<longleftrightarrow> ?m k = Some v \<and> take 1 k = [entry_prefix]" for k v
  proof (cases "map_of ps k")
    case None
    then have "(k, v) \<notin> set ps" by (force simp: map_of_eq_None_iff)
    then show ?thesis using h None by (simp add: m holds_state_def)
  next
    case (Some w)
    then have k: "k \<in> set (map fst ps)" by (force dest: map_of_SomeD)
    then have "(k, v) \<notin> set (log_pairs (p_log p))" using d(2) by force
    moreover have "(k, v) \<in> set ps \<longleftrightarrow> w = v" using map_of_eq_Some_iff [OF d(1), of k v] Some by simp
    ultimately show ?thesis using key [OF k] by (simp add: m Some)
  qed
  then show ?thesis by (intro holds_log [of m p ?m, OF h hard]) (use room in \<open>simp_all add: all\<close>)
qed

lemma holds_truncate:
  fixes l :: u64
  assumes h: "holds_state m p" and last: "l = of_nat (length (p_log p))"
  shows "holds_state (fold apply_op (map (\<lambda>i. LogDelete (entry_key (of_nat i))) [unat index..<Suc (unat l)]) m)
    (p\<lparr>p_log := take (unat index - 1) (p_log p)\<rparr>)"
proof -
  let ?is = "[unat index..<Suc (unat l)]"
  let ?m = "fold apply_op (map (\<lambda>i. LogDelete (entry_key (of_nat i))) ?is) m"
  have cap: "length (p_log p) < vec_cap" using h by (simp add: holds_state_def)
  have l: "unat l = length (p_log p)" unfolding last by (rule unat_of_nat_small [OF cap])
  obtain S where S: "S = (\<lambda>i. entry_key (of_nat i)) ` set ?is" by blast
  have m: "?m k = (if k \<in> S then None else m k)" for k
    unfolding S by (rule fold_deletes)
  have hard: "?m hard_state_key = m hard_state_key"
    using m [of hard_state_key] by (auto simp: S image_iff simp del: upt_Suc split: if_splits)
  have gone: "entry_key (of_nat (Suc i)) \<in> S \<longleftrightarrow> unat index \<le> Suc i"
    if i: "i < length (p_log p)" for i
  proof -
    have eq: "of_nat (Suc i) = (of_nat j :: u64) \<longleftrightarrow> Suc i = j" if "j \<le> length (p_log p)" for j
      using that i cap by (simp add: word_unat_eq_iff unat_of_nat vec_cap_def del: of_nat_Suc)
    have "entry_key (of_nat (Suc i)) \<in> S
      \<longleftrightarrow> (\<exists>j. unat index \<le> j \<and> j \<le> length (p_log p) \<and> (of_nat (Suc i) :: u64) = of_nat j)"
      by (auto simp: S l image_iff simp del: of_nat_Suc upt_Suc)
    then show ?thesis using eq i by (metis Suc_leI)
  qed
  have mem: "(k, v) \<in> set (log_pairs (take (unat index - 1) (p_log p))) \<longleftrightarrow> ?m k = Some v \<and> take 1 k = [entry_prefix]" for k v
  proof -
    have mk: "?m k = Some v \<longleftrightarrow> k \<notin> S \<and> m k = Some v" by (simp only: m) simp
    have hl: "(k, v) \<in> set (log_pairs (p_log p)) \<longleftrightarrow> m k = Some v \<and> take 1 k = [entry_prefix]"
      using h unfolding holds_state_def by blast
    have "(k, v) \<in> set (log_pairs (take (unat index - 1) (p_log p)))
      \<longleftrightarrow> (\<exists>i < length (p_log p). \<not> unat index \<le> Suc i \<and> k = entry_key (of_nat (Suc i)) \<and> v = entry_value (p_log p ! i))"
      unfolding mem_log_pairs by (auto simp del: of_nat_Suc)
    also have "\<dots> \<longleftrightarrow> (k, v) \<in> set (log_pairs (p_log p)) \<and> k \<notin> S"
      unfolding mem_log_pairs using gone by blast
    also have "\<dots> \<longleftrightarrow> ?m k = Some v \<and> take 1 k = [entry_prefix]"
      unfolding mk hl by blast
    finally show ?thesis .
  qed
  have "length (take (unat index - 1) (p_log p)) < vec_cap" using cap by simp
  then show ?thesis by (rule holds_log [of m p ?m, OF h hard _ mem])
qed

lemma sietch_append_ops:
  assumes l: "l = of_nat n" and room: "n + length es < vec_cap"
  shows "map_opt (\<lambda>(i, e). do {
         a \<leftarrow> add64 l 1;
         idx \<leftarrow> add64 a (as_word i);
         Some (LogPut (entry_key idx) (entry_value e)) }) (enumerate 0 es)
    = Some (map (\<lambda>(k, v). LogPut k v) (map (\<lambda>i. (entry_key (of_nat (Suc (n + i))), entry_value (es ! i))) [0..<length es]))"
proof -
  have "add64 l 1 = Some (of_nat (Suc n))"
    using room unat_of_nat_small [of n] by (simp add: l add64_iff vec_cap_def add.commute)
  moreover have "add64 (of_nat (Suc n)) (of_nat i) = Some (of_nat (Suc (n + i)))" if "i < length es" for i
    using that room unat_of_nat_small [of i] unat_of_nat_small [of "Suc n"]
    by (simp add: add64_iff vec_cap_def del: of_nat_Suc) (simp add: add_ac)
  ultimately show ?thesis
    by (simp add: map_opt_Some_iff nth_enumerate_eq del: of_nat_Suc)
qed

section \<open>The contract of the trait on any store\<close>

context store_spec
begin

lemma load_holds:
  assumes "valid d" and h: "holds_state (contents d) p"
  shows "sietch_load api \<lparr>st_store = d, st_last = l\<rparr> = Some (\<lparr>st_store = d, st_last = of_nat (length (p_log p))\<rparr>, p)"
    and "s_scan api d [entry_prefix] = log_pairs (p_log p)"
proof -
  have cap: "length (p_log p) < vec_cap" and v: "vote_storable (p_voted_for p)" using h by (simp_all add: holds_state_def)
  show scan: "s_scan api d [entry_prefix] = log_pairs (p_log p)"
    using h by (intro scan_eq [OF assms(1) log_pairs_sorted [OF cap]]) (simp add: holds_state_def)
  have log: "load_log 0 (log_pairs (p_log p)) = Some (p_log p)"
    using load_log_pairs [of 0 "p_log p"] cap by (simp add: log_pairs_def del: of_nat_Suc)
  have hard: "(case s_get api d hard_state_key of
         Some b \<Rightarrow> (if length b = 16 then
              let vote = le_word (drop 8 b) :: u64
              in Some (le_word (take 8 b) :: u64, if vote \<noteq> no_vote then Some (unat vote) else None)
            else None)
       | None \<Rightarrow> Some (0, None)) = Some (p_term p, p_voted_for p)"
    using h read_hard_bytes [OF v, of "p_term p"] get_ok [OF assms(1)]
    by (auto simp: holds_state_def Let_def split: option.splits)
  show "sietch_load api \<lparr>st_store = d, st_last = l\<rparr> = Some (\<lparr>st_store = d, st_last = of_nat (length (p_log p))\<rparr>, p)"
    by (simp only: sietch_load_def sietch.simps hard scan log bind.simps case_prod_conv as_word_of_nat) simp
qed

lemma sietch_okD:
  assumes "sietch_ok contents valid s"
  shows "valid (st_store s)" and "holds_state (contents (st_store s)) (sietch_view api s)"
    and "st_last s = of_nat (length (p_log (sietch_view api s)))"
    and "sietch_load api s = Some (s, sietch_view api s)"
proof -
  obtain p where p: "valid (st_store s)" "holds_state (contents (st_store s)) p" "st_last s = of_nat (length (p_log p))"
    using assms unfolding sietch_ok_def by blast
  have l: "sietch_load api s = Some (s, p)"
    using load_holds(1) [OF p(1,2), of "st_last s"] p(3) by (cases s) simp
  then have "sietch_view api s = p" by (simp add: sietch_view_def)
  then show "valid (st_store s)" and "holds_state (contents (st_store s)) (sietch_view api s)"
    and "st_last s = of_nat (length (p_log (sietch_view api s)))"
    and "sietch_load api s = Some (s, sietch_view api s)" using p l by simp_all
qed

lemma sietch_okI:
  assumes "valid d" and "holds_state (contents d) p"
  shows "sietch_ok contents valid \<lparr>st_store = d, st_last = of_nat (length (p_log p))\<rparr>"
    and "sietch_view api \<lparr>st_store = d, st_last = of_nat (length (p_log p))\<rparr> = p"
  using assms load_holds(1) [OF assms] by (auto simp: sietch_ok_def sietch_view_def)

text \<open>Opening the store of a handle again gives a handle on the same state, or the store's error.\<close>

lemma open_holds:
  assumes "valid d" and "holds_state (contents d) p" and "sietch_open api d = Inr s"
  shows "sietch_ok contents valid s \<and> sietch_view api s = p"
proof -
  obtain d' where d': "s_open api d = Inr d'"
    and s: "s = \<lparr>st_store = d', st_last = as_word (length (s_scan api d' [entry_prefix]))\<rparr>"
    using assms(3) by (auto simp: sietch_open_def split: sum.splits)
  have h: "valid d'" "holds_state (contents d') p" using open_ok [OF assms(1) d'] assms(2) by simp_all
  have "s = \<lparr>st_store = d', st_last = of_nat (length (p_log p))\<rparr>"
    using load_holds(2) [OF h] by (simp add: s log_pairs_def)
  then show ?thesis using sietch_okI [OF h] by simp
qed

lemma reopen:
  assumes "sietch_ok contents valid s" and "sietch_open api (st_store s) = Inr s'"
  shows "sietch_ok contents valid s' \<and> sietch_view api s' = sietch_view api s"
  by (rule open_holds [OF sietch_okD(1,2) [OF assms(1)] assms(2)])

lemma sietch_save:
  assumes ok: "sietch_ok contents valid s" and v: "vote_storable v"
    and w: "sietch_save_hard_state api s t v = Some s'"
  shows "sietch_ok contents valid s' \<and> sietch_view api s' = (sietch_view api s)\<lparr>p_term := t, p_voted_for := v\<rparr>"
proof -
  note O = sietch_okD [OF ok]
  obtain d where d: "s_put api (st_store s) hard_state_key (hard_bytes t v) = Some d" "s' = s\<lparr>st_store := d\<rparr>"
    using w unfolding sietch_save_hard_state_def hard_bytes_def Let_def by (auto simp: bind_eq_Some_conv)
  note P = put_ok [OF O(1) d(1)]
  have "holds_state (contents d) ((sietch_view api s)\<lparr>p_term := t, p_voted_for := v\<rparr>)"
    using P holds_save [OF O(2) v] by simp
  note sietch_okI [OF _ this]
  then show ?thesis using P d(2) O(3) by (cases s) simp
qed

lemma sietch_append_ok:
  assumes ok: "sietch_ok contents valid s" and room: "length (p_log (sietch_view api s)) + length es < vec_cap"
    and w: "sietch_append api s es = Some s'"
  shows "sietch_ok contents valid s' \<and> sietch_view api s' = (sietch_view api s)\<lparr>p_log := p_log (sietch_view api s) @ es\<rparr>"
proof (cases "es = []")
  case True
  then show ?thesis using w ok by (simp add: sietch_append_def)
next
  case False
  note O = sietch_okD [OF ok] and ops = sietch_append_ops [OF sietch_okD(3) [OF ok] room]
  let ?ps = "map (\<lambda>i. (entry_key (of_nat (Suc (length (p_log (sietch_view api s)) + i))), entry_value (es ! i))) [0..<length es]"
  obtain d l where d: "s_apply_batch api (st_store s) (map (\<lambda>(k, v). LogPut k v) ?ps) = Some d"
    "add64 (st_last s) (of_nat (length es)) = Some l" "s' = s\<lparr>st_store := d, st_last := l\<rparr>"
    using w False unfolding sietch_append_def ops unfolding as_word_of_nat by (auto simp: bind_eq_Some_conv simp del: of_nat_Suc map_map)
  note P = batch_ok [OF O(1) d(1)]
  have "holds_state (contents d) ((sietch_view api s)\<lparr>p_log := p_log (sietch_view api s) @ es\<rparr>)"
    using P holds_append [OF O(2) room] by simp
  note sietch_okI [OF _ this]
  moreover have "l = of_nat (length (p_log (sietch_view api s) @ es))" using d(2) O(3) by (simp add: add64_iff)
  ultimately show ?thesis using P d(3) by (cases s) simp
qed

lemma sietch_truncate_ok:
  assumes ok: "sietch_ok contents valid s" and w: "sietch_truncate_from api s i = Some s'"
  shows "sietch_ok contents valid s' \<and>
    sietch_view api s' = (sietch_view api s)\<lparr>p_log := take (unat i - 1) (p_log (sietch_view api s))\<rparr>"
proof -
  note O = sietch_okD [OF ok]
  let ?L = "p_log (sietch_view api s)"
  have cap: "length ?L < vec_cap" using O(2) by (simp add: holds_state_def)
  have last: "unat (st_last s) = length ?L" unfolding O(3) by (rule unat_of_nat_small [OF cap])
  show ?thesis
  proof (cases "i > st_last s")
    case True
    then have "length ?L \<le> unat i - 1" using last by (simp add: word_less_nat_alt)
    then show ?thesis using w True ok by (simp add: sietch_truncate_from_def)
  next
    case False
    then have i: "unat i \<le> length ?L" using last by (simp add: word_le_nat_alt not_less)
    obtain d where d: "s_apply_batch api (st_store s)
        (map (\<lambda>i. LogDelete (entry_key (of_nat i))) [unat i..<Suc (unat (st_last s))]) = Some d"
      "s' = s\<lparr>st_store := d, st_last := saturating_sub64 i 1\<rparr>"
      using w False unfolding sietch_truncate_from_def as_word_of_nat Let_def
      by (auto simp: bind_eq_Some_conv simp del: upt_Suc)
    note P = batch_ok [OF O(1) d(1)]
    have "holds_state (contents d) ((sietch_view api s)\<lparr>p_log := take (unat i - 1) ?L\<rparr>)"
      using P holds_truncate [OF O(2,3), of i] by simp
    note sietch_okI [OF _ this]
    moreover have "saturating_sub64 i 1 = of_nat (length (take (unat i - 1) ?L))"
    proof -
      have len: "length (take (unat i - 1) ?L) = unat i - 1" using i by (simp only: length_take)
      have "unat i - 1 < vec_cap" using i cap by linarith
      then show ?thesis unfolding len by (simp add: word_unat_eq_iff unat_saturating_pred unat_of_nat_small)
    qed
    ultimately show ?thesis using P d(2) by (cases s) simp
  qed
qed

end

sublocale store_spec \<subseteq> disk: storage "sietch_ops api" "sietch_view api" "sietch_ok contents valid"
proof
  fix s s' :: "'d sietch" and p assume "sietch_ok contents valid s" "load (sietch_ops api) s = Some (s', p)"
  then show "sietch_ok contents valid s' \<and> sietch_view api s' = sietch_view api s \<and> p = sietch_view api s"
    using sietch_okD(4) [of s] by (auto simp: sietch_ops_def)
next
  fix s s' :: "'d sietch" and v t
  assume "sietch_ok contents valid s" "vote_storable v" "save_hard_state (sietch_ops api) s t v = Some s'"
  then show "sietch_ok contents valid s' \<and> sietch_view api s' = (sietch_view api s)\<lparr>p_term := t, p_voted_for := v\<rparr>"
    using sietch_save [of s v t s'] by (simp only: sietch_ops_def storage_ops.simps)
next
  fix s s' :: "'d sietch" and es
  assume "sietch_ok contents valid s" "length (p_log (sietch_view api s)) + length es < vec_cap"
    "append_entries (sietch_ops api) s es = Some s'"
  then show "sietch_ok contents valid s' \<and> sietch_view api s' = (sietch_view api s)\<lparr>p_log := p_log (sietch_view api s) @ es\<rparr>"
    using sietch_append_ok [of s es s'] by (simp only: sietch_ops_def storage_ops.simps)
next
  fix s s' :: "'d sietch" and i
  assume "sietch_ok contents valid s" "truncate_from (sietch_ops api) s i = Some s'"
  then show "sietch_ok contents valid s' \<and>
      sietch_view api s' = (sietch_view api s)\<lparr>p_log := take (unat i - 1) (p_log (sietch_view api s))\<rparr>"
    using sietch_truncate_ok [of s i s'] by (simp only: sietch_ops_def storage_ops.simps)
next
  fix s :: "'d sietch" assume "sietch_ok contents valid s"
  then show "length (p_log (sietch_view api s)) < vec_cap \<and> vote_storable (p_voted_for (sietch_view api s))"
    using sietch_okD(2) [of s] by (simp add: holds_state_def)
qed


section \<open>A reference store\<close>

text \<open>An ordered map whose writes always succeed: the contract can be kept.\<close>

fun ref_op :: "log_op \<Rightarrow> (bytes \<times> bytes) list \<Rightarrow> (bytes \<times> bytes) list" where
  "ref_op (LogPut k v) d = map_insert k v d"
| "ref_op (LogDelete k) d = map_remove k d"

definition ref_api :: "((bytes \<times> bytes) list, unit) store_api" where
  "ref_api = \<lparr>s_open = (\<lambda>d. if sorted_wrt (<) (map fst d) then Inr d else Inl ()),
     s_get = map_get, s_scan = (\<lambda>d p. filter (\<lambda>(k, v). take (length p) k = p) d),
     s_put = (\<lambda>d k v. Some (map_insert k v d)), s_apply_batch = (\<lambda>d ops. Some (fold ref_op ops d))\<rparr>"

lemma ref_op_ok:
  "map_ok d \<Longrightarrow> map_ok (ref_op x d)" "map_ok d \<Longrightarrow> map_get (ref_op x d) = apply_op x (map_get d)"
  by (cases x; simp add: btree.ok_insert btree.ok_remove btree.get_insert btree.get_remove fun_eq_iff)+

lemma ref_batch_ok: "map_ok d \<Longrightarrow> map_ok (fold ref_op ops d) \<and> map_get (fold ref_op ops d) = fold apply_op ops (map_get d)"
proof (induction ops arbitrary: d)
  case (Cons x ops)
  then show ?case using ref_op_ok [of d x] by simp
qed simp

interpretation ref_store: store_spec ref_api map_get map_ok
proof
  fix d :: "(bytes \<times> bytes) list" and d' k v p ops assume d: "map_ok d"
  show "map_ok d' \<and> map_get d' = map_get d" if "s_open ref_api d = Inr d'"
    using that d by (auto simp: ref_api_def split: if_splits)
  show "s_get ref_api d k = map_get d k" by (simp add: ref_api_def)
  show "sorted_wrt (<) (map fst (s_scan ref_api d p))"
    using d by (simp add: ref_api_def map_ok_def sorted_wrt_map sorted_wrt_filter)
  show "(k, v) \<in> set (s_scan ref_api d p) \<longleftrightarrow> map_get d k = Some v \<and> take (length p) k = p"
    using btree.pairs_get [OF d] by (auto simp: ref_api_def)
  show "map_ok d' \<and> map_get d' = (map_get d)(k \<mapsto> v)" if "s_put ref_api d k v = Some d'"
    using that btree.ok_insert [OF d] btree.get_insert [OF d] by (auto simp: ref_api_def fun_eq_iff)
  show "map_ok d' \<and> map_get d' = fold apply_op ops (map_get d)" if "s_apply_batch ref_api d ops = Some d'"
    using that ref_batch_ok [OF d] by (auto simp: ref_api_def)
qed

definition ref_empty :: "(bytes \<times> bytes) list sietch" where
  "ref_empty = \<lparr>st_store = [], st_last = 0\<rparr>"

lemma ref_empty_holds: "holds_state (map_get []) empty_persistent"
  by (simp add: holds_state_def empty_persistent_def log_pairs_def vec_cap_def vote_storable_def)

lemma ref_empty_ok: "sietch_ok map_get map_ok ref_empty" "sietch_view ref_api ref_empty = empty_persistent"
  using ref_store.sietch_okI [OF _ ref_empty_holds]
  by (simp_all add: ref_empty_def ref_api_def empty_persistent_def map_ok_def)

lemma ref_open_empty: "sietch_open ref_api [] = Inr ref_empty"
  by (simp add: sietch_open_def ref_api_def ref_empty_def)

section \<open>Properties\<close>

text \<open>
  C22: \<open>SietchStorage\<close> is \<open>MemStorage\<close>.  On any store with the documented behaviour, what a
  handle stands for is what \<open>load\<close> returns, and every operation that succeeds does to it
  what the operation of \<open>MemStorage\<close> does, and leaves the handle in order.
\<close>

theorem sietch_like_mem:
  assumes "store_spec api contents valid" and "sietch_ok contents valid s"
  shows "sietch_load api s = Some (s, sietch_view api s)
    \<and> (vote_storable v \<longrightarrow> sietch_save_hard_state api s t v = Some s1 \<longrightarrow>
        sietch_ok contents valid s1 \<and> mem_save_hard_state (sietch_view api s) t v = Some (sietch_view api s1))
    \<and> (length (p_log (sietch_view api s)) + length es < vec_cap \<longrightarrow> sietch_append api s es = Some s2 \<longrightarrow>
        sietch_ok contents valid s2 \<and> mem_append (sietch_view api s) es = Some (sietch_view api s2))
    \<and> (sietch_truncate_from api s i = Some s3 \<longrightarrow>
        sietch_ok contents valid s3 \<and> mem_truncate_from (sietch_view api s) i = Some (sietch_view api s3))"
proof (intro conjI impI)
  note spec = assms(1) and ok = assms(2)
  show "sietch_load api s = Some (s, sietch_view api s)" by (rule store_spec.sietch_okD(4) [OF spec ok])
  assume "vote_storable v" "sietch_save_hard_state api s t v = Some s1"
  note store_spec.sietch_save [OF spec ok this]
  then show "sietch_ok contents valid s1" "mem_save_hard_state (sietch_view api s) t v = Some (sietch_view api s1)"
    by (simp_all add: mem_save_hard_state_def)
next
  note spec = assms(1) and ok = assms(2)
  assume room: "length (p_log (sietch_view api s)) + length es < vec_cap" and "sietch_append api s es = Some s2"
  note store_spec.sietch_append_ok [OF spec ok this]
  then show "sietch_ok contents valid s2" "mem_append (sietch_view api s) es = Some (sietch_view api s2)"
    using room by (simp_all add: mem_append_def vec_extend_defined)
next
  note spec = assms(1) and ok = assms(2)
  assume "sietch_truncate_from api s i = Some s3"
  note store_spec.sietch_truncate_ok [OF spec ok this]
  then show "sietch_ok contents valid s3" "mem_truncate_from (sietch_view api s) i = Some (sietch_view api s3)"
    by (simp_all add: mem_truncate_from_def unat_saturating_pred)
qed

lemma ref_store_spec: "store_spec ref_api map_get map_ok"
  by (rule ref_store.store_spec_axioms)

theorem sietch_like_mem_witness:
  "\<exists>s. sietch_append ref_api ref_empty [\<lparr>e_term = 1, command = [7]\<rparr>] = Some s
    \<and> p_log (sietch_view ref_api s) = [\<lparr>e_term = 1, command = [7]\<rparr>]"
proof -
  let ?e = "\<lparr>e_term = 1, command = [7]\<rparr>"
  have "sietch_append ref_api ref_empty [?e] \<noteq> None" by code_simp
  then obtain s where s: "sietch_append ref_api ref_empty [?e] = Some s" by blast
  moreover have "length (p_log (sietch_view ref_api ref_empty)) + length [?e] < vec_cap"
    by (simp add: ref_empty_ok(2) empty_persistent_def vec_cap_def)
  ultimately have "mem_append (sietch_view ref_api ref_empty) [?e] = Some (sietch_view ref_api s)"
    using sietch_like_mem [OF ref_store_spec ref_empty_ok(1), of None 0 ref_empty "[?e]" s 0 ref_empty] by blast
  moreover have "mem_append (sietch_view ref_api ref_empty) [?e] = Some \<lparr>p_term = 0, p_voted_for = None, p_log = [?e]\<rparr>"
    by (simp add: ref_empty_ok(2) mem_append_def empty_persistent_def vec_extend_def)
  ultimately have "sietch_view ref_api s = \<lparr>p_term = 0, p_voted_for = None, p_log = [?e]\<rparr>" by simp
  then show ?thesis using s by simp
qed

section \<open>Runs across restarts\<close>

text \<open>
  The calls a node makes on its storage, and the restart of its process: what it had open is
  opened again, and a failed opening is a panic, as in \<open>boot\<close> of the cluster.
\<close>

datatype storage_call = SaveHardState u64 "nodeid option" | Append "entry list" | TruncateFrom u64 | Restart

fun sietch_call :: "('d, 'e) store_api \<Rightarrow> storage_call \<Rightarrow> 'd sietch \<Rightarrow> 'd sietch option" where
  "sietch_call api (SaveHardState t v) s = sietch_save_hard_state api s t v"
| "sietch_call api (Append es) s = sietch_append api s es"
| "sietch_call api (TruncateFrom i) s = sietch_truncate_from api s i"
| "sietch_call api Restart s = expect (sietch_open api (st_store s))"

fun mem_call :: "storage_call \<Rightarrow> mem_storage \<Rightarrow> mem_storage option" where
  "mem_call (SaveHardState t v) p = mem_save_hard_state p t v"
| "mem_call (Append es) p = mem_append p es"
| "mem_call (TruncateFrom i) p = mem_truncate_from p i"
| "mem_call Restart p = Some p"

fun calls :: "(storage_call \<Rightarrow> 's \<Rightarrow> 's option) \<Rightarrow> storage_call list \<Rightarrow> 's \<Rightarrow> 's option" where
  "calls f [] s = Some s"
| "calls f (c # cs) s = do { s' \<leftarrow> f c s; calls f cs s' }"

definition votes_storable :: "storage_call list \<Rightarrow> bool" where
  "votes_storable cs \<longleftrightarrow> (\<forall>t v. SaveHardState t v \<in> set cs \<longrightarrow> vote_storable v)"

lemma votes_storable_Cons [simp]:
  "votes_storable (c # cs) \<longleftrightarrow> (case c of SaveHardState t v \<Rightarrow> vote_storable v | _ \<Rightarrow> True) \<and> votes_storable cs"
  by (auto simp: votes_storable_def split: storage_call.split)

context store_spec
begin

lemma call_like_mem:
  assumes ok: "sietch_ok contents valid s" and v: "votes_storable [c]"
    and run: "sietch_call api c s = Some s'" and mem: "mem_call c (sietch_view api s) = Some p"
  shows "sietch_ok contents valid s' \<and> sietch_view api s' = p"
proof (cases c)
  case (SaveHardState t w)
  then show ?thesis using sietch_save [OF ok, of w t s'] v run mem by (simp add: mem_save_hard_state_def)
next
  case (Append es)
  then show ?thesis
    using sietch_append_ok [OF ok, of es s'] run mem
    by (auto simp: mem_append_def bind_eq_Some_conv vec_extend_iff)
next
  case (TruncateFrom i)
  then show ?thesis
    using sietch_truncate_ok [OF ok, of i s'] run mem by (simp add: mem_truncate_from_def unat_saturating_pred)
next
  case Restart
  then show ?thesis using reopen [OF ok, of s'] run mem by (cases "sietch_open api (st_store s)") simp_all
qed

lemma calls_like_mem:
  "sietch_ok contents valid s \<Longrightarrow> votes_storable cs \<Longrightarrow> calls (sietch_call api) cs s = Some s' \<Longrightarrow>
    calls mem_call cs (sietch_view api s) = Some p \<Longrightarrow> sietch_ok contents valid s' \<and> sietch_view api s' = p"
proof (induction cs arbitrary: s)
  case (Cons c cs)
  obtain s1 p1 where c: "sietch_call api c s = Some s1" "calls (sietch_call api) cs s1 = Some s'"
    "mem_call c (sietch_view api s) = Some p1" "calls mem_call cs p1 = Some p"
    using Cons.prems(3,4) by (auto simp: bind_eq_Some_conv)
  have "votes_storable [c]" "votes_storable cs" using Cons.prems(2) by (simp_all add: votes_storable_def)
  then show ?thesis using call_like_mem [OF Cons.prems(1) _ c(1,3)] Cons.IH c(2,4) by blast
qed simp

end

text \<open>
  C23: What was written survives.  After any sequence of writes, with the process restarted at any
  points among them, the handle loads what \<open>MemStorage\<close> holds after the same writes, and so does
  the handle that opening the directory once more gives; an error of the store is the error of
  \<open>open\<close>.
\<close>

theorem sietch_survives:
  assumes "store_spec api contents valid" and "sietch_ok contents valid s" and "votes_storable cs"
    and "calls (sietch_call api) cs s = Some s'" and "calls mem_call cs (sietch_view api s) = Some p"
  shows "sietch_load api s' = Some (s', p)
    \<and> (case s_open api (st_store s') of
         Inl e \<Rightarrow> sietch_open api (st_store s') = Inl e
       | Inr d \<Rightarrow> \<exists>s''. sietch_open api (st_store s') = Inr s'' \<and> st_store s'' = d
           \<and> sietch_load api s'' = Some (s'', p))"
proof -
  note R = store_spec.calls_like_mem [OF assms]
  have load: "sietch_load api r = Some (r, p)" if "sietch_ok contents valid r \<and> sietch_view api r = p" for r
    using store_spec.sietch_okD(4) [OF assms(1)] that by blast
  have "\<exists>s''. sietch_open api (st_store s') = Inr s'' \<and> st_store s'' = d \<and> sietch_load api s'' = Some (s'', p)"
    if d: "s_open api (st_store s') = Inr d" for d
  proof -
    obtain r where r: "sietch_open api (st_store s') = Inr r" "st_store r = d"
      using d by (simp add: sietch_open_def)
    then show ?thesis using load store_spec.reopen [OF assms(1) _ r(1)] R by auto
  qed
  then show ?thesis using load R by (auto simp: sietch_open_def split: sum.split)
qed

definition some_calls :: "storage_call list" where
  "some_calls = [SaveHardState 8 (Some 0), Append [\<lparr>e_term = 1, command = [120]\<rparr>, \<lparr>e_term = 8, command = []\<rparr>],
     TruncateFrom 2, Restart, Append [\<lparr>e_term = 8, command = [121]\<rparr>], Restart]"

theorem sietch_survives_witness:
  "\<exists>s. calls (sietch_call ref_api) some_calls ref_empty = Some s
    \<and> sietch_load ref_api s = Some (s, \<lparr>p_term = 8, p_voted_for = Some 0,
        p_log = [\<lparr>e_term = 1, command = [120]\<rparr>, \<lparr>e_term = 8, command = [121]\<rparr>]\<rparr>)"
proof -
  have "calls (sietch_call ref_api) some_calls ref_empty \<noteq> None" by code_simp
  then obtain s where s: "calls (sietch_call ref_api) some_calls ref_empty = Some s" by blast
  have "calls mem_call some_calls empty_persistent = Some \<lparr>p_term = 8, p_voted_for = Some 0,
        p_log = [\<lparr>e_term = 1, command = [120]\<rparr>, \<lparr>e_term = 8, command = [121]\<rparr>]\<rparr>" by code_simp
  then have m: "calls mem_call some_calls (sietch_view ref_api ref_empty) = Some \<lparr>p_term = 8, p_voted_for = Some 0,
        p_log = [\<lparr>e_term = 1, command = [120]\<rparr>, \<lparr>e_term = 8, command = [121]\<rparr>]\<rparr>"
    by (simp add: ref_empty_ok(2))
  have "votes_storable some_calls" by (simp add: some_calls_def votes_storable_def vote_storable_def)
  from sietch_survives [OF ref_store_spec ref_empty_ok(1) this s m] show ?thesis using s by blast
qed

lemma load_log_SomeD:
  "load_log i ps = Some es \<Longrightarrow> i + length ps < vec_cap \<Longrightarrow>
    ps = map (\<lambda>j. (entry_key (of_nat (Suc (i + j))), entry_value (es ! j))) [0..<length es] \<and> length ps = length es"
proof (induction i ps arbitrary: es rule: load_log.induct)
  case (2 i key val xs)
  have "i < vec_cap" using 2(3) by simp
  then have a: "add64 (of_nat i) 1 = Some (of_nat (Suc i))"
    using unat_of_nat_small [of i] by (simp add: add64_iff vec_cap_def add.commute)
  obtain fs where k: "key = entry_key (of_nat (Suc i))" and v: "8 \<le> length val" and fs: "load_log (Suc i) xs = Some fs"
    and es: "es = \<lparr>e_term = le_word (take 8 val), command = drop 8 val\<rparr> # fs"
    using 2(2) unfolding load_log.simps as_word_of_nat a
    by (auto simp: bind_eq_Some_conv simp del: of_nat_Suc split: if_splits)
  have "add64 (as_word i) 1 = Some (of_nat (Suc i))" unfolding as_word_of_nat by (rule a)
  then have IH: "xs = map (\<lambda>j. (entry_key (of_nat (Suc (Suc i + j))), entry_value (fs ! j))) [0..<length fs] \<and> length xs = length fs"
    using 2(1) [OF _ _ _ fs] k v 2(3) by (simp add: not_less)
  have "val = entry_value \<lparr>e_term = le_word (take 8 val), command = drop 8 val\<rparr>"
    using v by (simp add: entry_value_def to_le_bytes64_le_word)
  then show ?case unfolding es pairs_from_Cons using IH k by simp
qed simp

text \<open>
  C24: Corruption fails loudly.  \<open>load\<close> returns a state exactly when the store holds that
  state: the hard state under its key, and under the log prefix the entries with the keys 1, 2,
  and so on, none missing and nothing else.  For anything else the node stops.
\<close>

theorem sietch_load_exact:
  assumes "store_spec api contents valid" and "valid d" and "length (s_scan api d [entry_prefix]) < vec_cap"
  shows "(\<exists>s. sietch_load api \<lparr>st_store = d, st_last = l\<rparr> = Some (s, p)) \<longleftrightarrow> holds_state (contents d) p"
proof
  assume "holds_state (contents d) p"
  then show "\<exists>s. sietch_load api \<lparr>st_store = d, st_last = l\<rparr> = Some (s, p)"
    using store_spec.load_holds(1) [OF assms(1,2)] by blast
next
  assume "\<exists>s. sietch_load api \<lparr>st_store = d, st_last = l\<rparr> = Some (s, p)"
  then obtain t v es where hard: "(case s_get api d hard_state_key of
         Some b \<Rightarrow> (if length b = 16 then
              let vote = le_word (drop 8 b) :: u64
              in Some (le_word (take 8 b) :: u64, if vote \<noteq> no_vote then Some (unat vote) else None)
            else None)
       | None \<Rightarrow> Some (0, None)) = Some (t, v)"
    and log: "load_log 0 (s_scan api d [entry_prefix]) = Some es"
    and p: "p = \<lparr>p_term = t, p_voted_for = v, p_log = es\<rparr>"
    unfolding sietch_load_def sietch.simps by (auto simp only: bind_eq_Some_conv prod.inject option.inject split_paired_all case_prod_conv)
  have pairs: "s_scan api d [entry_prefix] = log_pairs es" "length (s_scan api d [entry_prefix]) = length es"
    using load_log_SomeD [OF log] assms(3) by (simp_all add: log_pairs_def del: of_nat_Suc)
  have "(k, x) \<in> set (log_pairs es) \<longleftrightarrow> contents d k = Some x \<and> take 1 k = [entry_prefix]" for k x
    using store_spec.scan_mem [OF assms(1,2), of k x "[entry_prefix]"] pairs(1) by simp
  note mem = this
  have hs: "vote_storable v \<and> (case contents d hard_state_key of None \<Rightarrow> t = 0 \<and> v = None
      | Some b \<Rightarrow> b = hard_bytes t v)"
  proof (cases "contents d hard_state_key")
    case None
    then show ?thesis using hard store_spec.get_ok [OF assms(1,2)] by (auto simp: vote_storable_def)
  next
    case (Some b)
    then have b: "length b = 16" "t = le_word (take 8 b)"
      "v = (if le_word (drop 8 b) \<noteq> no_vote then Some (unat (le_word (drop 8 b) :: u64)) else None)"
      using hard store_spec.get_ok [OF assms(1,2)] by (auto simp: Let_def split: if_splits)
    let ?w = "le_word (drop 8 b) :: u64"
    have bytes: "to_le_bytes64 t @ to_le_bytes64 ?w = b"
      using b(1) by (simp add: b(2) to_le_bytes64_le_word)
    have "unat ?w < 2 ^ 64 - 1" if "?w \<noteq> no_vote"
    proof -
      have "unat ?w \<noteq> unat no_vote" using that by (simp add: word_unat_eq_iff)
      then show ?thesis using unat_lt_2_64 [of ?w] by (simp add: no_vote_def)
    qed
    then show ?thesis using b(3) bytes Some by (auto simp: hard_bytes_def vote_storable_def)
  qed
  have len: "length es < vec_cap" using pairs(2) assms(3) by simp
  show "holds_state (contents d) p"
    unfolding holds_state_def p persistent.simps using hs len by (intro conjI allI mem) blast+
qed

theorem sietch_load_exact_witness:
  "sietch_load ref_api \<lparr>st_store = [([0x65], [])], st_last = 0\<rparr> = None \<and>
    (\<nexists>p. holds_state (map_get [([0x65], [])]) p)"
proof -
  have none: "sietch_load ref_api \<lparr>st_store = [([0x65], [])], st_last = 0\<rparr> = None" by code_simp
  have "map_ok [([0x65 :: u8], [] :: bytes)]" by (simp add: map_ok_def)
  moreover have "length (s_scan ref_api [([0x65], [])] [entry_prefix]) < vec_cap"
    by (simp add: ref_api_def vec_cap_def)
  ultimately show ?thesis
    using sietch_load_exact [OF ref_store_spec, of "[([0x65], [])]" 0] none by simp
qed

end
