(* ===== verification/Cluster.thy ===== *)
theory Cluster
  imports Rng Sietch
begin

text \<open>
  The simulated cluster of \<open>crates/sim/src/cluster.rs\<close>: nodes wired by one channel per
  directed link, with partitions, crashes and restarts in virtual time, and the invariant
  checker that runs after every tick.

  The external \<open>channel\<close> and \<open>frame\<close> crates and the place where nodes keep their state are
  parameters, collected in an \<open>env\<close>.  \<^const>\<open>None\<close> is a panic.  A \<open>Result\<close> with a
  \<open>Violation\<close> comes with the cluster it leaves behind; the text of a violation is a
  constructor with the values the code formats into it.
\<close>

section \<open>Parameters\<close>

record fault_profile =
  fp_loss :: rat
  fp_duplication :: rat
  fp_reorder_max_delay :: u64
  fp_corruption :: rat
  fp_truncation :: rat
  fp_base_delay :: u64

record fault_stats =
  fs_sent :: u64
  fs_delivered :: u64
  fs_dropped :: u64
  fs_duplicated :: u64
  fs_reordered :: u64
  fs_corrupted :: u64
  fs_truncated :: u64

text \<open>\<open>ch_clean\<close> is \<open>FaultProfile::CLEAN\<close>, \<open>ch_no_stats\<close> is \<open>FaultStats::default()\<close>.\<close>

record 'ch channel_api =
  ch_clean :: fault_profile
  ch_no_stats :: fault_stats
  ch_stats :: "'ch \<Rightarrow> fault_stats"
  ch_new :: "u64 \<Rightarrow> fault_profile \<Rightarrow> 'ch"
  ch_send :: "'ch \<Rightarrow> bytes \<Rightarrow> 'ch"
  ch_advance :: "'ch \<Rightarrow> u64 \<Rightarrow> 'ch \<times> bytes list"

text \<open>
  Where nodes keep their state, \<open>StorageKind\<close>: the methods of the storage, what lies at the
  place of each node when the cluster is created, and how a node gets its handle there.  A
  clone of a \<open>MemStorage\<close> denotes the same cell.  A \<open>SietchStorage\<close> is opened anew on what lies in
  the node's directory, the store of the handle the node had (\<open>st_last\<close>, which is not stored, is
  computed by the opening); an opening that fails is a panic.
\<close>

record 's backend =
  st_ops :: "'s storage_ops"
  st_initial :: "nodeid \<Rightarrow> 's"
  st_open :: "'s \<Rightarrow> 's option"

definition mem_backend :: "mem_storage backend" where
  "mem_backend = \<lparr>st_ops = mem_ops, st_initial = (\<lambda>_. empty_persistent), st_open = Some\<rparr>"

definition sietch_backend :: "('d, 'e) store_api \<Rightarrow> (nodeid \<Rightarrow> 'd) \<Rightarrow> 'd sietch backend" where
  "sietch_backend api dirs = \<lparr>st_ops = sietch_ops api, st_initial = (\<lambda>i. \<lparr>st_store = dirs i, st_last = 0\<rparr>),
     st_open = (\<lambda>s. expect (sietch_open api (st_store s)))\<rparr>"

record ('s, 'ch, 'e) env =
  backend :: "'s backend"
  channels :: "'ch channel_api"
  frame_enc :: "frame \<Rightarrow> bytes"
  frame_dec :: "bytes \<Rightarrow> 'e + frame"

section \<open>Configuration and state\<close>

record faults =
  f_crash :: rat
  f_restart :: rat
  f_partition :: rat
  f_heal :: rat
  f_crash_after_event :: rat
  f_propose :: rat

definition no_faults :: faults where
  "no_faults = \<lparr>f_crash = 0, f_restart = 0, f_partition = 0, f_heal = 0, f_crash_after_event = 0,
     f_propose = 0\<rparr>"

record cluster_config =
  cc_n :: nat
  cc_seed :: u64
  cc_profile :: fault_profile
  cc_faults :: faults
  cc_election_timeout :: "u64 \<times> u64"
  cc_heartbeat_interval :: u64

text \<open>\<open>clean\<close> is the channel crate's \<open>FaultProfile::CLEAN\<close>.\<close>

definition cluster_config_new :: "fault_profile \<Rightarrow> nat \<Rightarrow> u64 \<Rightarrow> cluster_config" where
  "cluster_config_new clean n seed = \<lparr>cc_n = n, cc_seed = seed, cc_profile = clean,
     cc_faults = no_faults, cc_election_timeout = (150, 300), cc_heartbeat_interval = 50\<rparr>"

datatype violation_kind =
    LostCommitted nodeid u64
  | TermWentBackwards nodeid u64 u64
  | TwoLeaders nodeid nodeid u64
  | CommitBeyondLog nodeid
  | DifferentEntry nodeid nat
  | LacksCommitted nodeid u64 nat
  | LogsDiffer nodeid nodeid nat

record violation =
  v_tick :: u64
  v_what :: violation_kind

record stats =
  sent :: u64
  delivered :: u64
  rejected_by_codec :: u64
  dropped_by_partition :: u64
  dropped_to_crashed_node :: u64
  crashes :: u64
  restarts :: u64
  proposals_accepted :: u64
  terms_with_a_leader :: u64

definition stats_default :: stats where
  "stats_default = \<lparr>sent = 0, delivered = 0, rejected_by_codec = 0, dropped_by_partition = 0,
     dropped_to_crashed_node = 0, crashes = 0, restarts = 0, proposals_accepted = 0, terms_with_a_leader = 0\<rparr>"

record ('s, 'ch) cluster =
  c_cfg :: cluster_config
  c_now :: u64
  c_rng :: rng
  links :: "'ch list"
  blocked :: "bool list"
  nodes :: "'s node option list"
  disks :: "'s list"
  c_stats :: stats
  next_command :: u64
  leaders_by_term :: "(u64 \<times> nodeid) list"
  c_committed :: "entry list"
  max_commit_seen :: "u64 list"
  max_term_seen :: "u64 list"

type_synonym ('s, 'ch) outcome = "(('s, 'ch) cluster \<times> (violation + unit)) option"

text \<open>The \<open>?\<close> operator on a \<open>Result<(), Violation>\<close>.\<close>

definition go_on :: "('s, 'ch) outcome \<Rightarrow> (('s, 'ch) cluster \<Rightarrow> ('s, 'ch) outcome) \<Rightarrow> ('s, 'ch) outcome" where
  "go_on r f = do { (c, v) \<leftarrow> r; case v of Inl e \<Rightarrow> Some (c, Inl e) | Inr _ \<Rightarrow> f c }"

definition violation_at :: "('s, 'ch) cluster \<Rightarrow> violation_kind \<Rightarrow> violation + unit" where
  "violation_at c k = Inl \<lparr>v_tick = c_now c, v_what = k\<rparr>"

definition size_of :: "('s, 'ch) cluster \<Rightarrow> nat" where
  "size_of c = cc_n (c_cfg c)"

text \<open>A counter of the statistics, incremented.\<close>

definition count_up :: "(stats \<Rightarrow> u64) \<Rightarrow> ((u64 \<Rightarrow> u64) \<Rightarrow> stats \<Rightarrow> stats) \<Rightarrow> ('s, 'ch) cluster \<Rightarrow> ('s, 'ch) cluster option" where
  "count_up get put c = do {
     k \<leftarrow> add64 (get (c_stats c)) 1;
     Some (c\<lparr>c_stats := put (\<lambda>_. k) (c_stats c)\<rparr>) }"

definition set_node :: "('s, 'ch) cluster \<Rightarrow> nodeid \<Rightarrow> 's node option \<Rightarrow> ('s, 'ch) cluster" where
  "set_node c i n = c\<lparr>nodes := (nodes c)[i := n]\<rparr>"

section \<open>Nodes up and down\<close>

definition boot :: "('s, 'ch, 'e) env \<Rightarrow> ('s, 'ch) cluster \<Rightarrow> nodeid \<Rightarrow> ('s, 'ch) cluster option" where
  "boot env c i = do {
     let conf = (config_new i (size_of c) (cc_seed (c_cfg c)))
                  \<lparr>election_timeout := cc_election_timeout (c_cfg c),
                   heartbeat_interval := cc_heartbeat_interval (c_cfg c)\<rparr>;
     d \<leftarrow> vec_get (disks c) i;
     s \<leftarrow> st_open (backend env) d;
     n \<leftarrow> node_new (st_ops (backend env)) conf s (c_now c);
     _ \<leftarrow> vec_get (nodes c) i;
     Some (set_node c i (Some n)) }"

fun boot_all :: "('s, 'ch, 'e) env \<Rightarrow> ('s, 'ch) cluster \<Rightarrow> nodeid list \<Rightarrow> ('s, 'ch) cluster option" where
  "boot_all env c [] = Some c"
| "boot_all env c (i # is) = do { c \<leftarrow> boot env c i; boot_all env c is }"

definition cluster_new :: "('s, 'ch, 'e) env \<Rightarrow> cluster_config \<Rightarrow> ('s, 'ch) cluster option" where
  "cluster_new env conf =
     (let n = cc_n conf in
      if int n * int n < 2 ^ 64 then do {
        ls \<leftarrow> map_opt (\<lambda>i. do {
           k \<leftarrow> add64 (as_word i) 1;
           Some (ch_new (channels env) (xor (cc_seed conf) (k * 0xD6E8FEB86659FD93)) (cc_profile conf)) })
           [0..<n * n];
        boot_all env
          \<lparr>c_cfg = conf, c_now = 0, c_rng = rng_new (xor (cc_seed conf) 0xA5A5A5A55A5A5A5A), links = ls,
           blocked = replicate (n * n) False, nodes = replicate n None,
           disks = map (st_initial (backend env)) [0..<n], c_stats = stats_default, next_command = 0,
           leaders_by_term = [], c_committed = [], max_commit_seen = replicate n 0,
           max_term_seen = replicate n 0\<rparr>
          [0..<n] }
      else None)"

definition is_up :: "('s, 'ch) cluster \<Rightarrow> nodeid \<Rightarrow> bool option" where
  "is_up c i = do { n \<leftarrow> vec_get (nodes c) i; Some (n \<noteq> None) }"

text \<open>\<open>max_by_key\<close> returns the last of several maximal elements.\<close>

definition leader :: "('s, 'ch) cluster \<Rightarrow> nodeid option" where
  "leader c = map_option (\<lambda>n. cfg_id (cfg n))
     (fold (\<lambda>n best. case best of None \<Rightarrow> Some n | Some m \<Rightarrow> if n_term m \<le> n_term n then Some n else Some m)
       (filter (\<lambda>n. role n = Leader) (List.map_filter (\<lambda>n. n) (nodes c))) None)"

text \<open>The channels' counters, added up: a sum beyond 64 bits panics.\<close>

fun add_stats :: "fault_stats \<Rightarrow> fault_stats list \<Rightarrow> fault_stats option" where
  "add_stats t [] = Some t"
| "add_stats t (s # ss) = do {
     a \<leftarrow> add64 (fs_sent t) (fs_sent s);
     b \<leftarrow> add64 (fs_delivered t) (fs_delivered s);
     c \<leftarrow> add64 (fs_dropped t) (fs_dropped s);
     d \<leftarrow> add64 (fs_duplicated t) (fs_duplicated s);
     e \<leftarrow> add64 (fs_reordered t) (fs_reordered s);
     f \<leftarrow> add64 (fs_corrupted t) (fs_corrupted s);
     g \<leftarrow> add64 (fs_truncated t) (fs_truncated s);
     add_stats \<lparr>fs_sent = a, fs_delivered = b, fs_dropped = c, fs_duplicated = d, fs_reordered = e,
       fs_corrupted = f, fs_truncated = g\<rparr> ss }"

definition channel_stats :: "('s, 'ch, 'e) env \<Rightarrow> ('s, 'ch) cluster \<Rightarrow> fault_stats option" where
  "channel_stats env c = add_stats (ch_no_stats (channels env)) (map (ch_stats (channels env)) (links c))"

text \<open>A crash leaves what the node had stored.\<close>

definition crash :: "('s, 'ch) cluster \<Rightarrow> nodeid \<Rightarrow> ('s, 'ch) cluster option" where
  "crash c i = do {
     no \<leftarrow> vec_get (nodes c) i;
     case no of None \<Rightarrow> Some c
     | Some n \<Rightarrow> count_up crashes crashes_update
         ((set_node c i None)\<lparr>disks := (disks c)[i := store n]\<rparr>) }"

definition restart :: "('s, 'ch, 'e) env \<Rightarrow> ('s, 'ch) cluster \<Rightarrow> nodeid \<Rightarrow> ('s, 'ch) outcome" where
  "restart env c i = do {
     no \<leftarrow> vec_get (nodes c) i;
     if no \<noteq> None then Some (c, Inr ())
     else do {
       c \<leftarrow> boot env c i;
       c \<leftarrow> count_up restarts restarts_update c;
       no \<leftarrow> vec_get (nodes c) i;
       n \<leftarrow> no;
       m \<leftarrow> vec_get (max_commit_seen c) i;
       let known = min (unat m) (length (c_committed c));
       if length (n_log n) < known \<or> take known (n_log n) \<noteq> take known (c_committed c)
       then Some (c, violation_at c (LostCommitted i m))
       else Some (c, Inr ()) } }"

fun restart_all :: "('s, 'ch, 'e) env \<Rightarrow> ('s, 'ch) cluster \<Rightarrow> nodeid list \<Rightarrow> ('s, 'ch) outcome" where
  "restart_all env c [] = Some (c, Inr ())"
| "restart_all env c (i # is) = go_on (restart env c i) (\<lambda>c. restart_all env c is)"

section \<open>Partitions\<close>

definition cl_partition :: "('s, 'ch) cluster \<Rightarrow> bool list \<Rightarrow> ('s, 'ch) cluster option" where
  "cl_partition c side = do {
     bs \<leftarrow> map_opt (\<lambda>(a, b).
        if a = b then Some False
        else do { x \<leftarrow> vec_get side a; y \<leftarrow> vec_get side b; Some (x \<noteq> y) })
        (List.product [0..<size_of c] [0..<size_of c]);
     Some (c\<lparr>blocked := bs\<rparr>) }"

definition isolate :: "('s, 'ch) cluster \<Rightarrow> nodeid \<Rightarrow> ('s, 'ch) cluster option" where
  "isolate c i = do {
     side \<leftarrow> vec_set (replicate (size_of c) False) i True;
     cl_partition c side }"

definition heal :: "('s, 'ch) cluster \<Rightarrow> ('s, 'ch) cluster" where
  "heal c = c\<lparr>blocked := map (\<lambda>_. False) (blocked c)\<rparr>"

definition quiesce :: "('s, 'ch, 'e) env \<Rightarrow> ('s, 'ch) cluster \<Rightarrow> ('s, 'ch) outcome" where
  "quiesce env c =
     (let c = heal (c\<lparr>c_cfg := (c_cfg c)\<lparr>cc_faults := no_faults\<rparr>\<rparr>)
      in restart_all env c [0..<size_of c])"

section \<open>Sending\<close>

fun route :: "('s, 'ch, 'e) env \<Rightarrow> ('s, 'ch) cluster \<Rightarrow> nodeid \<Rightarrow> outgoing list \<Rightarrow> ('s, 'ch) cluster option" where
  "route env c src [] = Some c"
| "route env c src (o1 # out) = do {
     c \<leftarrow> count_up sent sent_update c;
     let k = src * size_of c + to o1;
     b \<leftarrow> vec_get (blocked c) k;
     if b then do {
       c \<leftarrow> count_up dropped_by_partition dropped_by_partition_update c;
       route env c src out }
     else do {
       ch \<leftarrow> vec_get (links c) k;
       let ch = ch_send (channels env) ch (encode_message (frame_enc env) (message o1));
       route env (c\<lparr>links := (links c)[k := ch]\<rparr>) src out } }"

definition cl_propose :: "('s, 'ch, 'e) env \<Rightarrow> ('s, 'ch) cluster \<Rightarrow> bytes
    \<Rightarrow> (('s, 'ch) cluster \<times> (propose_error + (nodeid \<times> u64))) option" where
  "cl_propose env c cmd =
     (case leader c of
        None \<Rightarrow> Some (c, Inl (NotLeader None))
      | Some l \<Rightarrow> do {
          no \<leftarrow> vec_get (nodes c) l;
          n \<leftarrow> no;
          (n, r) \<leftarrow> propose (st_ops (backend env)) n (c_now c) cmd;
          let c = set_node c l (Some n);
          case r of
            Inl e \<Rightarrow> Some (c, Inl e)
          | Inr (idx, out) \<Rightarrow> do {
              c \<leftarrow> count_up proposals_accepted proposals_accepted_update c;
              c \<leftarrow> route env c l out;
              Some (c, Inr (l, idx)) } })"

section \<open>One tick\<close>

definition draw :: "rat \<Rightarrow> ('s, 'ch) cluster \<Rightarrow> ('s, 'ch) cluster \<times> bool" where
  "draw p c = (let (r, b) = chance p (c_rng c) in (c\<lparr>c_rng := r\<rparr>, b))"

definition draw_node :: "('s, 'ch) cluster \<Rightarrow> (('s, 'ch) cluster \<times> nodeid) option" where
  "draw_node c = do { (r, i) \<leftarrow> below (size_of c) (c_rng c); Some (c\<lparr>c_rng := r\<rparr>, i) }"

fun draw_sides :: "nat \<Rightarrow> ('s, 'ch) cluster \<Rightarrow> ('s, 'ch) cluster \<times> bool list" where
  "draw_sides 0 c = (c, [])"
| "draw_sides (Suc k) c = (let (c, b) = draw (1 / 2) c; (c, bs) = draw_sides k c in (c, b # bs))"

text \<open>\<open>format!("cmd{}", k).into_bytes()\<close>\<close>

fun decimal :: "nat \<Rightarrow> bytes" where
  "decimal k = (if k < 10 then [as_word (48 + k)] else decimal (k div 10) @ [as_word (48 + k mod 10)])"

declare decimal.simps [simp del]

definition command_bytes :: "u64 \<Rightarrow> bytes" where
  "command_bytes k = [99, 109, 100] @ decimal (unat k)"

text \<open>The injected cluster events.\<close>

definition inject_crash :: "('s, 'ch) cluster \<Rightarrow> ('s, 'ch) cluster option" where
  "inject_crash c =
     (let (c, hit) = draw (f_crash (cc_faults (c_cfg c))) c in
      if hit then do { (c, i) \<leftarrow> draw_node c; crash c i } else Some c)"

definition inject_restart :: "('s, 'ch, 'e) env \<Rightarrow> ('s, 'ch) cluster \<Rightarrow> ('s, 'ch) outcome" where
  "inject_restart env c =
     (let (c, hit) = draw (f_restart (cc_faults (c_cfg c))) c in
      if hit then do { (c, i) \<leftarrow> draw_node c; restart env c i } else Some (c, Inr ()))"

definition inject_partition :: "('s, 'ch) cluster \<Rightarrow> ('s, 'ch) cluster option" where
  "inject_partition c =
     (let (c, hit) = draw (f_partition (cc_faults (c_cfg c))) c in
      if hit then let (c, side) = draw_sides (size_of c) c in cl_partition c side else Some c)"

definition inject_heal :: "('s, 'ch) cluster \<Rightarrow> ('s, 'ch) cluster" where
  "inject_heal c =
     (let (c, hit) = draw (f_heal (cc_faults (c_cfg c))) c in if hit then heal c else c)"

definition inject_propose :: "('s, 'ch, 'e) env \<Rightarrow> ('s, 'ch) cluster \<Rightarrow> ('s, 'ch) cluster option" where
  "inject_propose env c =
     (let (c, hit) = draw (f_propose (cc_faults (c_cfg c))) c in
      if hit then do {
        (c, r) \<leftarrow> cl_propose env c (command_bytes (next_command c));
        case r of Inl _ \<Rightarrow> Some c
        | Inr _ \<Rightarrow> do { k \<leftarrow> add64 (next_command c) 1; Some (c\<lparr>next_command := k\<rparr>) } }
      else Some c)"

text \<open>What arrives: every link is advanced before anything is handled.\<close>

fun collect :: "('s, 'ch, 'e) env \<Rightarrow> ('s, 'ch) cluster \<Rightarrow> (nodeid \<times> nodeid) list
    \<Rightarrow> (('s, 'ch) cluster \<times> (nodeid \<times> nodeid \<times> bytes) list) option" where
  "collect env c [] = Some (c, [])"
| "collect env c ((src, dst) # ps) =
     (if src = dst then collect env c ps
      else do {
        let k = src * size_of c + dst;
        ch \<leftarrow> vec_get (links c) k;
        let (ch, ds) = ch_advance (channels env) ch (c_now c);
        (c, rest) \<leftarrow> collect env (c\<lparr>links := (links c)[k := ch]\<rparr>) ps;
        Some (c, map (\<lambda>d. (src, dst, d)) ds @ rest) })"

definition deliver_one :: "('s, 'ch, 'e) env \<Rightarrow> ('s, 'ch) cluster \<Rightarrow> nodeid \<times> nodeid \<times> bytes \<Rightarrow> ('s, 'ch) cluster option" where
  "deliver_one env c = (\<lambda>(src, dst, datagram). do {
     no \<leftarrow> vec_get (nodes c) dst;
     case no of
       None \<Rightarrow> count_up dropped_to_crashed_node dropped_to_crashed_node_update c
     | Some n \<Rightarrow>
         (case decode_message (frame_dec env) datagram of
            Inl _ \<Rightarrow> count_up rejected_by_codec rejected_by_codec_update c
          | Inr msg \<Rightarrow> do {
              c \<leftarrow> count_up delivered delivered_update c;
              (n, out) \<leftarrow> handle (st_ops (backend env)) n (c_now c) src msg;
              let c = set_node c dst (Some n);
              let (c, hit) = draw (f_crash_after_event (cc_faults (c_cfg c))) c;
              if hit then crash c dst else route env c dst out }) })"

fun deliver_all :: "('s, 'ch, 'e) env \<Rightarrow> ('s, 'ch) cluster \<Rightarrow> (nodeid \<times> nodeid \<times> bytes) list \<Rightarrow> ('s, 'ch) cluster option" where
  "deliver_all env c [] = Some c"
| "deliver_all env c (a # as) = do { c \<leftarrow> deliver_one env c a; deliver_all env c as }"

fun timers :: "('s, 'ch, 'e) env \<Rightarrow> ('s, 'ch) cluster \<Rightarrow> nodeid list \<Rightarrow> ('s, 'ch) cluster option" where
  "timers env c [] = Some c"
| "timers env c (i # is) = do {
     no \<leftarrow> vec_get (nodes c) i;
     case no of
       None \<Rightarrow> timers env c is
     | Some n \<Rightarrow> do {
         (n, out) \<leftarrow> tick (st_ops (backend env)) n (c_now c);
         c \<leftarrow> route env (set_node c i (Some n)) i out;
         timers env c is } }"

section \<open>The invariant checker\<close>

text \<open>Terms, and at most one leader per term.\<close>

definition check_leader :: "('s, 'ch) cluster \<Rightarrow> nodeid \<Rightarrow> 's node \<Rightarrow> ('s, 'ch) outcome" where
  "check_leader c i n =
     (if role n \<noteq> Leader then Some (c, Inr ())
      else
        let prev = (case map_get (leaders_by_term c) (n_term n) of Some p \<Rightarrow> p | None \<Rightarrow> i);
            c = (case map_get (leaders_by_term c) (n_term n) of Some _ \<Rightarrow> c
                 | None \<Rightarrow> c\<lparr>leaders_by_term := map_insert (n_term n) i (leaders_by_term c)\<rparr>)
        in if prev \<noteq> i then Some (c, violation_at c (TwoLeaders prev i (n_term n)))
           else Some (c\<lparr>c_stats := (c_stats c)\<lparr>terms_with_a_leader := as_word (length (leaders_by_term c))\<rparr>\<rparr>, Inr ()))"

definition check_term :: "('s, 'ch) cluster \<Rightarrow> nodeid \<Rightarrow> ('s, 'ch) outcome" where
  "check_term c i = do {
     no \<leftarrow> vec_get (nodes c) i;
     case no of
       None \<Rightarrow> Some (c, Inr ())
     | Some n \<Rightarrow> do {
         m \<leftarrow> vec_get (max_term_seen c) i;
         if n_term n < m then Some (c, violation_at c (TermWentBackwards i m (n_term n)))
         else check_leader (c\<lparr>max_term_seen := (max_term_seen c)[i := n_term n]\<rparr>) i n } }"

text \<open>Every node's committed prefix agrees with the committed log, which only grows.\<close>

fun check_entries :: "('s, 'ch) cluster \<Rightarrow> nodeid \<Rightarrow> nat \<Rightarrow> entry list \<Rightarrow> ('s, 'ch) outcome" where
  "check_entries c i k [] = Some (c, Inr ())"
| "check_entries c i k (e # es) =
     (if k < length (c_committed c) then
        (if c_committed c ! k \<noteq> e then Some (c, violation_at c (DifferentEntry i (k + 1)))
         else check_entries c i (Suc k) es)
      else check_entries (c\<lparr>c_committed := c_committed c @ [e]\<rparr>) i (Suc k) es)"

definition check_commit :: "('s, 'ch) cluster \<Rightarrow> nodeid \<Rightarrow> ('s, 'ch) outcome" where
  "check_commit c i = do {
     no \<leftarrow> vec_get (nodes c) i;
     case no of
       None \<Rightarrow> Some (c, Inr ())
     | Some n \<Rightarrow>
         (let k = unat (commit_index n) in
          if k > length (n_log n) then Some (c, violation_at c (CommitBeyondLog i))
          else go_on (check_entries c i 0 (take k (n_log n))) (\<lambda>c. do {
            m \<leftarrow> vec_get (max_commit_seen c) i;
            Some (c\<lparr>max_commit_seen := (max_commit_seen c)[i := max m (as_word k)]\<rparr>, Inr ()) })) }"

text \<open>The first committed entry of an earlier term that a leader lacks.\<close>

fun lacking :: "'s node \<Rightarrow> nat \<Rightarrow> entry list \<Rightarrow> nat option" where
  "lacking n k [] = None"
| "lacking n k (e # es) =
     (if e_term e \<ge> n_term n then None
      else if (if k < length (n_log n) then Some (n_log n ! k) else None) \<noteq> Some e then Some k
      else lacking n (Suc k) es)"

definition check_complete :: "('s, 'ch) cluster \<Rightarrow> nodeid \<Rightarrow> ('s, 'ch) outcome" where
  "check_complete c i = do {
     no \<leftarrow> vec_get (nodes c) i;
     case no of
       None \<Rightarrow> Some (c, Inr ())
     | Some n \<Rightarrow>
         (if role n \<noteq> Leader then Some (c, Inr ())
          else case lacking n 0 (c_committed c) of
            None \<Rightarrow> Some (c, Inr ())
          | Some k \<Rightarrow> Some (c, violation_at c (LacksCommitted i (n_term n) (k + 1)))) }"

text \<open>The same index and term implies identical prefixes.\<close>

definition check_match :: "('s, 'ch) cluster \<Rightarrow> nodeid \<times> nodeid \<Rightarrow> ('s, 'ch) outcome" where
  "check_match c = (\<lambda>(a, b). do {
     na \<leftarrow> vec_get (nodes c) a;
     nb \<leftarrow> vec_get (nodes c) b;
     case (na, nb) of
       (Some x, Some y) \<Rightarrow>
         (case find (\<lambda>i. e_term (n_log x ! i) = e_term (n_log y ! i))
                 (rev [0..<min (length (n_log x)) (length (n_log y))]) of
            None \<Rightarrow> Some (c, Inr ())
          | Some i \<Rightarrow>
              if take (Suc i) (n_log x) \<noteq> take (Suc i) (n_log y)
              then Some (c, violation_at c (LogsDiffer a b (i + 1)))
              else Some (c, Inr ()))
     | _ \<Rightarrow> Some (c, Inr ()) })"

fun check_each :: "(('s, 'ch) cluster \<Rightarrow> 'x \<Rightarrow> ('s, 'ch) outcome) \<Rightarrow> ('s, 'ch) cluster \<Rightarrow> 'x list \<Rightarrow> ('s, 'ch) outcome" where
  "check_each f c [] = Some (c, Inr ())"
| "check_each f c (x # xs) = go_on (f c x) (\<lambda>c. check_each f c xs)"

definition check_invariants :: "('s, 'ch) cluster \<Rightarrow> ('s, 'ch) outcome" where
  "check_invariants c =
     (let ids = [0..<size_of c] in
      go_on (check_each check_term c ids) (\<lambda>c.
      go_on (check_each check_commit c ids) (\<lambda>c.
      go_on (check_each check_complete c ids) (\<lambda>c.
      check_each check_match c (concat (map (\<lambda>a. map (\<lambda>b. (a, b)) [Suc a..<size_of c]) ids))))))"

section \<open>A step and a run\<close>

definition after_events :: "('s, 'ch, 'e) env \<Rightarrow> ('s, 'ch) cluster \<Rightarrow> ('s, 'ch) outcome" where
  "after_events env c = do {
     c \<leftarrow> inject_partition c;
     c \<leftarrow> inject_propose env (inject_heal c);
     (c, arrivals) \<leftarrow> collect env c (List.product [0..<size_of c] [0..<size_of c]);
     c \<leftarrow> deliver_all env c arrivals;
     c \<leftarrow> timers env c [0..<size_of c];
     check_invariants c }"

definition cl_step :: "('s, 'ch, 'e) env \<Rightarrow> ('s, 'ch) cluster \<Rightarrow> ('s, 'ch) outcome" where
  "cl_step env c = do {
     t \<leftarrow> add64 (c_now c) 1;
     c \<leftarrow> inject_crash (c\<lparr>c_now := t\<rparr>);
     go_on (inject_restart env c) (after_events env) }"

fun cl_run :: "('s, 'ch, 'e) env \<Rightarrow> nat \<Rightarrow> ('s, 'ch) cluster \<Rightarrow> ('s, 'ch) outcome" where
  "cl_run env 0 c = Some (c, Inr ())"
| "cl_run env (Suc ticks) c = go_on (cl_step env c) (cl_run env ticks)"

end
