(* ===== verification/Float64.thy ===== *)
theory Float64
  imports Complex_Main "HOL-Library.Log_Nat" Prelude
begin

text \<open>
  The \<open>f64\<close> arithmetic of the simulator's command line tool.  A finite \<open>f64\<close> is the rational
  number it denotes; a literal, a product or a sum is the exact value rounded to 53 significant
  bits, to nearest with ties to even.  The values there are not negative, and either 0 or
  between \<open>2 ^ - 1022\<close> and \<open>2 ^ 1023\<close>, where no result is subnormal and none overflows, so the
  exponent is left unbounded.
\<close>

section \<open>Rounding\<close>

text \<open>The exponent of the leading bit of a positive number.\<close>

definition leading_from :: "rat \<Rightarrow> int \<Rightarrow> int" where
  "leading_from x d = (if x < 2 powi d then d - 1 else d)"

definition leading :: "rat \<Rightarrow> int" where
  "leading x = leading_from x (bitlen (fst (quotient_of x)) - bitlen (snd (quotient_of x)))"

text \<open>Rounding to an integer, from the integer below.\<close>

definition round_from :: "int \<Rightarrow> rat \<Rightarrow> int" where
  "round_from f y = (if y - of_int f < 1 / 2 \<or> y - of_int f = 1 / 2 \<and> even f then f else f + 1)"

definition round_even :: "rat \<Rightarrow> int" where
  "round_even y = round_from \<lfloor>y\<rfloor> y"

definition round_bit :: "rat \<Rightarrow> int \<Rightarrow> rat" where
  "round_bit x k = of_int (round_even (x * 2 powi (- k))) * 2 powi k"

definition f64 :: "rat \<Rightarrow> rat" where
  "f64 x = (if x \<le> 0 then 0 else round_bit x (leading x - 52))"

section \<open>The leading bit\<close>

lemma leading_bounds:
  assumes "0 < x"
  shows "2 powi leading x \<le> x \<and> x < 2 powi (leading x + 1)"
proof -
  obtain a b where q: "quotient_of x = (a, b)" by (cases "quotient_of x") 
  have b: "0 < b" and x: "x = of_int a / of_int b"
    using quotient_of_denom_pos [OF q] quotient_of_div [OF q] by auto
  then have a: "0 < a" using assms by (simp add: zero_less_divide_iff)
  have pos: "(0::int) < bitlen a" "(0::int) < bitlen b"
    using a b bitlen_nonneg bitlen_eq_zero_iff by (metis leD order_le_less)+
  have pw: "of_int (2 ^ nat k) = (2 powi k :: rat)" if "0 \<le> k" for k :: int
    using that by (simp add: power_int_def)
  have A: "2 powi (bitlen a - 1) \<le> (of_int a :: rat)" "(of_int a :: rat) < 2 powi bitlen a"
    using bitlen_bounds [OF a] pos pw [of "bitlen a - 1"] pw [of "bitlen a"]
    by (metis of_int_le_iff zle_diff1_eq diff_ge_0_iff_ge int_one_le_iff_zero_less, 
        metis of_int_less_iff less_imp_le)
  have B: "2 powi (bitlen b - 1) \<le> (of_int b :: rat)" "(of_int b :: rat) < 2 powi bitlen b"
    using bitlen_bounds [OF b] pos pw [of "bitlen b - 1"] pw [of "bitlen b"]
    by (metis of_int_le_iff zle_diff1_eq diff_ge_0_iff_ge int_one_le_iff_zero_less,
        metis of_int_less_iff less_imp_le)
  let ?d = "bitlen a - bitlen b"
  have "(2 powi (?d - 1) :: rat) = 2 powi (bitlen a - 1) / 2 powi bitlen b"
    by (simp flip: power_int_diff add: algebra_simps)
  also have "\<dots> \<le> of_int a / of_int b" using A B a b by (intro frac_le) auto
  finally have lo: "2 powi (?d - 1) \<le> x" by (simp add: x)
  have "of_int a / of_int b < (2 powi bitlen a :: rat) / 2 powi (bitlen b - 1)"
    using A B a by (intro frac_less) (auto simp: less_imp_le)
  also have "\<dots> = 2 powi (?d + 1)" by (simp flip: power_int_diff add: algebra_simps)
  finally have "x < 2 powi (?d + 1)" by (simp add: x)
  then show ?thesis using lo by (simp add: leading_def leading_from_def q not_less)
qed

lemma less_two_powi:
  assumes "(2::rat) powi a < 2 powi b"
  shows "a < b"
proof (rule ccontr)
  assume "\<not> a < b"
  then have "(2::rat) powi b \<le> 2 powi a" by (intro power_int_increasing) auto
  then show False using assms by simp
qed

lemma leading_unique:
  assumes "2 powi k \<le> x" and "x < 2 powi (k + 1)"
  shows "leading x = k"
proof -
  have "0 < x" using assms(1) by (rule less_le_trans [rotated]) simp
  note L = leading_bounds [OF this]
  have "(2::rat) powi leading x < 2 powi (k + 1)" "(2::rat) powi k < 2 powi (leading x + 1)"
    using L assms by (auto intro: le_less_trans)
  then show ?thesis by (metis less_two_powi zle_add1_eq_le order_antisym)
qed

lemma leading_mono:
  assumes "0 < x" and "x \<le> y"
  shows "leading x \<le> leading y"
proof -
  have "(2::rat) powi leading x < 2 powi (leading y + 1)"
    using leading_bounds [of x] leading_bounds [of y] assms by linarith
  then show ?thesis by (metis less_two_powi zle_add1_eq_le)
qed

section \<open>Rounding is monotone and exact on representable numbers\<close>

lemma round_even_of_int [simp]: "round_even (of_int n) = n"
  by (simp add: round_even_def round_from_def)

lemma round_even_near: "round_even y \<in> {\<lfloor>y\<rfloor>, \<lfloor>y\<rfloor> + 1}"
  by (simp add: round_even_def round_from_def)

lemma round_even_mono:
  assumes "x \<le> y"
  shows "round_even x \<le> round_even y"
proof (cases "\<lfloor>x\<rfloor> = \<lfloor>y\<rfloor>")
  case True
  then show ?thesis using assms by (auto simp: round_even_def round_from_def)
next
  case False
  then have "\<lfloor>x\<rfloor> + 1 \<le> \<lfloor>y\<rfloor>" using floor_mono [OF assms] by linarith
  then show ?thesis using round_even_near [of x] round_even_near [of y] by auto
qed

lemma shift_powi: "of_int (2 ^ n) * (2::rat) powi k = 2 powi (int n + k)"
  by (simp add: power_int_add)

definition fits53 :: "rat \<Rightarrow> bool" where
  "fits53 x \<longleftrightarrow> (\<exists>m k. 0 \<le> m \<and> m < 2 ^ 53 \<and> x = of_int m * 2 powi k)"

lemma fits53I: "0 \<le> m \<Longrightarrow> m < 2 ^ 53 \<Longrightarrow> fits53 (of_int m * 2 powi k)"
  by (auto simp: fits53_def)

lemma f64_cases [consumes 1]:
  assumes "0 < x"
  obtains m where "2 ^ 52 \<le> m" and "m \<le> 2 ^ 53" and "f64 x = of_int m * 2 powi (leading x - 52)"
    and "m = round_even (x * 2 powi (52 - leading x))"
proof -
  let ?y = "x * 2 powi (52 - leading x)"
  have s: "2 powi l * 2 powi (52 - leading x) = (2 powi (l + (52 - leading x)) :: rat)" for l
    by (simp add: power_int_add)
  note L = leading_bounds [OF assms]
  have "2 powi leading x * 2 powi (52 - leading x) \<le> ?y" "?y \<le> 2 powi (leading x + 1) * 2 powi (52 - leading x)"
    using L by (auto intro!: mult_right_mono)
  then have "of_int (2 ^ 52) \<le> ?y" "?y \<le> of_int (2 ^ 53)" unfolding s by (auto simp: power_int_def)
  from round_even_mono [OF this(1)] round_even_mono [OF this(2)]
  have "2 ^ 52 \<le> round_even ?y" "round_even ?y \<le> 2 ^ 53" by (simp_all only: round_even_of_int)
  moreover have "f64 x = of_int (round_even ?y) * 2 powi (leading x - 52)"
    using assms by (simp add: f64_def round_bit_def)
  ultimately show ?thesis using that by blast
qed

lemma f64_nonneg [simp]: "0 \<le> f64 x"
  by (cases "0 < x") (auto elim!: f64_cases, simp add: f64_def)

lemma f64_fits: "fits53 (f64 x)"
proof (cases "0 < x")
  case True
  then show ?thesis
  proof (cases rule: f64_cases)
    case (1 m)
    show ?thesis
    proof (cases "m = 2 ^ 53")
      case True
      then have "f64 x = of_int 1 * 2 powi (53 + (leading x - 52))"
        using 1 shift_powi [of 53 "leading x - 52"] by simp
      then show ?thesis using fits53I [of 1] by simp
    next
      case False
      then show ?thesis using 1 by (simp add: fits53I)
    qed
  qed
next
  case False
  then show ?thesis using fits53I [of 0] by (simp add: f64_def)
qed

lemma f64_exact:
  assumes "fits53 x"
  shows "f64 x = x"
proof (cases "0 < x")
  case True
  obtain m k where m: "0 \<le> m" "m < 2 ^ 53" and x: "x = of_int m * 2 powi k"
    using assms by (auto simp: fits53_def)
  have "(2::rat) powi leading x \<le> of_int m * 2 powi k" using leading_bounds [OF True] x by simp
  also have "\<dots> < of_int (2 ^ 53) * 2 powi k" using m by (intro mult_strict_right_mono) (simp_all only: of_int_less_iff, simp)
  also have "\<dots> = 2 powi (53 + k)" using shift_powi [of 53 k] by simp
  finally have "leading x < 53 + k" by (rule less_two_powi)
  then have "x * 2 powi (52 - leading x) = of_int (m * 2 ^ nat (k + (52 - leading x)))"
    by (simp add: x mult.assoc flip: power_int_add) (simp add: power_int_def)
  then have "round_even (x * 2 powi (52 - leading x)) = m * 2 ^ nat (k + (52 - leading x))"
    by (metis round_even_of_int)
  then have "f64 x = x * 2 powi (52 - leading x) * 2 powi (leading x - 52)"
    using True \<open>x * _ = _\<close> by (simp add: f64_def round_bit_def)
  then show ?thesis by (simp add: mult.assoc flip: power_int_add)
next
  case False
  then show ?thesis using assms by (auto simp: f64_def fits53_def zero_less_mult_iff not_less intro: antisym)
qed

lemma f64_mono:
  assumes "x \<le> y"
  shows "f64 x \<le> f64 y"
proof (cases "0 < x")
  case True
  then have y: "0 < y" using assms by simp
  obtain m where m: "m \<le> 2 ^ 53" "f64 x = of_int m * 2 powi (leading x - 52)"
    "m = round_even (x * 2 powi (52 - leading x))" using True by (rule f64_cases)
  obtain n where n: "2 ^ 52 \<le> n" "f64 y = of_int n * 2 powi (leading y - 52)"
    "n = round_even (y * 2 powi (52 - leading y))" using y by (rule f64_cases)
  show ?thesis
  proof (cases "leading x = leading y")
    case True
    then have "m \<le> n" using m(3) n(3) assms by (auto intro!: round_even_mono mult_right_mono)
    then show ?thesis using m(2) n(2) True by (auto intro!: mult_right_mono)
  next
    case False
    then have l: "leading x + 1 \<le> leading y" using leading_mono [OF True assms] by linarith
    have "f64 x \<le> of_int (2 ^ 53) * 2 powi (leading x - 52)"
      unfolding m(2) using m(1) by (intro mult_right_mono) (simp_all only: of_int_le_iff, simp)
    also have "\<dots> = 2 powi (53 + (leading x - 52))" using shift_powi [of 53 "leading x - 52"] by simp
    also have "\<dots> \<le> 2 powi (52 + (leading y - 52))" using l by (intro power_int_increasing) auto
    also have "\<dots> = of_int (2 ^ 52) * 2 powi (leading y - 52)" using shift_powi [of 52 "leading y - 52"] by simp
    also have "\<dots> \<le> f64 y"
      unfolding n(2) using n(1) by (intro mult_right_mono) (simp_all only: of_int_le_iff, simp)
    finally show ?thesis .
  qed
next
  case False
  then show ?thesis using f64_nonneg [of y] by (simp add: f64_def [of x])
qed

lemma f64_le: "x \<le> f64 b \<Longrightarrow> f64 x \<le> f64 b"
  using f64_mono [of x "f64 b"] by (simp add: f64_exact f64_fits)

lemma f64_ge: "f64 b \<le> x \<Longrightarrow> f64 b \<le> f64 x"
  using f64_mono [of "f64 b" x] by (simp add: f64_exact f64_fits)

section \<open>Evaluation\<close>

text \<open>Rounding a quotient of integers with integer division.\<close>

definition nearest :: "int \<Rightarrow> int \<Rightarrow> int \<Rightarrow> int" where
  "nearest q r den = (if 2 * r < den \<or> 2 * r = den \<and> even q then q else q + 1)"

definition nearest_quotient :: "int \<Rightarrow> int \<Rightarrow> int" where
  "nearest_quotient num den = nearest (num div den) (num mod den) den"

lemma round_even_quotient:
  assumes "0 < den"
  shows "round_even (of_int num / of_int den) = nearest_quotient num den"
proof -
  have f: "\<lfloor>of_int num / of_int den :: rat\<rfloor> = num div den" by (rule floor_divide_of_int_eq)
  have "(of_int num :: rat) = of_int (num div den * den + num mod den)" by simp
  then have r: "of_int num / of_int den - of_int (num div den) = (of_int (num mod den) / of_int den :: rat)"
    using assms by (simp only: of_int_add of_int_mult) (simp add: field_simps)
  have "of_int (num mod den) / of_int den < (1 / 2 :: rat) \<longleftrightarrow> of_int (2 * (num mod den)) < (of_int den :: rat)"
    "of_int (num mod den) / of_int den = (1 / 2 :: rat) \<longleftrightarrow> of_int (2 * (num mod den)) = (of_int den :: rat)"
    using assms by (auto simp: field_simps)
  then show ?thesis
    unfolding round_even_def round_from_def f r nearest_quotient_def nearest_def
    by (simp only: of_int_less_iff of_int_eq_iff)
qed

definition round_quotient :: "int \<Rightarrow> int \<Rightarrow> int \<Rightarrow> rat" where
  "round_quotient a b k =
     (if 0 \<le> k then of_int (nearest_quotient a (b * 2 ^ nat k)) * 2 ^ nat k
      else of_int (nearest_quotient (a * 2 ^ nat (- k)) b) / 2 ^ nat (- k))"

definition leading_quotient :: "int \<Rightarrow> int \<Rightarrow> int \<Rightarrow> int" where
  "leading_quotient a b d =
     (if (if 0 \<le> d then a < b * 2 ^ nat d else a * 2 ^ nat (- d) < b) then d - 1 else d)"

fun f64_quotient :: "int \<times> int \<Rightarrow> rat" where
  "f64_quotient (a, b) = (if a \<le> 0 then 0
     else round_quotient a b (leading_quotient a b (bitlen a - bitlen b) - 52))"

lemma round_quotient_eq:
  assumes "0 < b"
  shows "round_bit (of_int a / of_int b) k = round_quotient a b k"
proof (cases "0 \<le> k")
  case True
  then have "of_int a / of_int b * 2 powi (- k) = (of_int a / of_int (b * 2 ^ nat k) :: rat)"
    by (simp add: power_int_minus power_int_def field_simps)
  moreover have "0 < b * 2 ^ nat k" using assms by simp
  ultimately show ?thesis
    using True unfolding round_bit_def round_quotient_def by (simp only: round_even_quotient) (simp add: power_int_def)
next
  case False
  then have "of_int a / of_int b * 2 powi (- k) = (of_int (a * 2 ^ nat (- k)) / of_int b :: rat)"
    by (simp add: power_int_def)
  then show ?thesis
    using False assms unfolding round_bit_def round_quotient_def
    by (simp only: round_even_quotient) (simp add: power_int_def field_simps)
qed

lemma leading_quotient_eq:
  assumes "0 < b"
  shows "leading_from (of_int a / of_int b) d = leading_quotient a b d"
proof -
  have b: "(0::rat) < of_int b" using assms by simp
  have "of_int a / of_int b < (2 powi d :: rat) \<longleftrightarrow> of_int a < (2 powi d * of_int b :: rat)"
    using b by (simp add: pos_divide_less_eq)
  also have "\<dots> \<longleftrightarrow> (if 0 \<le> d then a < b * 2 ^ nat d else a * 2 ^ nat (- d) < b)"
  proof (cases "0 \<le> d")
    case True
    then have "2 powi d * of_int b = (of_int (b * 2 ^ nat d) :: rat)" by (simp add: power_int_def)
    then show ?thesis using True by (simp only: of_int_less_iff if_True)
  next
    case False
    have "of_int a < (2 powi d * of_int b :: rat) \<longleftrightarrow> of_int (a * 2 ^ nat (- d)) < (of_int b :: rat)"
      using False by (simp add: power_int_def field_simps)
    then show ?thesis using False by (simp only: of_int_less_iff if_False)
  qed
  finally show ?thesis by (simp add: leading_from_def leading_quotient_def)
qed

lemma f64_code [code]: "f64 x = f64_quotient (quotient_of x)"
proof -
  obtain a b where q: "quotient_of x = (a, b)" by (cases "quotient_of x")
  have b: "0 < b" and x: "x = of_int a / of_int b"
    using quotient_of_denom_pos [OF q] quotient_of_div [OF q] by auto
  have "x \<le> 0 \<longleftrightarrow> a \<le> 0" using b by (simp add: x divide_le_0_iff)
  moreover have "leading x = leading_quotient a b (bitlen a - bitlen b)"
    using leading_quotient_eq [OF b, of a] by (simp add: leading_def q) (simp add: x)
  ultimately show ?thesis
    using round_quotient_eq [OF b, of a] by (simp add: f64_def q) (simp add: x)
qed

end
