(* ===== verification/Chaos.thy ===== *)
theory Chaos
  imports Cluster Float64
begin

text \<open>
  The command line tool \<open>landsraad-chaos\<close>, \<open>crates/sim/src/bin/landsraad-chaos.rs\<close>: many
  randomized runs of the simulated cluster, each derived from its seed, with every violation
  reported by the command that reproduces it.

  Strings are their UTF-8 bytes.  What the tool prints is a list of constructors with the values
  the code formats into the line.  \<^const>\<open>None\<close> is a panic, and in \<open>measure\<close> also a wait for a
  leader that never ends.
\<close>

definition ascii :: "string \<Rightarrow> bytes" where
  "ascii s = map of_char s"

section \<open>The configuration of a run\<close>

text \<open>\<open>let f = |r, max| (r.next_u64() >> 11) as f64 / (1u64 << 53) as f64 * max\<close>\<close>

definition fraction_of :: "rat \<Rightarrow> rng \<Rightarrow> rng \<times> rat" where
  "fraction_of mx r = (let (r, x) = next_u64 r in (r, f64 (of_int (uint (drop_bit 11 x)) / 2 ^ 53 * mx)))"

definition fraction_from :: "rat \<Rightarrow> rng \<times> u64 \<Rightarrow> rng \<times> rat" where
  "fraction_from mx q = (fst q, f64 (of_int (uint (drop_bit 11 (snd q))) / 2 ^ 53 * mx))"

lemma fraction_of_code [code]: "fraction_of mx r = fraction_from mx (next_u64 r)"
  by (simp add: fraction_of_def fraction_from_def case_prod_beta Let_def)

definition config_for :: "fault_profile \<Rightarrow> u64 \<Rightarrow> bool \<Rightarrow> cluster_config option" where
  "config_for clean seed churn = do {
     let r = rng_new (xor seed 0x123456789ABCDEF0);
     let (r, five) = chance (f64 (4 / 10)) r;
     let cfg = cluster_config_new clean (if five then 5 else 3) seed;
     let (r, loss) = fraction_of (f64 (3 / 10)) r;
     let (r, duplication) = fraction_of (f64 (2 / 10)) r;
     (r, delay) \<leftarrow> below 30 r;
     let (r, corruption) = fraction_of (f64 (1 / 10)) r;
     let (r, truncation) = fraction_of (f64 (1 / 10)) r;
     (r, base) \<leftarrow> below 3 r;
     base_delay \<leftarrow> add64 1 (as_word base);
     let cfg = cfg\<lparr>cc_profile := \<lparr>fp_loss = loss, fp_duplication = duplication,
       fp_reorder_max_delay = as_word delay, fp_corruption = corruption, fp_truncation = truncation,
       fp_base_delay = base_delay\<rparr>\<rparr>;
     let scale = (if churn then 2 else 1);
     let (r, x1) = fraction_of (f64 (1 / 100)) r;
     let (r, x2) = fraction_of (f64 (5 / 100)) r;
     let (r, x3) = fraction_of (f64 (1 / 100)) r;
     let (r, x4) = fraction_of (f64 (5 / 100)) r;
     let (r, x5) = fraction_of (f64 (3 / 1000)) r;
     let (r, x6) = fraction_of (f64 (15 / 100)) r;
     let cfg = cfg\<lparr>cc_faults := \<lparr>f_crash = f64 (x1 * scale), f_restart = f64 (f64 (2 / 100) + x2),
       f_partition = f64 (x3 * scale), f_heal = f64 (f64 (2 / 100) + x4),
       f_crash_after_event = f64 (x5 * scale), f_propose = f64 (f64 (5 / 100) + x6)\<rparr>\<rparr>;
     Some (if churn then cfg\<lparr>cc_election_timeout := (20, 45), cc_heartbeat_interval := 6\<rparr> else cfg) }"

section \<open>Summaries\<close>

record summary =
  s_min :: u64
  s_median :: u64
  s_p99 :: u64
  s_max :: u64
  s_count :: nat

text \<open>The value at the quantile \<open>q\<close> of a sorted sample, \<open>v[((v.len() - 1) as f64 * q) as usize]\<close>.\<close>

definition quantile :: "u64 list \<Rightarrow> rat \<Rightarrow> u64 option" where
  "quantile v q = do {
     k \<leftarrow> (if length v = 0 then None else Some (length v - 1));
     vec_get v (nat \<lfloor>f64 (f64 (of_nat k) * f64 q)\<rfloor>) }"

definition summarize :: "u64 list \<Rightarrow> summary option" where
  "summarize v = do {
     let v = sort v;
     a \<leftarrow> vec_get v 0;
     b \<leftarrow> quantile v (1 / 2);
     c \<leftarrow> quantile v (99 / 100);
     k \<leftarrow> (if length v = 0 then None else Some (length v - 1));
     d \<leftarrow> vec_get v k;
     Some \<lparr>s_min = a, s_median = b, s_p99 = c, s_max = d, s_count = length v\<rparr> }"

section \<open>Measurements\<close>

text \<open>\<open>unwrap\<close> of a step: a violation panics.\<close>

definition unwrap_step :: "('s, 'ch, 'e) env \<Rightarrow> ('s, 'ch) cluster \<Rightarrow> ('s, 'ch) cluster option" where
  "unwrap_step env c = do { (c, r) \<leftarrow> cl_step env c; case r of Inl _ \<Rightarrow> None | Inr _ \<Rightarrow> Some c }"

text \<open>\<open>while c.leader().is_none()\<close>\<close>

partial_function (option) await_leader :: "('s, 'ch, 'e) env \<Rightarrow> ('s, 'ch) cluster \<Rightarrow> ('s, 'ch) cluster option" where
  "await_leader env c =
     (if leader c \<noteq> None then Some c else do { c \<leftarrow> unwrap_step env c; await_leader env c })"

declare await_leader.simps [code]

text \<open>\<open>c.node(l).is_some_and(|x| x.commit_index() < idx)\<close>\<close>

definition uncommitted :: "('s, 'ch) cluster \<Rightarrow> nodeid \<Rightarrow> u64 \<Rightarrow> bool option" where
  "uncommitted c l idx = do {
     no \<leftarrow> vec_get (nodes c) l;
     Some (case no of None \<Rightarrow> False | Some n \<Rightarrow> commit_index n < idx) }"

text \<open>The wait for a commit gives up when \<open>waited\<close> reaches 3000.\<close>

function await_commit :: "('s, 'ch, 'e) env \<Rightarrow> nodeid \<Rightarrow> u64 \<Rightarrow> nat \<Rightarrow> ('s, 'ch) cluster \<Rightarrow> ('s, 'ch) cluster option" where
  "await_commit env l idx waited c = do {
     b \<leftarrow> uncommitted c l idx;
     if b \<and> waited < 3000 then do {
       c \<leftarrow> unwrap_step env c;
       await_commit env l idx (waited + 1) c }
     else Some c }"
  by pat_completeness auto
termination by (relation "measure (\<lambda>(_, _, _, waited, _). 3000 - waited)") auto

declare await_commit.simps [simp del]

text \<open>The proposals of one run, with the time each takes to commit.\<close>

fun measure_commits :: "('s, 'ch, 'e) env \<Rightarrow> ('s, 'ch) cluster \<Rightarrow> nat list \<Rightarrow> u64 list option" where
  "measure_commits env c [] = Some []"
| "measure_commits env c (k # ks) = do {
     (c, r) \<leftarrow> cl_propose env c (ascii ''m'' @ decimal k);
     case r of
       Inl _ \<Rightarrow> Some []
     | Inr (l, idx) \<Rightarrow> do {
         let t0 = c_now c;
         c \<leftarrow> await_commit env l idx 0 c;
         d \<leftarrow> sub64 (c_now c) t0;
         ds \<leftarrow> measure_commits env c ks;
         Some (d # ds) } }"

definition measure_run :: "('s, 'ch, 'e) env \<Rightarrow> fault_profile \<Rightarrow> nat \<Rightarrow> u64 \<Rightarrow> (u64 \<times> u64 list) option" where
  "measure_run env profile n seed = do {
     let cfg = (cluster_config_new (ch_clean (channels env)) n seed)\<lparr>cc_profile := profile\<rparr>;
     c \<leftarrow> cluster_new env cfg;
     c \<leftarrow> await_leader env c;
     commits \<leftarrow> measure_commits env c [0..<10];
     Some (c_now c, commits) }"

definition lossy_profile :: fault_profile where
  "lossy_profile = \<lparr>fp_loss = f64 (10 / 100), fp_duplication = f64 (5 / 100), fp_reorder_max_delay = 10,
     fp_corruption = 0, fp_truncation = 0, fp_base_delay = 1\<rparr>"

section \<open>Output\<close>

datatype line =
    Violation_line u64 bool violation "bytes list"
  | Totals_line u64 u64 bool u64 nat u64 u64 u64 u64 u64 u64
  | Needs_number bytes
  | Unknown_argument bytes
  | Measurement string nat summary summary

definition measure_table :: "('s, 'ch, 'e) env \<Rightarrow> line list option" where
  "measure_table env = map_opt (\<lambda>((name, profile), n). do {
       rs \<leftarrow> map_opt (\<lambda>seed. measure_run env profile n (as_word seed)) [0..<200];
       e \<leftarrow> summarize (map fst rs);
       d \<leftarrow> summarize (concat (map snd rs));
       Some (Measurement name n e d) })
     (List.product [(''clean network'', ch_clean (channels env)), (''10% loss, 5% dup, reorder<=10'', lossy_profile)] [3, 5])"

section \<open>The command line\<close>

text \<open>
  \<open>parse::<u64>\<close> of the standard library: an optional plus sign, then at least one decimal
  digit, and a value that fits.
\<close>

fun parse_digits :: "u64 \<Rightarrow> bytes \<Rightarrow> u64 option" where
  "parse_digits acc [] = Some acc"
| "parse_digits acc (d # ds) =
     (if 48 \<le> d \<and> d \<le> 57 \<and> uint acc * 10 + (uint d - 48) < 2 ^ 64
      then parse_digits (acc * 10 + as_word (unat d - 48)) ds else None)"

definition parse_u64 :: "bytes \<Rightarrow> u64 option" where
  "parse_u64 s =
     (let ds = (case s of d # ds \<Rightarrow> if d = 43 then ds else s | [] \<Rightarrow> s)
      in if ds = [] then None else parse_digits 0 ds)"

record options =
  o_runs :: u64
  o_ticks :: u64
  o_start :: u64
  o_churn :: bool
  o_measure :: bool

definition default_options :: options where
  "default_options = \<lparr>o_runs = 200, o_ticks = 4000, o_start = 0, o_churn = False, o_measure = False\<rparr>"

text \<open>The closure \<open>num\<close>: the next argument as a number, with the arguments after it.\<close>

definition num :: "bytes list \<Rightarrow> (u64 \<times> bytes list) option" where
  "num as = (case as of [] \<Rightarrow> None | v # as \<Rightarrow> map_option (\<lambda>k. (k, as)) (parse_u64 v))"

lemma num_length [termination_simp]: "num as = Some (k, as') \<Longrightarrow> length as' < length as"
  by (auto simp: num_def split: list.splits)

function parse_args :: "options \<Rightarrow> bytes list \<Rightarrow> line + options" where
  "parse_args opts [] = Inr opts"
| "parse_args opts (a # as) =
     (if a = ascii ''--runs'' then
        (case num as of None \<Rightarrow> Inl (Needs_number a) | Some (k, as) \<Rightarrow> parse_args (opts\<lparr>o_runs := k\<rparr>) as)
      else if a = ascii ''--ticks'' then
        (case num as of None \<Rightarrow> Inl (Needs_number a) | Some (k, as) \<Rightarrow> parse_args (opts\<lparr>o_ticks := k\<rparr>) as)
      else if a = ascii ''--seed'' then
        (case num as of None \<Rightarrow> Inl (Needs_number a) | Some (k, as) \<Rightarrow> parse_args (opts\<lparr>o_start := k\<rparr>) as)
      else if a = ascii ''--churn'' then parse_args (opts\<lparr>o_churn := True\<rparr>) as
      else if a = ascii ''--measure'' then parse_args (opts\<lparr>o_measure := True\<rparr>) as
      else Inl (Unknown_argument a))"
  by pat_completeness auto
termination by (relation "measure (\<lambda>(_, as). length as)") (auto dest: num_length)

text \<open>The arguments the tool prints to reproduce a violation.\<close>

definition reproduce :: "u64 \<Rightarrow> u64 \<Rightarrow> bool \<Rightarrow> bytes list" where
  "reproduce seed ticks churn =
     [ascii ''--seed'', decimal (unat seed), ascii ''--runs'', ascii ''1'', ascii ''--ticks'', decimal (unat ticks)]
     @ (if churn then [ascii ''--churn''] else [])"

section \<open>The runs\<close>

record totals =
  t_violations :: u64
  t_commits :: nat
  t_terms :: u64
  t_crashes :: u64
  t_faults :: fault_stats

definition chaos_run :: "('s, 'ch, 'e) env \<Rightarrow> u64 \<Rightarrow> bool \<Rightarrow> u64 \<Rightarrow> ('s, 'ch) outcome" where
  "chaos_run env ticks churn seed = do {
     cfg \<leftarrow> config_for (ch_clean (channels env)) seed churn;
     c \<leftarrow> cluster_new env cfg;
     cl_run env (unat ticks) c }"

text \<open>A run without a violation is added to the totals.\<close>

definition add_run :: "('s, 'ch, 'e) env \<Rightarrow> ('s, 'ch) cluster \<Rightarrow> totals \<Rightarrow> totals option" where
  "add_run env c t = do {
     commits \<leftarrow> addsz (t_commits t) (length (c_committed c));
     terms \<leftarrow> add64 (t_terms t) (terms_with_a_leader (c_stats c));
     cr \<leftarrow> add64 (t_crashes t) (crashes (c_stats c));
     s \<leftarrow> channel_stats env c;
     a \<leftarrow> add64 (fs_sent (t_faults t)) (fs_sent s);
     b \<leftarrow> add64 (fs_dropped (t_faults t)) (fs_dropped s);
     d \<leftarrow> add64 (fs_duplicated (t_faults t)) (fs_duplicated s);
     e \<leftarrow> add64 (fs_corrupted (t_faults t)) (fs_corrupted s);
     Some (t\<lparr>t_commits := commits, t_terms := terms, t_crashes := cr,
       t_faults := (t_faults t)\<lparr>fs_sent := a, fs_dropped := b, fs_duplicated := d, fs_corrupted := e\<rparr>\<rparr>) }"

fun chaos_runs :: "('s, 'ch, 'e) env \<Rightarrow> u64 \<Rightarrow> bool \<Rightarrow> totals \<Rightarrow> u64 list \<Rightarrow> (totals \<times> line list) option" where
  "chaos_runs env ticks churn t [] = Some (t, [])"
| "chaos_runs env ticks churn t (seed # seeds) = do {
     (c, r) \<leftarrow> chaos_run env ticks churn seed;
     case r of
       Inr _ \<Rightarrow> do { t \<leftarrow> add_run env c t; chaos_runs env ticks churn t seeds }
     | Inl v \<Rightarrow> do {
         k \<leftarrow> add64 (t_violations t) 1;
         (t, ls) \<leftarrow> chaos_runs env ticks churn (t\<lparr>t_violations := k\<rparr>) seeds;
         Some (t, Violation_line seed churn v (reproduce seed ticks churn) # ls) } }"

definition seed_range :: "u64 \<Rightarrow> u64 \<Rightarrow> u64 list option" where
  "seed_range start runs = do { stop \<leftarrow> add64 start runs; Some (map as_word [unat start..<unat stop]) }"

text \<open>The tool: the lines it prints and its exit code.\<close>

definition chaos_main :: "('s, 'ch, 'e) env \<Rightarrow> bytes list \<Rightarrow> (line list \<times> nat) option" where
  "chaos_main env args =
     (case parse_args default_options args of
        Inl complaint \<Rightarrow> Some ([complaint], 2)
      | Inr opts \<Rightarrow>
          if o_measure opts then do { ls \<leftarrow> measure_table env; Some (ls, 0) }
          else do {
            seeds \<leftarrow> seed_range (o_start opts) (o_runs opts);
            (t, ls) \<leftarrow> chaos_runs env (o_ticks opts) (o_churn opts)
              \<lparr>t_violations = 0, t_commits = 0, t_terms = 0, t_crashes = 0, t_faults = ch_no_stats (channels env)\<rparr> seeds;
            Some (ls @ [Totals_line (o_runs opts) (o_ticks opts) (o_churn opts) (t_violations t) (t_commits t)
                (t_terms t) (t_crashes t) (fs_sent (t_faults t)) (fs_dropped (t_faults t))
                (fs_duplicated (t_faults t)) (fs_corrupted (t_faults t))],
              if t_violations t = 0 then 0 else 1) })"

end
