(* ===== verification/Node_Sizes.thy ===== *)
theory Node_Sizes
  imports Node_Lemmas
begin

text \<open>
  Sizes and targets of the messages a node sends.  As long as client commands fit the codec's
  32-bit length fields, every message of every operation does, so encoding loses nothing; and
  every message is for a node of the cluster.
\<close>

definition small :: "entry \<Rightarrow> bool" where
  "small e \<longleftrightarrow> length (command e) < 2 ^ 32"

definition fits :: "'s node \<Rightarrow> bool" where
  "fits n \<longleftrightarrow> max_batch (cfg n) < 2 ^ 32 \<and> (\<forall>e \<in> set (n_log n). small e)"

text \<open>The result of an operation: the same configuration, a fitting log, fitting messages.\<close>

definition stays_fit :: "'s node \<Rightarrow> 's node \<Rightarrow> outgoing list \<Rightarrow> bool" where
  "stays_fit n n' out \<longleftrightarrow> fits n' \<and> cfg n' = cfg n \<and> (\<forall>o1 \<in> set out. sizes_fit (message o1) \<and> to o1 < cluster_size (cfg n))"

lemma stays_fitI: "fits n' \<Longrightarrow> cfg n' = cfg n \<Longrightarrow> (\<And>o1. o1 \<in> set out \<Longrightarrow> sizes_fit (message o1) \<and> to o1 < cluster_size (cfg n)) \<Longrightarrow> stays_fit n n' out"
  by (simp add: stays_fit_def)

lemma stays_fit_refl: "fits n \<Longrightarrow> stays_fit n n []"
  by (simp add: stays_fit_def)

lemma stays_fit_cfg: "stays_fit n1 n' out \<Longrightarrow> cfg n1 = cfg n \<Longrightarrow> stays_fit n n' out"
  by (simp add: stays_fit_def)

lemma stays_fit_reply:
  assumes "fits n'" and "cfg n' = cfg n" and "sizes_fit m" and "p < cluster_size (cfg n)"
  shows "stays_fit n n' (reply p m)"
  using assms by (simp add: stays_fit_def reply_def)

lemma reset_fits: "reset_election_timer n now = Some n' \<Longrightarrow> fits n' = fits n \<and> cfg n' = cfg n"
  by (auto simp: fits_def dest!: reset_election_timer_SomeD)

lemma persist_fits: "persist_hard_state st n = Some n' \<Longrightarrow> fits n' = fits n \<and> cfg n' = cfg n"
  by (auto simp: fits_def persist_hard_state_def bind_eq_Some_conv)

lemma log_append_fits:
  "log_append st n es = Some n' \<Longrightarrow> fits n \<Longrightarrow> \<forall>e \<in> set es. small e \<Longrightarrow> fits n' \<and> cfg n' = cfg n"
  by (auto simp: fits_def dest!: log_append_SomeD)

lemma advance_commit_fits: "advance_commit n = Some n' \<Longrightarrow> fits n' = fits n \<and> cfg n' = cfg n"
  by (auto simp: advance_commit_def fits_def bind_eq_Some_conv dest!: commit_loop_SomeD)

lemma append_for_fits:
  assumes "append_for n p = Some o1" and "fits n"
  shows "sizes_fit (message o1)" and "to o1 = p"
proof -
  obtain a b t es where es: "vec_slice (n_log n) a b = Some es" "b \<le> a + max_batch (cfg n)"
    and o1: "o1 = \<lparr>to = p, message = AppendEntries (n_term n) t (the (term_at n t)) es (commit_index n)\<rparr>"
    using assms(1) by (auto simp: append_for_def bind_eq_Some_conv Let_def dest!: addsz_SomeD)
  note S = vec_slice_SomeD [OF es(1)]
  have "length es \<le> max_batch (cfg n)" using S es(2) by simp
  moreover have "\<forall>e \<in> set es. small e"
    using S assms(2) unfolding fits_def by (blast dest: in_set_takeD in_set_dropD)
  ultimately show "sizes_fit (message o1)" using assms(2) unfolding o1 by (simp add: fits_def small_def)
  show "to o1 = p" unfolding o1 by simp
qed

lemma broadcast_fits: "broadcast_append n = Some out \<Longrightarrow> fits n \<Longrightarrow> stays_fit n n out"
  by (rule stays_fitI) (auto simp: set_peers dest: append_for_fits dest!: broadcast_append_SomeD)

lemma become_leader_fits:
  assumes "become_leader st n now = Some (n', out)" and "fits n"
  shows "stays_fit n n' out"
proof -
  obtain nx n1 n2 hb where
      n1: "log_append st (n\<lparr>role := Leader, leader_id := Some (cfg_id (cfg n)),
        next_index := replicate (cluster_size (cfg n)) nx,
        match_index := replicate (cluster_size (cfg n)) 0\<rparr>) [\<lparr>e_term = n_term n, command = []\<rparr>] = Some n1"
    and n2: "advance_commit n1 = Some n2" and n': "n' = n2\<lparr>heartbeat_deadline := hb\<rparr>"
    and out: "broadcast_append n' = Some out"
    using assms(1) unfolding become_leader_def Let_def by (auto simp: bind_eq_Some_conv)
  have "fits n1 \<and> cfg n1 = cfg n"
    using log_append_fits [OF n1] assms(2) by (simp add: fits_def small_def)
  then have "fits n2 \<and> cfg n2 = cfg n" using advance_commit_fits [OF n2] by simp
  then have "fits n'" "cfg n' = cfg n" unfolding n' by (auto simp: fits_def)
  then show ?thesis using broadcast_fits [OF out] by (auto simp: stays_fit_def)
qed

lemma start_election_fits:
  assumes "start_election st n now = Some (n', out)" and "fits n"
  shows "stays_fit n n' out"
proof -
  obtain t n1 vs n2 where
      n1: "persist_hard_state st (n\<lparr>n_term := t, voted_for := Some (cfg_id (cfg n))\<rparr>) = Some n1"
    and n2: "reset_election_timer (n1\<lparr>role := Candidate, leader_id := None, votes := vs\<rparr>) now = Some n2"
    and rest: "(if vote_count n2 \<ge> quorum n2 then become_leader st n2 now
      else do { lt \<leftarrow> last_term n2;
        Some (n2, map (\<lambda>p. \<lparr>to = p, message = RequestVote (n_term n2) (last_index n2) lt\<rparr>) (peers n2)) }) = Some (n', out)"
    using assms(1) unfolding start_election_def Let_def by (auto simp: bind_eq_Some_conv)
  have "fits n1 \<and> cfg n1 = cfg n" using persist_fits [OF n1] assms(2) by (simp add: fits_def)
  then have "fits (n1\<lparr>role := Candidate, leader_id := None, votes := vs\<rparr>)" "cfg n1 = cfg n" by (auto simp: fits_def)
  then have f: "fits n2" "cfg n2 = cfg n" using reset_fits [OF n2] by simp_all
  show ?thesis
  proof (cases "vote_count n2 \<ge> quorum n2")
    case True
    then have "become_leader st n2 now = Some (n', out)" using rest by simp
    then show ?thesis using become_leader_fits f stays_fit_cfg by blast
  next
    case False
    then show ?thesis using rest f by (auto simp: bind_eq_Some_conv set_peers intro!: stays_fitI)
  qed
qed

lemma tick_fits:
  assumes "tick st n now = Some (n', out)" and "fits n"
  shows "stays_fit n n' out"
proof (cases "role n = Leader")
  case True
  show ?thesis
  proof (cases "now \<ge> heartbeat_deadline n")
    case le: True
    then obtain hb where n': "n' = n\<lparr>heartbeat_deadline := hb\<rparr>" and out: "broadcast_append n' = Some out"
      using assms(1) True unfolding tick_def Let_def by (auto simp: bind_eq_Some_conv)
    have "fits n'" using assms(2) unfolding n' by (simp add: fits_def)
    then show ?thesis by (rule stays_fit_cfg [OF broadcast_fits [OF out]]) (simp add: n')
  qed (use assms True in \<open>simp add: tick_def stays_fit_refl\<close>)
next
  case False
  then have "tick st n now = (if now \<ge> election_deadline n then start_election st n now else Some (n, []))"
    by (cases "role n") (simp_all add: tick_def)
  then show ?thesis
    using assms start_election_fits [of st n now] by (auto intro: stays_fit_refl split: if_splits)
qed

lemma propose_fits:
  assumes "propose st n now cmd = Some (n', r)" and "fits n" and "length cmd < 2 ^ 32"
  shows "fits n' \<and> cfg n' = cfg n \<and> (\<forall>idx out. r = Inr (idx, out) \<longrightarrow> stays_fit n n' out)"
proof (cases "role n \<noteq> Leader")
  case True
  then show ?thesis using assms(1,2) by (auto simp: propose_def)
next
  case False
  then obtain n1 out where n1: "log_append st n [\<lparr>e_term = n_term n, command = cmd\<rparr>] = Some n1"
    and n': "advance_commit n1 = Some n'" and out: "broadcast_append n' = Some out" and r: "r = Inr (last_index n', out)"
    using assms(1) unfolding propose_def by (auto simp: bind_eq_Some_conv)
  have "fits n1 \<and> cfg n1 = cfg n" using log_append_fits [OF n1 assms(2)] assms(3) by (simp add: small_def)
  then have f: "fits n'" "cfg n' = cfg n" using advance_commit_fits [OF n'] by simp_all
  then show ?thesis using broadcast_fits [OF out f(1)] stays_fit_cfg r by blast
qed

lemma append_loop_fits:
  "append_loop st n p k es = Some n' \<Longrightarrow> fits n \<Longrightarrow> \<forall>e \<in> set es. small e \<Longrightarrow> fits n' \<and> cfg n' = cfg n"
proof (induction st n p k es rule: append_loop.induct)
  case (2 st n p k e es)
  obtain i idx where add: "add64 p 1 = Some i" "add64 i (as_word k) = Some idx"
    and run: "(if idx \<le> last_index n then do {
       t \<leftarrow> term_at n idx;
       if t = e_term e then append_loop st n p (Suc k) es
       else do {
         s \<leftarrow> truncate_from st (store n) idx;
         let n = n\<lparr>store := s, n_log := take (unat idx - 1) (n_log n)\<rparr>;
         log_append st n (e # es) } }
     else log_append st n (e # es)) = Some n'"
    using "2.prems"(1) by (simp only: append_loop.simps) (auto simp only: bind_eq_Some_conv)
  have cut: "fits (n\<lparr>store := s, n_log := take (unat idx - 1) (n_log n)\<rparr>)" for s
    using "2.prems"(2) by (auto simp: fits_def dest: in_set_takeD)
  show ?case
  proof (cases "idx \<le> last_index n")
    case True
    then obtain t where t: "term_at n idx = Some t" and run: "(if t = e_term e then append_loop st n p (Suc k) es
       else do {
         s \<leftarrow> truncate_from st (store n) idx;
         let n = n\<lparr>store := s, n_log := take (unat idx - 1) (n_log n)\<rparr>;
         log_append st n (e # es) }) = Some n'"
      using run by (auto simp only: if_True elim: bind_SomeE)
    show ?thesis
    proof (cases "t = e_term e")
      case eq: True
      have "append_loop st n p (Suc k) es = Some n'" using run eq by simp
      then show ?thesis using "2.IH" [OF add True t eq] "2.prems"(2,3) by simp
    next
      case False
      then obtain s where "log_append st (n\<lparr>store := s, n_log := take (unat idx - 1) (n_log n)\<rparr>) (e # es) = Some n'"
        using run by (auto simp: bind_eq_Some_conv Let_def)
      then show ?thesis using log_append_fits [OF _ cut "2.prems"(3)] by simp
    qed
  next
    case False
    then have "log_append st n (e # es) = Some n'" using run by simp
    then show ?thesis using log_append_fits [OF _ "2.prems"(2,3)] by simp
  qed
qed simp

lemma step_down_fits:
  assumes "step_down st n now t = Some n'" and "fits n"
  shows "fits n' \<and> cfg n' = cfg n"
proof -
  obtain n1 where n1: "persist_hard_state st (n\<lparr>n_term := t, voted_for := None\<rparr>) = Some n1"
    and n': "reset_election_timer (n1\<lparr>role := Follower, leader_id := None\<rparr>) now = Some n'"
    using assms(1) unfolding step_down_def by (auto simp: bind_eq_Some_conv)
  have "fits n1" "cfg n1 = cfg n" using persist_fits [OF n1] assms(2) by (simp_all add: fits_def)
  then have "fits (n1\<lparr>role := Follower, leader_id := None\<rparr>)" by (simp add: fits_def)
  then show ?thesis using reset_fits [OF n'] \<open>cfg n1 = cfg n\<close> by simp
qed

lemma on_request_vote_fits:
  assumes "on_request_vote st n now src t li lt = Some (n', out)" and "fits n" and src: "src < cluster_size (cfg n)"
  shows "stays_fit n n' out"
proof -
  consider "n' = n" "out = reply src (VoteResponse (n_term n) False)"
    | n1 where "persist_hard_state st (n\<lparr>voted_for := Some src\<rparr>) = Some n1"
      "reset_election_timer n1 now = Some n'" "out = reply src (VoteResponse (n_term n') True)"
    using assms(1) unfolding on_request_vote_def by (auto simp: bind_eq_Some_conv Let_def split: if_splits)
  then show ?thesis
  proof cases
    case 1
    then show ?thesis using assms(2) by (simp add: stays_fit_reply src)
  next
    case 2
    have "fits n1" "cfg n1 = cfg n" using persist_fits [OF 2(1)] assms(2) by (simp_all add: fits_def)
    then show ?thesis using reset_fits [OF 2(2)] 2(3) by (simp add: stays_fit_reply src)
  qed
qed

lemma on_vote_response_fits:
  assumes "on_vote_response st n now src t g = Some (n', out)" and "fits n"
  shows "stays_fit n n' out"
proof -
  consider "n' = n" "out = []" | vs where "vec_set (votes n) src True = Some vs"
      "(if vote_count (n\<lparr>votes := vs\<rparr>) \<ge> quorum (n\<lparr>votes := vs\<rparr>) then become_leader st (n\<lparr>votes := vs\<rparr>) now
        else Some (n\<lparr>votes := vs\<rparr>, [])) = Some (n', out)"
    using assms(1) unfolding on_vote_response_def Let_def by (auto elim!: bind_SomeE split: if_splits)
  then show ?thesis
  proof cases
    case 1
    then show ?thesis using assms(2) by (simp add: stays_fit_refl)
  next
    case 2
    have f: "fits (n\<lparr>votes := vs\<rparr>)" using assms(2) by (simp add: fits_def)
    then have "stays_fit (n\<lparr>votes := vs\<rparr>) n' out"
      using 2(2) become_leader_fits [OF _ f] by (auto intro: stays_fit_refl split: if_splits)
    then show ?thesis by (rule stays_fit_cfg) simp
  qed
qed

lemma on_append_entries_fits:
  assumes "on_append_entries st n now src t p pt es lc = Some (n', out)" and "fits n" and "\<forall>e \<in> set es. small e" and src: "src < cluster_size (cfg n)"
  shows "stays_fit n n' out"
proof (cases "t < n_term n \<or> role n = Leader")
  case True
  then show ?thesis using assms(1,2) src by (auto simp: on_append_entries_def intro!: stays_fit_reply split: if_splits)
next
  case False
  then have nt: "\<not> t < n_term n" and nl: "role n \<noteq> Leader" by simp_all
  obtain n0 where r: "reset_election_timer (n\<lparr>role := Follower, leader_id := Some src\<rparr>) now = Some n0"
    and rest: "(if p > last_index n0
        then Some (n0, reply src (AppendResponse (n_term n0) False (last_index n0)))
        else do {
          pt0 \<leftarrow> term_at n0 p;
          if pt0 \<noteq> pt
          then Some (n0, reply src (AppendResponse (n_term n0) False (saturating_sub64 p 1)))
          else do {
            n1 \<leftarrow> append_loop st n0 p 0 es;
            matched \<leftarrow> add64 p (as_word (length es));
            let n2 = (if lc > commit_index n1 then n1\<lparr>commit_index := min lc matched\<rparr> else n1);
            Some (n2, reply src (AppendResponse (n_term n2) True matched)) } }) = Some (n', out)"
    using assms(1) unfolding on_append_entries_def if_not_P [OF nt] if_not_P [OF nl] by (rule bind_SomeE)
  have "fits (n\<lparr>role := Follower, leader_id := Some src\<rparr>)" using assms(2) by (simp add: fits_def)
  then have f: "fits n0" "cfg n0 = cfg n" using reset_fits [OF r] by simp_all
  consider m where "n' = n0" "out = reply src (AppendResponse (n_term n0) False m)"
    | n1 m where "append_loop st n0 p 0 es = Some n1" "n' = n1" "out = reply src (AppendResponse (n_term n1) True m)"
    | n1 m k where "append_loop st n0 p 0 es = Some n1" "n' = n1\<lparr>commit_index := k\<rparr>"
      "out = reply src (AppendResponse (n_term n1) True m)"
    using rest by (auto simp: Let_def bind_eq_Some_conv split: if_split_asm)
  then show ?thesis
  proof cases
    case 1
    then show ?thesis using f by (simp add: stays_fit_reply src)
  next
    case 2
    have "fits n1 \<and> cfg n1 = cfg n" using append_loop_fits [OF 2(1) f(1) assms(3)] f(2) by simp
    then show ?thesis using 2(2,3) by (simp add: stays_fit_reply src)
  next
    case 3
    have "fits n1 \<and> cfg n1 = cfg n" using append_loop_fits [OF 3(1) f(1) assms(3)] f(2) by simp
    then have "fits n'" "cfg n' = cfg n" unfolding 3(2) by (auto simp: fits_def)
    then show ?thesis using 3(3) by (simp add: stays_fit_reply src)
  qed
qed

lemma on_append_response_fits:
  assumes "on_append_response n src t g m = Some (n', out)" and "fits n" and src: "src < cluster_size (cfg n)"
  shows "stays_fit n n' out"
proof -
  consider "n' = n" "out = []"
    | ns o1 where "n' = n\<lparr>next_index := ns\<rparr>" "append_for n' src = Some o1" "out = [o1]"
    | ms ns where "advance_commit (n\<lparr>match_index := ms, next_index := ns\<rparr>) = Some n'"
      "out = [] \<or> (\<exists>o1. append_for n' src = Some o1 \<and> out = [o1])"
    using assms(1) unfolding on_append_response_def Let_def by (auto elim!: bind_SomeE split: if_splits)
  then show ?thesis
  proof cases
    case 1
    then show ?thesis using assms(2) by (simp add: stays_fit_refl)
  next
    case 2
    have f: "fits n'" using assms(2) 2(1) by (simp add: fits_def)
    show ?thesis using f 2(1,3) append_for_fits [OF 2(2) f] src by (auto intro!: stays_fitI)
  next
    case 3
    have "fits (n\<lparr>match_index := ms, next_index := ns\<rparr>)" using assms(2) by (simp add: fits_def)
    then have f: "fits n'" "cfg n' = cfg n" using advance_commit_fits [OF 3(1)] by simp_all
    then show ?thesis using 3(2) append_for_fits [OF _ f(1)] src by (auto intro!: stays_fitI)
  qed
qed

lemma handle_fits:
  assumes "handle st n now src m = Some (n', out)" and "fits n" and "sizes_fit m"
  shows "stays_fit n n' out"
proof (cases "src = cfg_id (cfg n) \<or> src \<ge> cluster_size (cfg n)")
  case True
  then show ?thesis using assms(1,2) by (auto simp: handle_def stays_fit_refl)
next
  case False
  then obtain n1 where n1: "(if msg_term m > n_term n then step_down st n now (msg_term m) else Some n) = Some n1"
    and rest: "(case m of
           RequestVote t li lt \<Rightarrow> on_request_vote st n1 now src t li lt
         | VoteResponse t g \<Rightarrow> on_vote_response st n1 now src t g
         | AppendEntries t p pt es lc \<Rightarrow> on_append_entries st n1 now src t p pt es lc
         | AppendResponse t s m \<Rightarrow> on_append_response n1 src t s m) = Some (n', out)"
    using assms(1) unfolding handle_def by (auto simp only: if_False elim: bind_SomeE)
  have src: "src < cluster_size (cfg n)" using False by simp
  have f: "fits n1" "cfg n1 = cfg n"
    using n1 assms(2) step_down_fits [of st n now "msg_term m" n1] by (auto split: if_splits)
  have "stays_fit n1 n' out"
  proof (cases m)
    case (AppendEntries t p pt es lc)
    then show ?thesis using rest on_append_entries_fits [OF _ f(1)] assms(3) src f(2) by (simp add: small_def)
  qed (use rest f src in \<open>auto intro: on_request_vote_fits on_vote_response_fits on_append_response_fits\<close>)
  then show ?thesis by (rule stays_fit_cfg [OF _ f(2)])
qed

end
