(* ===== verification/Cluster_Rel.thy ===== *)
theory Cluster_Rel
  imports Cluster Node_Sizes Safety Message_Codec
begin

text \<open>
  The simulated cluster against the protocol: the relation between a cluster state and a state
  of the abstract protocol, and its preservation by every operation of the cluster.  The
  contracts of the external channel and frame crates are the locales \<open>channel_spec\<close> and
  \<open>cluster_env\<close>.
\<close>

section \<open>The contract of the network\<close>

text \<open>
  \<open>carried\<close> is the set of datagrams put on a link so far.  A channel may lose, duplicate,
  delay and damage them, but a datagram it delivers that is a valid frame (its checksum is
  right) has the content of one that was put on it.
\<close>

locale channel_spec =
  fixes api :: "'ch channel_api" and dec :: "bytes \<Rightarrow> 'e + frame" and carried :: "'ch \<Rightarrow> bytes set"
  assumes new_carries: "carried (ch_new api seed profile) = {}"
    and send_carries: "carried (ch_send api ch b) \<subseteq> insert b (carried ch)"
    and advance_carries: "ch_advance api ch t = (ch', ds) \<Longrightarrow> carried ch' \<subseteq> carried ch"
    and advance_sound: "ch_advance api ch t = (ch', ds) \<Longrightarrow> d \<in> set ds \<Longrightarrow> dec d = Inr f \<Longrightarrow>
      \<exists>b \<in> carried ch. dec b = Inr f"
begin

text \<open>A delivered message was sent on the link.\<close>

lemma arrival_sent:
  assumes "ch_advance api ch t = (ch', ds)" and "d \<in> set ds" and "decode_message dec d = Inr m"
  shows "\<exists>b \<in> carried ch. decode_message dec b = Inr m"
proof -
  obtain f where f: "dec d = Inr f" using decode_message_InrD [OF assms(3)] by blast
  obtain b where b: "b \<in> carried ch" "dec b = Inr f" using advance_sound [OF assms(1,2) f] by blast
  then have "decode_message dec b = decode_message dec d" by (simp add: decode_message_frame f)
  then show ?thesis using b(1) assms(3) by auto
qed

end

locale cluster_env = storage "st_ops (backend env)" view ok
    + channel_spec "channels env" "frame_dec env" carried
  for env :: "('s, 'ch, 'e) env" and view :: "'s \<Rightarrow> persistent" and ok :: "'s \<Rightarrow> bool"
    and carried :: "'ch \<Rightarrow> bytes set" +
  assumes frame_sound: "frame_dec env (frame_enc env f) = Inr f' \<Longrightarrow>
      frame_type f' = frame_type f \<and> payload f' = payload f"
    and open_ok: "ok s \<Longrightarrow> st_open (backend env) s = Some s' \<Longrightarrow> ok s' \<and> view s' = view s"
begin

lemma sent_message:
  assumes "sizes_fit m" and "decode_message (frame_dec env) (encode_message (frame_enc env) m) = Inr m'"
  shows "m' = m"
proof -
  obtain f where f: "frame_dec env (frame_enc env (frame_of m)) = Inr f"
    using decode_message_InrD [OF assms(2)] by (auto simp: encode_message_def)
  have "decode_message (frame_dec env) (encode_message (frame_enc env) m) = Inr m"
    using decode_message_encoded [OF assms(1) _ , of "frame_dec env" "encode_message (frame_enc env) m" f "[]"]
      f frame_sound [OF f] by (simp add: encode_message_def frame_of_def)
  then show ?thesis using assms(2) by simp
qed

end

section \<open>The relation\<close>

definition shaped :: "('s, 'ch) cluster \<Rightarrow> bool" where
  "shaped c \<longleftrightarrow> length (nodes c) = size_of c \<and> length (disks c) = size_of c \<and> size_of c < 2 ^ 64
     \<and> length (links c) = size_of c * size_of c"

definition node_rel :: "('s \<Rightarrow> persistent) \<Rightarrow> ('s \<Rightarrow> bool) \<Rightarrow> ('s, 'ch) cluster \<Rightarrow> raft \<Rightarrow> nodeid \<Rightarrow> bool" where
  "node_rel view ok c a i \<longleftrightarrow> (\<forall>e \<in> set (lg a i). small e)
     \<and> (\<forall>n. nodes c ! i = Some n \<longrightarrow> related view ok (size_of c) i n a \<and> max_batch (cfg n) < 2 ^ 32)
     \<and> (nodes c ! i = None \<longrightarrow> down_rel view ok i (disks c ! i) a)"

definition link_rel :: "('ch \<Rightarrow> bytes set) \<Rightarrow> (bytes \<Rightarrow> 'e + frame) \<Rightarrow> ('s, 'ch) cluster \<Rightarrow> raft \<Rightarrow> bool" where
  "link_rel carried dec c a \<longleftrightarrow> (\<forall>i < size_of c. \<forall>j < size_of c. \<forall>b \<in> carried (links c ! (i * size_of c + j)). \<forall>m.
     decode_message dec b = Inr m \<longrightarrow> msg_sim i j m (net a))"

text \<open>What the checker has recorded holds of the protocol state, and stays true.\<close>

definition checker_rel :: "('s, 'ch) cluster \<Rightarrow> raft \<Rightarrow> bool" where
  "checker_rel c a \<longleftrightarrow> (\<forall>t i. map_get (leaders_by_term c) t = Some i \<longrightarrow> ldr a (unat t) = Some i)
     \<and> map_ok (leaders_by_term c)
     \<and> (\<forall>k < length (c_committed c). \<exists>u. chosen (size_of c) a u (Suc k) (c_committed c ! k))
     \<and> (\<forall>i < size_of c. i < length (max_commit_seen c) \<longrightarrow>
          max_commit_seen c ! i = 0 \<or> holds (size_of c) a i (unat (max_commit_seen c ! i)))
     \<and> (\<forall>i < size_of c. i < length (max_term_seen c) \<longrightarrow> unat (max_term_seen c ! i) \<le> tmx a i)"

definition cluster_rel :: "('s \<Rightarrow> persistent) \<Rightarrow> ('s \<Rightarrow> bool) \<Rightarrow> ('ch \<Rightarrow> bytes set) \<Rightarrow> (bytes \<Rightarrow> 'e + frame)
    \<Rightarrow> ('s, 'ch) cluster \<Rightarrow> raft \<Rightarrow> bool" where
  "cluster_rel view ok carried dec c a \<longleftrightarrow> rinv (size_of c) a \<and> shaped c
     \<and> (\<forall>i < size_of c. node_rel view ok c a i) \<and> link_rel carried dec c a \<and> checker_rel c a"

lemma cluster_relD:
  assumes "cluster_rel view ok carried dec c a"
  shows "rinv (size_of c) a" and "shaped c" and "i < size_of c \<Longrightarrow> node_rel view ok c a i"
    and "link_rel carried dec c a" and "checker_rel c a"
  using assms unfolding cluster_rel_def by blast+

lemma checker_relD:
  assumes "checker_rel c a"
  shows "map_get (leaders_by_term c) t = Some i \<Longrightarrow> ldr a (unat t) = Some i" and "map_ok (leaders_by_term c)"
    and "k < length (c_committed c) \<Longrightarrow> \<exists>u. chosen (size_of c) a u (Suc k) (c_committed c ! k)"
    and "i < size_of c \<Longrightarrow> i < length (max_commit_seen c) \<Longrightarrow>
          max_commit_seen c ! i = 0 \<or> holds (size_of c) a i (unat (max_commit_seen c ! i))"
    and "i < size_of c \<Longrightarrow> i < length (max_term_seen c) \<Longrightarrow> unat (max_term_seen c ! i) \<le> tmx a i"
  using assms unfolding checker_rel_def by blast+

text \<open>The relation does not look at the clock, the generator, the partitions and the statistics.\<close>

lemma size_of_update [simp]:
  "size_of (c\<lparr>c_now := t\<rparr>) = size_of c" "size_of (c\<lparr>c_rng := r\<rparr>) = size_of c"
  "size_of (c\<lparr>blocked := bs\<rparr>) = size_of c" "size_of (c\<lparr>c_stats := st\<rparr>) = size_of c"
  "size_of (c\<lparr>next_command := k\<rparr>) = size_of c" "size_of (c\<lparr>links := ls\<rparr>) = size_of c"
  "size_of (c\<lparr>nodes := ns\<rparr>) = size_of c" "size_of (c\<lparr>disks := ds\<rparr>) = size_of c"
  "size_of (c\<lparr>leaders_by_term := lt\<rparr>) = size_of c" "size_of (c\<lparr>c_committed := es\<rparr>) = size_of c"
  "size_of (c\<lparr>max_commit_seen := ms\<rparr>) = size_of c" "size_of (c\<lparr>max_term_seen := ts\<rparr>) = size_of c"
  "size_of (set_node c i n) = size_of c"
  "cc_n conf = cc_n (c_cfg c) \<Longrightarrow> size_of (c\<lparr>c_cfg := conf\<rparr>) = size_of c"
  by (simp_all add: size_of_def set_node_def)

lemmas rel_defs = cluster_rel_def shaped_def node_rel_def link_rel_def checker_rel_def

lemma cluster_rel_update [simp]:
  "cluster_rel view ok carried dec (c\<lparr>c_now := t\<rparr>) a = cluster_rel view ok carried dec c a"
  "cluster_rel view ok carried dec (c\<lparr>c_rng := r\<rparr>) a = cluster_rel view ok carried dec c a"
  "cluster_rel view ok carried dec (c\<lparr>blocked := bs\<rparr>) a = cluster_rel view ok carried dec c a"
  "cluster_rel view ok carried dec (c\<lparr>c_stats := st\<rparr>) a = cluster_rel view ok carried dec c a"
  "cluster_rel view ok carried dec (c\<lparr>next_command := k\<rparr>) a = cluster_rel view ok carried dec c a"
  "cc_n conf = cc_n (c_cfg c) \<Longrightarrow>
    cluster_rel view ok carried dec (c\<lparr>c_cfg := conf\<rparr>) a = cluster_rel view ok carried dec c a"
  by (simp_all add: rel_defs)

lemma count_up_rel:
  assumes "count_up get put c = Some c'"
  shows "cluster_rel view ok carried dec c' a = cluster_rel view ok carried dec c a" and "size_of c' = size_of c"
    and "nodes c' = nodes c" and "c_cfg c' = c_cfg c" and "max_commit_seen c' = max_commit_seen c"
    and "c_committed c' = c_committed c"
proof -
  obtain st where "c' = c\<lparr>c_stats := st\<rparr>" using assms by (auto simp: count_up_def bind_eq_Some_conv)
  then show "cluster_rel view ok carried dec c' a = cluster_rel view ok carried dec c a" "size_of c' = size_of c"
    "nodes c' = nodes c" "c_cfg c' = c_cfg c" "max_commit_seen c' = max_commit_seen c" "c_committed c' = c_committed c"
    by simp_all
qed

lemma count_up_kept:
  assumes "count_up get put c = Some c'" and "cluster_rel view ok carried dec c a"
  shows "cluster_rel view ok carried dec c' a \<and> size_of c' = size_of c \<and> c_cfg c' = c_cfg c"
  using count_up_rel(1,2,4) [OF assms(1)] assms(2) by blast

section \<open>Steps of one node\<close>

lemma checker_rel_advance:
  assumes "checker_rel c a" and inv: "rinv (size_of c) a" and b: "nsteps (size_of c) i a b"
  shows "checker_rel c b"
proof -
  note K = checker_relD [OF assms(1)]
  have g: "grows a b" "promises_kept a b" using nsteps_grows [OF b inv] by simp_all
  show ?thesis
    unfolding checker_rel_def
  proof (intro conjI allI impI)
    fix t j assume "map_get (leaders_by_term c) t = Some j"
    then show "ldr b (unat t) = Some j" using K(1) grows_ldr [OF g(1)] by fastforce
  next
    show "map_ok (leaders_by_term c)" by (rule K(2))
  next
    fix k assume "k < length (c_committed c)"
    then show "\<exists>u. chosen (size_of c) b u (Suc k) (c_committed c ! k)" using K(3) grows_chosen [OF g(1)] by blast
  next
    fix j assume "j < size_of c" "j < length (max_commit_seen c)"
    then show "max_commit_seen c ! j = 0 \<or> holds (size_of c) b j (unat (max_commit_seen c ! j))"
      using K(4) nsteps_holds [OF b inv] by blast
  next
    fix j assume "j < size_of c" "j < length (max_term_seen c)"
    then have "unat (max_term_seen c ! j) \<le> tmx a j" by (rule K(5))
    also have "\<dots> \<le> tmx b j" using g(2) unfolding promises_kept_def by blast
    finally show "unat (max_term_seen c ! j) \<le> tmx b j" .
  qed
qed

text \<open>Any number of protocol steps, of any nodes.\<close>

definition evolves :: "nat \<Rightarrow> raft \<Rightarrow> raft \<Rightarrow> bool" where
  "evolves N = (\<lambda>a b. \<exists>i. nsteps N i a b)\<^sup>*\<^sup>*"

lemma evolves_refl [simp]: "evolves N a a"
  by (simp add: evolves_def)

lemma evolves_trans: "evolves N a b \<Longrightarrow> evolves N b c \<Longrightarrow> evolves N a c"
  unfolding evolves_def by (rule rtranclp_trans)

lemma evolves_one: "nsteps N i a b \<Longrightarrow> evolves N a b"
  unfolding evolves_def by (rule r_into_rtranclp) blast

lemma evolves_net: "evolves N a b \<Longrightarrow> net a \<subseteq> net b"
  unfolding evolves_def
proof (induction rule: rtranclp_induct)
  case (step b c)
  then show ?case using nsteps_net by blast
qed simp

lemma evolves_chosen: "evolves N a b \<Longrightarrow> rinv N a \<Longrightarrow> chosen N a u k e \<Longrightarrow> chosen N b u k e \<and> rinv N b"
  unfolding evolves_def
proof (induction rule: rtranclp_induct)
  case (step b c)
  then obtain i where i: "nsteps N i b c" by blast
  have b: "rinv N b" "chosen N b u k e" using step.IH step.prems by blast+
  then show ?case using nsteps_grows [OF i] nsteps_rinv [OF i] grows_chosen by blast
qed simp

lemma link_rel_mono: "link_rel carried dec c a \<Longrightarrow> net a \<subseteq> net b \<Longrightarrow> link_rel carried dec c b"
  unfolding link_rel_def using msg_sim_mono by blast

lemma node_rel_local: "local_to i a b \<Longrightarrow> j \<noteq> i \<Longrightarrow> node_rel view ok c a j \<Longrightarrow> node_rel view ok c b j"
  unfolding node_rel_def
  by (auto simp: related_local [of i a b j] down_local [of i a b j] local_to_def split: option.splits)

text \<open>Replacing node \<open>i\<close> after steps of its own.\<close>

lemma put_rel:
  assumes rel: "cluster_rel view ok carried dec c a" and b: "nsteps (size_of c) i a b" and i: "i < size_of c"
    and new: "node_rel view ok ((set_node c i no)\<lparr>disks := (disks c)[i := d]\<rparr>) b i"
  shows "cluster_rel view ok carried dec ((set_node c i no)\<lparr>disks := (disks c)[i := d]\<rparr>) b"
proof -
  note R = cluster_relD [OF rel]
  let ?c = "(set_node c i no)\<lparr>disks := (disks c)[i := d]\<rparr>"
  have "node_rel view ok ?c b j" if j: "j < size_of c" for j
  proof (cases "j = i")
    case False
    have "node_rel view ok c b j" using node_rel_local [OF nsteps_local [OF b] False R(3) [OF j]] .
    then show ?thesis using False by (simp add: node_rel_def set_node_def)
  qed (use new in simp)
  moreover have "link_rel carried dec ?c b"
    using link_rel_mono [OF R(4) nsteps_net [OF b]] by (simp add: link_rel_def set_node_def)
  moreover have "checker_rel ?c b"
    using checker_rel_advance [OF R(5,1) b] by (simp add: checker_rel_def set_node_def)
  ultimately show ?thesis
    using R(2) nsteps_rinv [OF b R(1)] by (simp add: cluster_rel_def shaped_def set_node_def)
qed

lemma node_rel_up:
  assumes "node_rel view ok c a i" and "nodes c ! i = Some n"
  shows "related view ok (size_of c) i n a" and "fits n" and "cluster_size (cfg n) = size_of c" and "cfg_id (cfg n) = i"
proof -
  show r: "related view ok (size_of c) i n a" using assms by (simp add: node_rel_def)
  show "fits n"
    using assms node_simD(3) [OF relatedD(2) [OF r]] by (auto simp: node_rel_def fits_def)
  show "cluster_size (cfg n) = size_of c" "cfg_id (cfg n) = i" using node_okD(3,4) [OF relatedD(1) [OF r]] by simp_all
qed

lemma node_rel_upI:
  assumes r: "related view ok (size_of c) i n a" and f: "fits n" and "nodes c ! i = Some n"
  shows "node_rel view ok c a i"
  using assms node_simD(3) [OF relatedD(2) [OF r]] by (auto simp: node_rel_def fits_def)

lemma put_simulated:
  assumes rel: "cluster_rel view ok carried dec c a" and i: "i < size_of c"
    and sim: "simulated view ok (size_of c) i a n out" and f: "fits n"
  shows "\<exists>b. cluster_rel view ok carried dec (set_node c i (Some n)) b \<and> outs_sim i out b \<and> evolves (size_of c) a b"
proof -
  obtain b where b: "nsteps (size_of c) i a b" "related view ok (size_of c) i n b" "outs_sim i out b"
    using sim unfolding simulated_def by blast
  have s: "length (nodes c) = size_of c" using cluster_relD(2) [OF rel] by (simp add: shaped_def)
  have "disks c = (disks c)[i := disks c ! i]" by simp
  then have eq: "(set_node c i (Some n))\<lparr>disks := (disks c)[i := disks c ! i]\<rparr> = set_node c i (Some n)"
    by (simp add: set_node_def)
  have "node_rel view ok (set_node c i (Some n)) b i"
    by (rule node_rel_upI [OF _ f]) (use b(2) i s in \<open>simp_all add: set_node_def size_of_def\<close>)
  then have "cluster_rel view ok carried dec (set_node c i (Some n)) b"
    using put_rel [OF rel b(1) i, where no = "Some n" and d = "disks c ! i"] unfolding eq by blast
  then show ?thesis using b(3) evolves_one [OF b(1)] by blast
qed

section \<open>Operations outside the nodes\<close>

lemma draw_rel:
  assumes "draw p c = (c', hit)"
  shows "cluster_rel view ok carried dec c' a = cluster_rel view ok carried dec c a"
    and "size_of c' = size_of c" and "c_cfg c' = c_cfg c" and "nodes c' = nodes c"
  using assms by (auto simp: draw_def split: prod.splits)

lemma draw_node_rel:
  assumes "draw_node c = Some (c', i)"
  shows "cluster_rel view ok carried dec c' a = cluster_rel view ok carried dec c a"
    and "size_of c' = size_of c" and "c_cfg c' = c_cfg c"
  using assms by (auto simp: draw_node_def bind_eq_Some_conv)

lemma draw_sides_rel:
  "draw_sides k c = (c', side) \<Longrightarrow> cluster_rel view ok carried dec c' a = cluster_rel view ok carried dec c a
    \<and> size_of c' = size_of c \<and> c_cfg c' = c_cfg c"
proof (induction k arbitrary: c c' side)
  case (Suc k)
  obtain c1 b where c1: "draw (1 / 2) c = (c1, b)" by (cases "draw (1 / 2) c")
  obtain c2 bs where c2: "draw_sides k c1 = (c2, bs)" by (cases "draw_sides k c1")
  have "c' = c2" using Suc.prems c1 c2 by (simp add: Let_def)
  then show ?case using draw_rel [OF c1] Suc.IH [OF c2] by simp
qed simp

lemma cl_partition_rel:
  "cl_partition c side = Some c' \<Longrightarrow> cluster_rel view ok carried dec c' a = cluster_rel view ok carried dec c a
    \<and> size_of c' = size_of c \<and> c_cfg c' = c_cfg c"
  unfolding cl_partition_def by (auto elim!: bind_SomeE)

lemma isolate_rel:
  "isolate c i = Some c' \<Longrightarrow> cluster_rel view ok carried dec c' a = cluster_rel view ok carried dec c a
    \<and> size_of c' = size_of c \<and> c_cfg c' = c_cfg c"
  unfolding isolate_def by (auto elim!: bind_SomeE dest: cl_partition_rel)

lemma heal_rel:
  "cluster_rel view ok carried dec (heal c) a = cluster_rel view ok carried dec c a"
  "size_of (heal c) = size_of c" "c_cfg (heal c) = c_cfg c"
  by (simp_all add: heal_def)

lemma crash_node_rel:
  assumes rel: "cluster_rel view ok carried dec c a" and i: "i < size_of c" and n: "nodes c ! i = Some n"
    and st: "storage (ops :: 's storage_ops) view ok"
  shows "\<exists>b. cluster_rel view ok carried dec ((set_node c i None)\<lparr>disks := (disks c)[i := store n]\<rparr>) b
    \<and> evolves (size_of c) a b"
proof -
  note R = cluster_relD [OF rel]
  have len: "length (nodes c) = size_of c" "length (disks c) = size_of c" using R(2) by (simp_all add: shaped_def)
  note U = node_rel_up [OF R(3) [OF i] n]
  obtain b where b: "nsteps (size_of c) i a b" "rl b i = AFollower" "ci b i = 0"
    "tmx b i = unat (p_term (view (store n)))" "vot b i = p_voted_for (view (store n))" "lg b i = p_log (view (store n))"
    using storage.crash_sim [OF st U(1)] by blast
  have O: "ok (store n)" "p_log (view (store n)) = n_log n" using node_okD(1,2) [OF relatedD(1) [OF U(1)]] by simp_all
  have "node_rel view ok ((set_node c i None)\<lparr>disks := (disks c)[i := store n]\<rparr>) b i"
    using b O i len U(2) by (simp add: node_rel_def set_node_def down_rel_def fits_def)
  then have "cluster_rel view ok carried dec ((set_node c i None)\<lparr>disks := (disks c)[i := store n]\<rparr>) b"
    by (rule put_rel [OF rel b(1) i])
  then show ?thesis using evolves_one [OF b(1)] by blast
qed

lemma crash_rel:
  assumes rel: "cluster_rel view ok carried dec c a" and i: "i < size_of c" and cr: "crash c i = Some c'"
    and st: "storage (ops :: 's storage_ops) view ok"
  shows "\<exists>b. cluster_rel view ok carried dec c' b \<and> evolves (size_of c) a b" and "size_of c' = size_of c" and "c_cfg c' = c_cfg c"
proof -
  have len: "length (nodes c) = size_of c" using cluster_relD(2) [OF rel] by (simp add: shaped_def)
  have "(\<exists>b. cluster_rel view ok carried dec c' b \<and> evolves (size_of c) a b) \<and> size_of c' = size_of c \<and> c_cfg c' = c_cfg c"
  proof (cases "nodes c ! i")
    case None
    then have "c' = c" using cr i len by (auto simp: crash_def bind_eq_Some_conv dest!: vec_get_SomeD)
    then show ?thesis using rel evolves_refl by blast
  next
    case (Some n)
    then have cu: "count_up crashes crashes_update ((set_node c i None)\<lparr>disks := (disks c)[i := store n]\<rparr>) = Some c'"
      using cr i len by (auto simp: crash_def bind_eq_Some_conv dest!: vec_get_SomeD)
    obtain b where b: "cluster_rel view ok carried dec ((set_node c i None)\<lparr>disks := (disks c)[i := store n]\<rparr>) b"
      "evolves (size_of c) a b" using crash_node_rel [OF rel i Some st] by blast
    have "cluster_rel view ok carried dec c' b" using count_up_rel(1) [OF cu] b(1) by blast
    then show ?thesis using count_up_rel(2,4) [OF cu] b(2) by (auto simp: set_node_def size_of_def)
  qed
  then show "\<exists>b. cluster_rel view ok carried dec c' b \<and> evolves (size_of c) a b" and "size_of c' = size_of c" and "c_cfg c' = c_cfg c" by blast+
qed

section \<open>Sending and delivering\<close>

lemma link_index: "(i :: nat) < n \<Longrightarrow> j < n \<Longrightarrow> i' < n \<Longrightarrow> j' < n \<Longrightarrow> i * n + j = i' * n + j' \<longleftrightarrow> i = i' \<and> j = j'"
  by (metis add.commute div_mult_self3 div_less add_0 mod_mult_self3 mod_less less_nat_zero_code not_gr_zero)

context cluster_env
begin

abbreviation rel :: "('s, 'ch) cluster \<Rightarrow> raft \<Rightarrow> bool" where
  "rel \<equiv> cluster_rel view ok carried (frame_dec env)"

lemma send_rel:
  assumes r: "rel c a" and src: "src < size_of c" and dst: "dst < size_of c"
    and m: "msg_sim src dst m (net a)" and fit: "sizes_fit m"
  shows "rel (c\<lparr>links := (links c)[src * size_of c + dst :=
      ch_send (channels env) (links c ! (src * size_of c + dst)) (encode_message (frame_enc env) m)]\<rparr>) a"
proof -
  note R = cluster_relD [OF r]
  let ?k = "src * size_of c + dst" let ?ch = "ch_send (channels env) (links c ! ?k) (encode_message (frame_enc env) m)"
  have "msg_sim i j m' (net a)"
    if i: "i < size_of c" "j < size_of c" and b: "b \<in> carried ((links c)[?k := ?ch] ! (i * size_of c + j))"
      and d: "decode_message (frame_dec env) b = Inr m'" for i j b m'
  proof (cases "i = src \<and> j = dst \<and> b \<notin> carried (links c ! ?k)")
    case True
    have "?k < length (links c)"
    proof -
      have "?k < src * size_of c + size_of c" using dst by simp
      also have "\<dots> = Suc src * size_of c" by simp
      also have "\<dots> \<le> size_of c * size_of c" using src by (intro mult_right_mono) simp_all
      finally show ?thesis using R(2) by (simp add: shaped_def)
    qed
    then have "b = encode_message (frame_enc env) m" using True b send_carries by auto
    then have "m' = m" using sent_message [OF fit] d by simp
    then show ?thesis using m True by simp
  next
    case False
    then have "b \<in> carried (links c ! (i * size_of c + j))"
      using b link_index [OF i src dst] by (cases "i * size_of c + j = ?k") auto
    then show ?thesis using R(4) i d unfolding link_rel_def by blast
  qed
  then have "link_rel carried (frame_dec env) (c\<lparr>links := (links c)[?k := ?ch]\<rparr>) a"
    unfolding link_rel_def by simp
  then show ?thesis using R by (simp add: cluster_rel_def shaped_def node_rel_def checker_rel_def)
qed

lemma route_rel:
  assumes "rel c a" and "src < size_of c" and "outs_sim src out a"
    and "\<forall>o1 \<in> set out. sizes_fit (message o1) \<and> to o1 < size_of c" and "route env c src out = Some c'"
  shows "rel c' a \<and> size_of c' = size_of c \<and> c_cfg c' = c_cfg c \<and> nodes c' = nodes c"
  using assms
proof (induction out arbitrary: c)
  case (Cons o1 out)
  let ?k = "src * size_of c + to o1"
  obtain c1 b where c1: "count_up sent sent_update c = Some c1" and b: "vec_get (blocked c1) (src * size_of c1 + to o1) = Some b"
    and run: "(if b then do {
       c \<leftarrow> count_up dropped_by_partition dropped_by_partition_update c1;
       route env c src out }
     else do {
       ch \<leftarrow> vec_get (links c1) (src * size_of c1 + to o1);
       let ch = ch_send (channels env) ch (encode_message (frame_enc env) (message o1));
       route env (c1\<lparr>links := (links c1)[src * size_of c1 + to o1 := ch]\<rparr>) src out }) = Some c'"
    using Cons.prems(5) unfolding route.simps Let_def by (elim bind_SomeE) blast
  note C = count_up_rel [OF c1]
  have r1: "rel c1 a" using Cons.prems(1) C(1) by blast
  have o1: "msg_sim src (to o1) (message o1) (net a)" "sizes_fit (message o1)" "to o1 < size_of c1"
    and rest: "outs_sim src out a" "\<forall>o1 \<in> set out. sizes_fit (message o1) \<and> to o1 < size_of c1"
    using Cons.prems(3,4) C(2) by (simp_all add: outs_sim_def)
  show ?case
  proof (cases b)
    case True
    then obtain c2 where c2: "count_up dropped_by_partition dropped_by_partition_update c1 = Some c2" "route env c2 src out = Some c'"
      using run by (auto elim!: bind_SomeE)
    note D = count_up_rel [OF c2(1)]
    have "rel c2 a" using r1 D(1) by blast
    then show ?thesis using Cons.IH [OF _ _ rest(1) _ c2(2)] Cons.prems(2) rest(2) C D by simp
  next
    case False
    then obtain ch where ch: "vec_get (links c1) (src * size_of c1 + to o1) = Some ch"
      and c2: "route env (c1\<lparr>links := (links c1)[src * size_of c1 + to o1 :=
         ch_send (channels env) ch (encode_message (frame_enc env) (message o1))]\<rparr>) src out = Some c'"
      using run by (auto elim!: bind_SomeE simp: Let_def)
    have "ch = links c1 ! (src * size_of c1 + to o1)" using vec_get_SomeD [OF ch] by simp
    then have "rel (c1\<lparr>links := (links c1)[src * size_of c1 + to o1 :=
         ch_send (channels env) ch (encode_message (frame_enc env) (message o1))]\<rparr>) a"
      using send_rel [OF r1 _ o1(3,1,2)] Cons.prems(2) C(2) by simp
    then show ?thesis using Cons.IH [OF _ _ rest(1) _ c2] Cons.prems(2) rest(2) C by simp
  qed
qed simp

text \<open>An operation of one node, and what follows of it: the node is put back, its messages are sent.\<close>

lemma node_op_rel:
  assumes r: "rel c a" and i: "i < size_of c" and n: "nodes c ! i = Some n"
    and sim: "related view ok (size_of c) i n a \<Longrightarrow> simulated view ok (size_of c) i a n' out"
    and fit: "stays_fit n n' out"
  shows "\<exists>b. rel (set_node c i (Some n')) b \<and> outs_sim i out b \<and> evolves (size_of c) a b
    \<and> (\<forall>o1 \<in> set out. sizes_fit (message o1) \<and> to o1 < size_of c)"
proof -
  note U = node_rel_up [OF cluster_relD(3) [OF r i] n]
  have "fits n'" using fit by (simp add: stays_fit_def)
  then show ?thesis
    using put_simulated [OF r i sim [OF U(1)]] fit U(3) by (simp add: stays_fit_def)
qed

lemma timers_rel:
  assumes "rel c a" and "\<forall>i \<in> set is. i < size_of c" and "timers env c is = Some c'"
  shows "\<exists>b. rel c' b \<and> evolves (size_of c) a b \<and> size_of c' = size_of c \<and> c_cfg c' = c_cfg c"
  using assms
proof (induction "is" arbitrary: c a)
  case (Cons i "is")
  have i: "i < size_of c" "\<forall>i \<in> set is. i < size_of c" using Cons.prems(2) by simp_all
  obtain no where no: "vec_get (nodes c) i = Some no" and run: "(case no of
       None \<Rightarrow> timers env c is
     | Some n \<Rightarrow> do {
         (n, out) \<leftarrow> tick (st_ops (backend env)) n (c_now c);
         c \<leftarrow> route env (set_node c i (Some n)) i out;
         timers env c is }) = Some c'"
    using Cons.prems(3) by (auto elim: bind_SomeE)
  show ?case
  proof (cases no)
    case None
    then show ?thesis using Cons.IH [OF Cons.prems(1) i(2)] run by simp
  next
    case (Some n)
    then obtain n' out c1 where t: "tick (st_ops (backend env)) n (c_now c) = Some (n', out)"
      and c1: "route env (set_node c i (Some n')) i out = Some c1" and rest: "timers env c1 is = Some c'"
      using run by (auto elim!: bind_SomeE)
    have n: "nodes c ! i = Some n" using vec_get_SomeD [OF no] Some by simp
    have fit: "stays_fit n n' out" by (rule tick_fits [OF t node_rel_up(2) [OF cluster_relD(3) [OF Cons.prems(1) i(1)] n]])
    obtain b where b: "rel (set_node c i (Some n')) b" "outs_sim i out b" "evolves (size_of c) a b"
      "\<forall>o1 \<in> set out. sizes_fit (message o1) \<and> to o1 < size_of c"
      using node_op_rel [OF Cons.prems(1) i(1) n tick_sim [OF _ t] fit] by blast
    have c1': "rel c1 b \<and> size_of c1 = size_of c \<and> c_cfg c1 = c_cfg c"
      using route_rel [OF b(1) _ b(2) _ c1] b(4) i(1) by (simp add: set_node_def)
    then show ?thesis using Cons.IH [of c1 b] rest i(2) evolves_trans [OF b(3)] by auto
  qed
qed (auto intro: evolves_refl)

lemma deliver_one_rel:
  assumes r: "rel c a" and "src < size_of c" and "dst < size_of c"
    and "\<forall>m. decode_message (frame_dec env) d = Inr m \<longrightarrow> msg_sim src dst m (net a)"
    and "deliver_one env c (src, dst, d) = Some c'"
  shows "\<exists>b. rel c' b \<and> evolves (size_of c) a b \<and> size_of c' = size_of c \<and> c_cfg c' = c_cfg c"
proof -
  obtain no where no: "vec_get (nodes c) dst = Some no" and run: "(case no of
       None \<Rightarrow> count_up dropped_to_crashed_node dropped_to_crashed_node_update c
     | Some n \<Rightarrow>
         (case decode_message (frame_dec env) d of
            Inl _ \<Rightarrow> count_up rejected_by_codec rejected_by_codec_update c
          | Inr msg \<Rightarrow> do {
              c \<leftarrow> count_up delivered delivered_update c;
              (n, out) \<leftarrow> handle (st_ops (backend env)) n (c_now c) src msg;
              let c = set_node c dst (Some n);
              let (c, hit) = draw (f_crash_after_event (cc_faults (c_cfg c))) c;
              if hit then crash c dst else route env c dst out })) = Some c'"
    using assms(5) unfolding deliver_one_def by (auto elim: bind_SomeE)
  show ?thesis
  proof (cases no)
    case None
    then have "count_up dropped_to_crashed_node dropped_to_crashed_node_update c = Some c'" using run by simp
    from count_up_kept [OF this r] show ?thesis using evolves_refl by blast
  next
    case (Some n)
    have n: "nodes c ! dst = Some n" using vec_get_SomeD [OF no] Some by simp
    show ?thesis
    proof (cases "decode_message (frame_dec env) d")
      case (Inl e)
      then have "count_up rejected_by_codec rejected_by_codec_update c = Some c'" using run Some by simp
      from count_up_kept [OF this r] show ?thesis using evolves_refl by blast
    next
      case (Inr m)
      obtain c1 n' out c2 hit where c1: "count_up delivered delivered_update c = Some c1"
        and h: "handle (st_ops (backend env)) n (c_now c1) src m = Some (n', out)"
        and c2: "draw (f_crash_after_event (cc_faults (c_cfg (set_node c1 dst (Some n'))))) (set_node c1 dst (Some n')) = (c2, hit)"
        and rest: "(if hit then crash c2 dst else route env c2 dst out) = Some c'"
        using run Some Inr by (auto simp: Let_def elim!: bind_SomeE split: prod.splits)
      note C = count_up_rel [OF c1]
      have r1: "rel c1 a" using r C(1) by blast
      have n1: "nodes c1 ! dst = Some n" using n C(3) by simp
      have i1: "dst < size_of c1" using assms(3) C(2) by simp
      have f: "fits n" by (rule node_rel_up(2) [OF cluster_relD(3) [OF r1 i1] n1])
      have msg: "msg_sim src dst m (net a)" using assms(4) Inr by blast
      have fit: "stays_fit n n' out"
        using handle_fits [OF h f] decode_message_InrD [OF Inr] decode_payload_InrD by blast
      obtain b where b: "rel (set_node c1 dst (Some n')) b" "outs_sim dst out b" "evolves (size_of c1) a b"
        "\<forall>o1 \<in> set out. sizes_fit (message o1) \<and> to o1 < size_of c1"
        using node_op_rel [OF r1 i1 n1 handle_sim [OF _ msg h] fit] by blast
      note D = draw_rel [OF c2]
      have r2: "rel c2 b" using b(1) D(1) by blast
      have s2: "size_of c2 = size_of c" "c_cfg c2 = c_cfg c" using D(2,3) C(2,4) by (simp_all add: set_node_def)
      show ?thesis
      proof (cases hit)
        case True
        then have cr: "crash c2 dst = Some c'" using rest by simp
        have i2: "dst < size_of c2" using assms(3) s2 by simp
        note X = crash_rel [OF r2 i2 cr storage_axioms]
        obtain b' where b': "rel c' b'" "evolves (size_of c2) b b'" using X(1) by blast
        have "evolves (size_of c) a b'" using evolves_trans [of "size_of c" a b b'] b(3) b'(2) C(2) s2(1) by simp
        then show ?thesis using b'(1) s2 X(2,3) by (intro exI [of _ b']) auto
      next
        case False
        then have rt: "route env c2 dst out = Some c'" using rest by simp
        have i2: "dst < size_of c2" using assms(3) s2 by simp
        have o2: "\<forall>o1 \<in> set out. sizes_fit (message o1) \<and> to o1 < size_of c2" using b(4) s2(1) C(2) by simp
        have "rel c' b \<and> size_of c' = size_of c2 \<and> c_cfg c' = c_cfg c2 \<and> nodes c' = nodes c2"
          by (rule route_rel [OF r2 i2 b(2) o2 rt])
        then show ?thesis using b(3) s2 C(2) by (intro exI [of _ b]) simp
      qed
    qed
  qed
qed

definition arrivals_ok :: "nat \<Rightarrow> raft \<Rightarrow> (nodeid \<times> nodeid \<times> bytes) list \<Rightarrow> bool" where
  "arrivals_ok N a as \<longleftrightarrow> (\<forall>(src, dst, d) \<in> set as. src < N \<and> dst < N
     \<and> (\<forall>m. decode_message (frame_dec env) d = Inr m \<longrightarrow> msg_sim src dst m (net a)))"

lemma deliver_all_rel:
  assumes "rel c a" and "arrivals_ok (size_of c) a as" and "deliver_all env c as = Some c'"
  shows "\<exists>b. rel c' b \<and> evolves (size_of c) a b \<and> size_of c' = size_of c \<and> c_cfg c' = c_cfg c"
  using assms
proof (induction as arbitrary: c a)
  case (Cons x as)
  obtain src dst d where x: "x = (src, dst, d)" by (cases x)
  obtain c1 where c1: "deliver_one env c (src, dst, d) = Some c1" "deliver_all env c1 as = Some c'"
    using Cons.prems(3) x by (auto elim: bind_SomeE)
  have a: "src < size_of c" "dst < size_of c"
    "\<forall>m. decode_message (frame_dec env) d = Inr m \<longrightarrow> msg_sim src dst m (net a)" "arrivals_ok (size_of c) a as"
    using Cons.prems(2) x by (auto simp: arrivals_ok_def)
  obtain b where b: "rel c1 b" "evolves (size_of c) a b" "size_of c1 = size_of c" "c_cfg c1 = c_cfg c"
    using deliver_one_rel [OF Cons.prems(1) a(1-3) c1(1)] by blast
  have "arrivals_ok (size_of c1) b as"
    using a(4) msg_sim_mono [OF _ evolves_net [OF b(2)]] b(3) unfolding arrivals_ok_def by fastforce
  then show ?case using Cons.IH [OF b(1) _ c1(2)] b(3,4) evolves_trans [OF b(2)] by auto
qed (auto intro: evolves_refl)

lemma advance_link_rel:
  assumes r: "rel c a" and "ch_advance (channels env) (links c ! k) t = (ch, ds)"
  shows "rel (c\<lparr>links := (links c)[k := ch]\<rparr>) a"
proof -
  note R = cluster_relD [OF r]
  have "carried ((links c)[k := ch] ! x) \<subseteq> carried (links c ! x)" for x
    using advance_carries [OF assms(2)] by (cases "x = k"; cases "k < length (links c)") (auto simp: list_update_beyond)
  then have "link_rel carried (frame_dec env) (c\<lparr>links := (links c)[k := ch]\<rparr>) a"
    using R(4) unfolding link_rel_def by fastforce
  then show ?thesis using R by (simp add: cluster_rel_def shaped_def node_rel_def checker_rel_def)
qed

lemma collect_rel:
  assumes "rel c a" and "\<forall>(src, dst) \<in> set ps. src < size_of c \<and> dst < size_of c" and "collect env c ps = Some (c', as)"
  shows "rel c' a \<and> arrivals_ok (size_of c) a as \<and> size_of c' = size_of c \<and> c_cfg c' = c_cfg c"
  using assms
proof (induction ps arbitrary: c as)
  case Nil
  then show ?case by (simp add: arrivals_ok_def)
next
  case (Cons p ps)
  obtain src dst where p: "p = (src, dst)" by (cases p)
  have ps: "src < size_of c" "dst < size_of c" "\<forall>(src, dst) \<in> set ps. src < size_of c \<and> dst < size_of c"
    using Cons.prems(2) p by auto
  show ?case
  proof (cases "src = dst")
    case True
    then show ?thesis using Cons.IH [OF Cons.prems(1) ps(3)] Cons.prems(3) p by simp
  next
    case False
    let ?k = "src * size_of c + dst"
    obtain ch0 ch ds rest where ch0: "vec_get (links c) ?k = Some ch0"
      and adv: "ch_advance (channels env) ch0 (c_now c) = (ch, ds)"
      and run: "collect env (c\<lparr>links := (links c)[?k := ch]\<rparr>) ps = Some (c', rest)"
      and as: "as = map (\<lambda>d. (src, dst, d)) ds @ rest"
      using Cons.prems(3) p False by (auto simp: Let_def elim!: bind_SomeE split: prod.splits)
    have ch0': "ch0 = links c ! ?k" using vec_get_SomeD [OF ch0] by simp
    have r1: "rel (c\<lparr>links := (links c)[?k := ch]\<rparr>) a"
      by (rule advance_link_rel [OF Cons.prems(1) adv [unfolded ch0']])
    have "msg_sim src dst m (net a)" if d: "d \<in> set ds" "decode_message (frame_dec env) d = Inr m" for d m
    proof -
      obtain b where "b \<in> carried ch0" "decode_message (frame_dec env) b = Inr m"
        using arrival_sent [OF adv d] by blast
      then show ?thesis using cluster_relD(4) [OF Cons.prems(1)] ps(1,2) unfolding ch0' link_rel_def by blast
    qed
    then show ?thesis
      using Cons.IH [OF r1 _ run] ps as by (auto simp: arrivals_ok_def)
  qed
qed

lemma cl_propose_rel:
  assumes "rel c a" and "length cmd < 2 ^ 32" and "cl_propose env c cmd = Some (c', res)"
  shows "\<exists>b. rel c' b \<and> evolves (size_of c) a b \<and> size_of c' = size_of c \<and> c_cfg c' = c_cfg c"
proof (cases "leader c")
  case None
  then show ?thesis using assms evolves_refl by (auto simp: cl_propose_def)
next
  case (Some l)
  obtain n n' q where no: "vec_get (nodes c) l = Some (Some n)"
    and p: "propose (st_ops (backend env)) n (c_now c) cmd = Some (n', q)"
    and run: "(case q of Inl e \<Rightarrow> Some (set_node c l (Some n'), Inl e)
          | Inr (idx, out) \<Rightarrow> do {
              c \<leftarrow> count_up proposals_accepted proposals_accepted_update (set_node c l (Some n'));
              c \<leftarrow> route env c l out;
              Some (c, Inr (l, idx)) }) = Some (c', res)"
    using assms(3) Some by (auto simp: cl_propose_def Let_def elim!: bind_SomeE)
  have n: "nodes c ! l = Some n" and l: "l < size_of c"
    using vec_get_SomeD [OF no] cluster_relD(2) [OF assms(1)] by (simp_all add: shaped_def)
  note U = node_rel_up [OF cluster_relD(3) [OF assms(1) l] n]
  note F = propose_fits [OF p U(2) assms(2)]
  have fit: "stays_fit n n' (proposed_out q)"
    using F by (cases q) (auto simp: stays_fit_def)
  obtain b where b: "rel (set_node c l (Some n')) b" "outs_sim l (proposed_out q) b" "evolves (size_of c) a b"
    "\<forall>o1 \<in> set (proposed_out q). sizes_fit (message o1) \<and> to o1 < size_of c"
    using node_op_rel [OF assms(1) l n propose_sim [OF _ p] fit] by blast
  show ?thesis
  proof (cases q)
    case (Inl e)
    then show ?thesis using run b(1,3) by (auto simp: set_node_def size_of_def)
  next
    case (Inr io)
    obtain idx out where q: "q = Inr (idx, out)" using Inr by (cases io) auto
    obtain c1 where c1: "count_up proposals_accepted proposals_accepted_update (set_node c l (Some n')) = Some c1"
      "route env c1 l out = Some c'"
      using run q by (auto elim!: bind_SomeE)
    note C = count_up_rel [OF c1(1)]
    have "rel c1 b" using b(1) C(1) by blast
    then have "rel c' b \<and> size_of c' = size_of c1 \<and> c_cfg c' = c_cfg c1 \<and> nodes c' = nodes c1"
      using route_rel [OF _ _ _ _ c1(2)] b(2,4) l C(2) q by simp
    then show ?thesis using C b(3) by (auto simp: set_node_def)
  qed
qed

end

end
