(* ===== verification/Cluster_Check.thy ===== *)
theory Cluster_Check
  imports Cluster_Rel
begin

text \<open>
  The invariant checker of the simulated cluster on related states: which checks can fail.
\<close>

section \<open>Outcomes\<close>

text \<open>
  What holds of the cluster a computation leaves behind, and of the violation it reports, if
  any.
\<close>

definition after :: "(('s, 'ch) cluster \<Rightarrow> bool) \<Rightarrow> (('s, 'ch) cluster \<Rightarrow> violation \<Rightarrow> bool) \<Rightarrow> ('s, 'ch) outcome \<Rightarrow> bool" where
  "after P Q r \<longleftrightarrow> (\<forall>c res. r = Some (c, res) \<longrightarrow> P c \<and> (\<forall>e. res = Inl e \<longrightarrow> Q c e))"

lemma after_ok [simp]: "after P Q (Some (c, Inr u)) \<longleftrightarrow> P c" "after P Q None"
  "after P Q (Some (c, Inl e)) \<longleftrightarrow> P c \<and> Q c e"
  by (auto simp: after_def)

lemma afterD: "after P Q r \<Longrightarrow> r = Some (c, res) \<Longrightarrow> P c \<and> (\<forall>e. res = Inl e \<longrightarrow> Q c e)"
  by (simp add: after_def)

lemma after_go_on:
  assumes "after P Q r" and "\<And>c. P c \<Longrightarrow> after P Q (f c)"
  shows "after P Q (go_on r f)"
  using assms by (cases r) (auto simp: go_on_def after_def split: sum.splits)

lemma after_bind: "(\<And>x. m = Some x \<Longrightarrow> after P Q (f x)) \<Longrightarrow> after P Q (Option.bind m f)"
  by (cases m) auto

lemma after_each:
  assumes "\<And>c x. x \<in> set xs \<Longrightarrow> P c \<Longrightarrow> after P Q (f c x)" and "P c"
  shows "after P Q (check_each f c xs)"
  using assms by (induction xs arbitrary: c) (auto intro!: after_go_on)

section \<open>The checks\<close>

text \<open>What node \<open>j\<close> has stored.\<close>

definition stored :: "('s \<Rightarrow> persistent) \<Rightarrow> ('s, 'ch) cluster \<Rightarrow> nodeid \<Rightarrow> persistent" where
  "stored view c j = (case nodes c ! j of Some n \<Rightarrow> view (store n) | None \<Rightarrow> view (disks c ! j))"

text \<open>The only alarm there can be: a leader whose term another node has left behind.\<close>

definition stale_leader_alarm :: "('s \<Rightarrow> persistent) \<Rightarrow> ('s, 'ch) cluster \<Rightarrow> violation \<Rightarrow> bool" where
  "stale_leader_alarm view c v \<longleftrightarrow> (\<exists>i t k. v_what v = LacksCommitted i t k
     \<and> (\<exists>j < size_of c. t < p_term (stored view c j)))"

lemma stored_rel:
  assumes "node_rel view ok c a j"
  shows "tmx a j = unat (p_term (stored view c j))" and "lg a j = p_log (stored view c j)"
proof -
  have "tmx a j = unat (p_term (stored view c j)) \<and> lg a j = p_log (stored view c j)"
  proof (cases "nodes c ! j")
    case None
    then show ?thesis using assms by (simp add: node_rel_def stored_def down_rel_def)
  next
    case (Some n)
    note r = node_rel_up(1) [OF assms Some]
    show ?thesis
      using Some node_okD(2) [OF relatedD(1) [OF r]] node_simD(1,3) [OF relatedD(2) [OF r]] by (simp add: stored_def)
  qed
  then show "tmx a j = unat (p_term (stored view c j))" and "lg a j = p_log (stored view c j)" by blast+
qed

lemma rel_checker:
  assumes "cluster_rel view ok carried dec c a" and "checker_rel c' a"
    and "nodes c' = nodes c" and "disks c' = disks c" and "links c' = links c" and "c_cfg c' = c_cfg c"
  shows "cluster_rel view ok carried dec c' a" and "size_of c' = size_of c"
proof -
  show s: "size_of c' = size_of c" using assms(6) by (simp add: size_of_def)
  show "cluster_rel view ok carried dec c' a"
    using assms by (simp add: cluster_rel_def s shaped_def node_rel_def link_rel_def)
qed

text \<open>What was chosen and what a node holds of it agree.\<close>

lemma chosen_held:
  assumes inv: "rinv N a" and "holds N a i m" and "k < m" and "chosen N a u (Suc k) e"
  shows "k < length (lg a i) \<and> lg a i ! k = e"
proof -
  obtain t q where h: "committed N a t q" "m \<le> q" "take m (lg a i) = take m (llog a t)"
    using assms(2) unfolding holds_def by blast
  have len: "m \<le> length (llog a t)" using h(1,2) unfolding committed_def by simp
  have "chosen N a t (Suc k) (llog a t ! k)"
    unfolding chosen_def using h(1,2) assms(3) by (intro exI [of _ t] exI [of _ q]) simp
  then have "llog a t ! k = e" using chosen_unique [OF inv] assms(4) by blast
  then show ?thesis using take_eq_nthD [OF h(3) assms(3)] take_eq_lengthD [OF h(3) len] assms(3) by simp
qed

lemma chosen_later_term:
  assumes inv: "rinv N a" and "chosen N a u k e" and "\<And>v. v \<le> t \<Longrightarrow> \<not> chosen N a v k e"
  shows "\<exists>j < N. t < tmx a j"
proof -
  obtain v m where v: "v \<le> u" "committed N a v m" "0 < k" "k \<le> m" "llog a v ! (k - 1) = e"
    using assms(2) unfolding chosen_def by blast
  have "chosen N a v k e" unfolding chosen_def using v by blast
  then have "t < v" using assms(3) by (meson not_le)
  moreover obtain j where "ldr a v = Some j" using v(2) unfolding committed_def by blast
  then have "j < N \<and> v \<le> tmx a j" using inv unfolding rinv_def inv_ldr_def by blast
  ultimately show ?thesis by (meson less_le_trans)
qed

lemma checker_rel_commit:
  assumes "checker_rel c a" and "x = 0 \<or> holds (size_of c) a i (unat x)"
  shows "checker_rel (c\<lparr>max_commit_seen := (max_commit_seen c)[i := x]\<rparr>) a"
proof -
  note K = checker_relD [OF assms(1)]
  have "(max_commit_seen c)[i := x] ! j = 0 \<or> holds (size_of c) a j (unat ((max_commit_seen c)[i := x] ! j))"
    if "j < size_of c" "j < length (max_commit_seen c)" for j
    using K(4) [OF that] assms(2) that by (cases "j = i") auto
  then show ?thesis using assms(1) by (simp add: checker_rel_def)
qed

lemma checker_rel_term:
  assumes "checker_rel c a" and "unat x \<le> tmx a i"
  shows "checker_rel (c\<lparr>max_term_seen := (max_term_seen c)[i := x]\<rparr>) a"
proof -
  note K = checker_relD [OF assms(1)]
  have "unat ((max_term_seen c)[i := x] ! j) \<le> tmx a j" if "j < size_of c" "j < length (max_term_seen c)" for j
    using K(5) [OF that] assms(2) that by (cases "j = i") auto
  then show ?thesis using assms(1) by (simp add: checker_rel_def)
qed

context cluster_env
begin

definition good :: "nat \<Rightarrow> raft \<Rightarrow> ('s, 'ch) cluster \<Rightarrow> bool" where
  "good N a c \<longleftrightarrow> size_of c = N \<and> rel c a"

lemma check_leader_after:
  assumes r: "rel c a" and i: "i < size_of c" and n: "nodes c ! i = Some n"
  shows "after (good (size_of c) a) (stale_leader_alarm view) (check_leader c i n)"
proof (cases "role n = Leader")
  case False
  then show ?thesis using r by (auto simp: check_leader_def good_def)
next
  case True
  note R = cluster_relD [OF r] and K = checker_relD [OF cluster_relD(5) [OF r]]
  have ldr: "ldr a (unat (n_term n)) = Some i"
    by (rule related_leader(1) [OF R(1) node_rel_up(1) [OF R(3) [OF i] n] True])
  show ?thesis
  proof (cases "map_get (leaders_by_term c) (n_term n)")
    case None
    let ?c = "c\<lparr>leaders_by_term := map_insert (n_term n) i (leaders_by_term c)\<rparr>"
    have "checker_rel ?c a"
      using R(5) ldr btree.get_insert [OF K(2)] btree.ok_insert [OF K(2)] by (simp add: checker_rel_def)
    then have "rel ?c a" using rel_checker(1) [OF r] by simp
    then show ?thesis using True None by (auto simp: check_leader_def good_def)
  next
    case (Some p)
    then have "p = i" using K(1) ldr by simp
    then show ?thesis using True Some r by (auto simp: check_leader_def good_def)
  qed
qed

lemma check_term_after:
  assumes "good N a c" and i: "i < N"
  shows "after (good N a) (stale_leader_alarm view) (check_term c i)"
proof -
  have r: "rel c a" and N: "size_of c = N" using assms(1) unfolding good_def by blast+
  note R = cluster_relD [OF r] and K = checker_relD [OF cluster_relD(5) [OF r]]
  have i': "i < size_of c" using i N by simp
  show ?thesis
    unfolding check_term_def
  proof (intro after_bind)
    fix no assume no: "vec_get (nodes c) i = Some no"
    show "after (good N a) (stale_leader_alarm view) (case no of None \<Rightarrow> Some (c, Inr ())
     | Some n \<Rightarrow> do {
         m \<leftarrow> vec_get (max_term_seen c) i;
         if n_term n < m then Some (c, violation_at c (TermWentBackwards i m (n_term n)))
         else check_leader (c\<lparr>max_term_seen := (max_term_seen c)[i := n_term n]\<rparr>) i n })"
    proof (cases no)
      case (Some n)
      have n: "nodes c ! i = Some n" using vec_get_SomeD [OF no] Some by simp
      have t: "tmx a i = unat (n_term n)"
        using node_simD(1) [OF relatedD(2) [OF node_rel_up(1) [OF R(3) [OF i'] n]]] by simp
      show ?thesis
        unfolding Some option.case
      proof (intro after_bind)
        fix m assume m: "vec_get (max_term_seen c) i = Some m"
        have "unat m \<le> tmx a i" using K(5) [OF i'] vec_get_SomeD [OF m] by simp
        then have fwd: "\<not> n_term n < m" by (simp add: t word_less_nat_alt)
        let ?c = "c\<lparr>max_term_seen := (max_term_seen c)[i := n_term n]\<rparr>"
        have "checker_rel ?c a" by (rule checker_rel_term [OF R(5)]) (simp add: t)
        then have r': "rel ?c a" using rel_checker(1) [OF r] by simp
        have "after (good N a) (stale_leader_alarm view) (check_leader ?c i n)"
          using check_leader_after [OF r', of i n] i' n N by simp
        then show "after (good N a) (stale_leader_alarm view)
          (if n_term n < m then Some (c, violation_at c (TermWentBackwards i m (n_term n))) else check_leader ?c i n)"
          using fwd by simp
      qed
    qed (use assms(1) in simp)
  qed
qed

lemma check_entries_after:
  assumes "rel c a" and "\<And>j. j < length es \<Longrightarrow> \<exists>u. chosen (size_of c) a u (Suc (k + j)) (es ! j)"
    and "k \<le> length (c_committed c)"
  shows "after (\<lambda>c'. rel c' a \<and> size_of c' = size_of c \<and> nodes c' = nodes c \<and> max_commit_seen c' = max_commit_seen c)
    Q (check_entries c i k es)"
  using assms
proof (induction c i k es rule: check_entries.induct)
  case (2 c i k e es)
  note R = cluster_relD [OF "2.prems"(1)] and K = checker_relD [OF cluster_relD(5) [OF "2.prems"(1)]]
  obtain u where e: "chosen (size_of c) a u (Suc k) e" using "2.prems"(2) [of 0] by auto
  have es: "\<exists>u. chosen (size_of c) a u (Suc (Suc k + j)) (es ! j)" if "j < length es" for j
    using "2.prems"(2) [of "Suc j"] that by simp
  show ?case
  proof (cases "k < length (c_committed c)")
    case True
    then have "c_committed c ! k = e" using K(3) chosen_unique [OF R(1) _ e] by blast
    then show ?thesis using True "2.IH"(1) [OF True _ "2.prems"(1) es] by simp
  next
    case False
    then have k: "k = length (c_committed c)" using "2.prems"(3) by simp
    let ?c = "c\<lparr>c_committed := c_committed c @ [e]\<rparr>"
    have "checker_rel ?c a" using R(5) e k by (auto simp: checker_rel_def nth_append less_Suc_eq)
    then have r': "rel ?c a" using rel_checker(1) [OF "2.prems"(1)] by simp
    have "after (\<lambda>c'. rel c' a \<and> size_of c' = size_of ?c \<and> nodes c' = nodes ?c \<and> max_commit_seen c' = max_commit_seen ?c)
      Q (check_entries ?c i (Suc k) es)"
      using False es k by (intro "2.IH"(2) [OF _ r']) simp_all
    then show ?thesis using False by simp
  qed
qed simp

lemma check_commit_after:
  assumes "good N a c" and i: "i < N"
  shows "after (good N a) (stale_leader_alarm view) (check_commit c i)"
proof -
  have r: "rel c a" and N: "size_of c = N" using assms(1) unfolding good_def by blast+
  note R = cluster_relD [OF r]
  have i': "i < size_of c" using i N by simp
  show ?thesis
    unfolding check_commit_def
  proof (intro after_bind)
    fix no assume no: "vec_get (nodes c) i = Some no"
    show "after (good N a) (stale_leader_alarm view) (case no of None \<Rightarrow> Some (c, Inr ())
     | Some n \<Rightarrow>
         (let k = unat (commit_index n) in
          if k > length (n_log n) then Some (c, violation_at c (CommitBeyondLog i))
          else go_on (check_entries c i 0 (take k (n_log n))) (\<lambda>c. do {
            m \<leftarrow> vec_get (max_commit_seen c) i;
            Some (c\<lparr>max_commit_seen := (max_commit_seen c)[i := max m (as_word k)]\<rparr>, Inr ()) })))"
    proof (cases no)
      case (Some n)
      have n: "nodes c ! i = Some n" using vec_get_SomeD [OF no] Some by simp
      note rn = node_rel_up(1) [OF R(3) [OF i'] n]
      note S = node_simD [OF relatedD(2) [OF rn]]
      let ?k = "unat (commit_index n)"
      have len: "?k \<le> length (n_log n)"
        using commit_within_log [of "size_of c" a i] R(1) S(3,5) unfolding rinv_def by simp
      have ch: "\<exists>u. chosen (size_of c) a u (Suc (0 + j)) (take ?k (n_log n) ! j)" if "j < length (take ?k (n_log n))" for j
        using related_chosen [OF R(1) rn, of "Suc j"] that by auto
      have hold: "commit_index n = 0 \<or> holds (size_of c) a i ?k"
        using related_chosen [OF R(1) rn, of ?k] unat_gt_0 [of "commit_index n"] by auto
      let ?P = "\<lambda>c'. rel c' a \<and> size_of c' = size_of c \<and> nodes c' = nodes c \<and> max_commit_seen c' = max_commit_seen c"
      have "after (good N a) (stale_leader_alarm view) (do {
            m \<leftarrow> vec_get (max_commit_seen c') i;
            Some (c'\<lparr>max_commit_seen := (max_commit_seen c')[i := max m (as_word ?k)]\<rparr>, Inr ()) })" if P: "?P c'" for c'
      proof (intro after_bind)
        fix m assume m: "vec_get (max_commit_seen c') i = Some m"
        note K = checker_relD [OF cluster_relD(5) [OF conjunct1 [OF P]]]
        let ?c = "c'\<lparr>max_commit_seen := (max_commit_seen c')[i := max m (as_word ?k)]\<rparr>"
        have "max m (as_word ?k) = 0 \<or> holds (size_of c') a i (unat (max m (as_word ?k) :: u64))"
          using K(4) [of i] vec_get_SomeD [OF m] hold P i' by (auto simp: max_def)
        then have "checker_rel ?c a" by (rule checker_rel_commit [OF cluster_relD(5) [OF conjunct1 [OF P]]])
        then have "rel ?c a" using rel_checker(1) [OF conjunct1 [OF P]] by simp
        then show "after (good N a) (stale_leader_alarm view) (Some (?c, Inr ()))"
          using P N by (auto simp: good_def)
      qed
      moreover have "after ?P (\<lambda>_ _. False) (check_entries c i 0 (take ?k (n_log n)))"
        by (rule check_entries_after [OF r ch]) simp_all
      ultimately show ?thesis
        using len unfolding Some option.case Let_def
        by (cases "check_entries c i 0 (take ?k (n_log n))") (auto simp: go_on_def after_def split: sum.splits)
    qed (use assms(1) in simp)
  qed
qed

lemma lacking_SomeD:
  assumes "lacking n k es = Some m"
  shows "k \<le> m \<and> m < k + length es \<and> e_term (es ! (m - k)) < n_term n
    \<and> \<not> (m < length (n_log n) \<and> n_log n ! m = es ! (m - k))"
  using assms
proof (induction n k es rule: lacking.induct)
  case (2 n k e es)
  show ?case
  proof (cases "e_term e < n_term n \<and> k < length (n_log n) \<and> n_log n ! k = e")
    case True
    then have c: "\<not> n_term n \<le> e_term e" "(if k < length (n_log n) then Some (n_log n ! k) else None) = Some e" by auto
    have "lacking n (Suc k) es = Some m" using "2.prems" unfolding lacking.simps if_not_P [OF c(1)] c(2) by simp
    then have "Suc k \<le> m \<and> m < Suc k + length es \<and> e_term (es ! (m - Suc k)) < n_term n
      \<and> \<not> (m < length (n_log n) \<and> n_log n ! m = es ! (m - Suc k))" using "2.IH" [OF c(1)] c(2) by simp
    moreover have "(e # es) ! (m - k) = es ! (m - Suc k)" using calculation by (simp add: nth_Cons')
    ultimately show ?thesis by simp
  next
    case False
    then have "m = k" "e_term e < n_term n" using "2.prems" by (auto split: if_splits)
    then show ?thesis using False by auto
  qed
qed simp

lemma check_complete_after:
  assumes "good N a c" and i: "i < N"
  shows "after (good N a) (stale_leader_alarm view) (check_complete c i)"
proof -
  have r: "rel c a" and N: "size_of c = N" using assms(1) unfolding good_def by blast+
  note R = cluster_relD [OF r] and K = checker_relD [OF cluster_relD(5) [OF r]]
  have i': "i < size_of c" using i N by simp
  show ?thesis
    unfolding check_complete_def
  proof (intro after_bind)
    fix no assume no: "vec_get (nodes c) i = Some no"
    show "after (good N a) (stale_leader_alarm view) (case no of None \<Rightarrow> Some (c, Inr ())
     | Some n \<Rightarrow>
         (if role n \<noteq> Leader then Some (c, Inr ())
          else case lacking n 0 (c_committed c) of
            None \<Rightarrow> Some (c, Inr ())
          | Some k \<Rightarrow> Some (c, violation_at c (LacksCommitted i (n_term n) (k + 1)))))"
    proof (cases no)
      case (Some n)
      have n: "nodes c ! i = Some n" using vec_get_SomeD [OF no] Some by simp
      note rn = node_rel_up(1) [OF R(3) [OF i'] n]
      have alarm: "\<exists>j < size_of c. n_term n < p_term (stored view c j)"
        if lead: "role n = Leader" and lk: "lacking n 0 (c_committed c) = Some k" for k
      proof -
        note L = lacking_SomeD [OF lk]
        obtain u where u: "chosen (size_of c) a u (Suc k) (c_committed c ! k)" using K(3) L by auto
        have "\<not> chosen (size_of c) a v (Suc k) (c_committed c ! k)" if "v \<le> unat (n_term n)" for v
          using chosen_leader [OF R(1) rn lead _ that] L by fastforce
        then obtain j where "j < size_of c" "unat (n_term n) < tmx a j"
          using chosen_later_term [OF R(1) u] by blast
        then show ?thesis using stored_rel(1) [OF R(3)] by (auto simp: word_less_nat_alt)
      qed
      then show ?thesis
        unfolding Some option.case
        using assms(1) N
        by (auto simp: violation_at_def stale_leader_alarm_def split: option.split)
    qed (use assms(1) in simp)
  qed
qed

lemma find_rev_SomeD: "find P xs = Some x \<Longrightarrow> x \<in> set xs \<and> P x"
  by (induction xs) (auto split: if_splits)

lemma check_match_after:
  assumes "good N a c" and "x < N" and "y < N"
  shows "after (good N a) (stale_leader_alarm view) (check_match c (x, y))"
proof -
  have r: "rel c a" and N: "size_of c = N" using assms(1) unfolding good_def by blast+
  note R = cluster_relD [OF r]
  have "take (Suc i) (n_log m) = take (Suc i) (n_log n)"
    if n: "nodes c ! x = Some m" "nodes c ! y = Some n"
      and f: "find (\<lambda>i. e_term (n_log m ! i) = e_term (n_log n ! i)) (rev [0..<min (length (n_log m)) (length (n_log n))]) = Some i"
    for m n i
  proof -
    have lg: "lg a x = n_log m" "lg a y = n_log n"
      using node_simD(3) [OF relatedD(2) [OF node_rel_up(1) [OF R(3) n(1)]]]
        node_simD(3) [OF relatedD(2) [OF node_rel_up(1) [OF R(3) n(2)]]] assms(2,3) N by simp_all
    have "i < length (n_log m)" "i < length (n_log n)" "e_term (n_log m ! i) = e_term (n_log n ! i)"
      using find_rev_SomeD [OF f] by auto
    then show ?thesis using log_matching [OF R(1), of i x y] by (simp add: lg tm_eq_iff)
  qed
  then show ?thesis
    using assms(1) unfolding check_match_def case_prod_conv
    by (intro after_bind) (auto dest!: vec_get_SomeD split: option.split)
qed

lemma check_invariants_after:
  assumes "good N a c"
  shows "after (good N a) (stale_leader_alarm view) (check_invariants c)"
proof -
  have N: "size_of c = N" using assms by (simp add: good_def)
  have ids: "i < N" if "i \<in> set [0..<size_of c]" for i using that N by simp
  have pairs: "fst p < N \<and> snd p < N" if "p \<in> set (concat (map (\<lambda>a. map (\<lambda>b. (a, b)) [Suc a..<size_of c]) [0..<size_of c]))" for p
    using that N by auto
  have m: "after (good N a) (stale_leader_alarm view) (check_match c' p)"
    if "p \<in> set (concat (map (\<lambda>a. map (\<lambda>b. (a, b)) [Suc a..<size_of c]) [0..<size_of c]))" "good N a c'" for c' p
    using check_match_after [OF that(2), of "fst p" "snd p"] pairs [OF that(1)] by simp
  have same: "size_of c' = size_of c" if "good N a c'" for c' using that N by (simp add: good_def)
  show ?thesis
    unfolding check_invariants_def Let_def
    by (intro after_go_on after_each check_term_after check_commit_after check_complete_after m assms ids; (assumption | simp only: same)?)
qed

end

end
