(* ===== verification/Cluster_Safety.thy ===== *)
theory Cluster_Safety
  imports Cluster_Check Kv
begin

text \<open>
  The simulated cluster as a whole: every state its operations lead to is related to a state of
  the protocol, so the checker's verdicts can be read off the protocol's invariants.
\<close>

section \<open>Starting nodes\<close>

lemma node_new_cfg: "node_new st c s now = Some n \<Longrightarrow> cfg n = c"
  by (auto simp: node_new_def Let_def bind_eq_Some_conv dest!: reset_election_timer_SomeD split: if_splits)

lemma set_node_nodes: "nodes (set_node c i n) = (nodes c)[i := n]"
  by (simp add: set_node_def)

context cluster_env
begin

lemma boot_rel:
  assumes r: "rel c a" and i: "i < size_of c" and down: "nodes c ! i = None" and bt: "boot env c i = Some c'"
  shows "rel c' a" and "size_of c' = size_of c" and "\<exists>n. c' = set_node c i (Some n) \<and> n_log n = lg a i"
proof -
  note R = cluster_relD [OF r]
  define conf where "conf = (config_new i (size_of c) (cc_seed (c_cfg c)))
    \<lparr>election_timeout := cc_election_timeout (c_cfg c), heartbeat_interval := cc_heartbeat_interval (c_cfg c)\<rparr>"
  obtain d s n where d: "vec_get (disks c) i = Some d" and s: "st_open (backend env) d = Some s"
    and n: "node_new (st_ops (backend env)) conf s (c_now c) = Some n" and c': "c' = set_node c i (Some n)"
    using bt unfolding boot_def Let_def conf_def [symmetric] by (auto elim!: bind_SomeE)
  have dr: "down_rel view ok i (disks c ! i) a" using R(3) [OF i] down by (simp add: node_rel_def)
  then have v: "ok s" "view s = view (disks c ! i)"
    using open_ok [OF _ s] vec_get_SomeD [OF d] by (auto simp: down_rel_def)
  have conf: "cfg_id conf = i" "cluster_size conf = size_of c" "max_batch conf = 32"
    by (simp_all add: conf_def config_new_def)
  have rn: "related view ok (size_of c) i n a"
    using node_new_sim(1) [OF n v(1) conf(1,2)] dr R(2) by (simp add: v(2) down_rel_def shaped_def)
  note lg = node_simD(3) [OF relatedD(2) [OF rn]]
  have "node_rel view ok (set_node c i (Some n)) a i"
    using rn R(2,3) i conf(3) node_new_cfg [OF n]
    by (simp add: node_rel_def set_node_def shaped_def)
  moreover have "(set_node c i (Some n))\<lparr>disks := (disks c)[i := disks c ! i]\<rparr> = set_node c i (Some n)"
    by (simp add: set_node_def)
  ultimately show "rel c' a"
    using put_rel [OF r nsteps_refl i, where no = "Some n" and d = "disks c ! i"] by (simp add: c')
  show "size_of c' = size_of c" by (simp add: c')
  show "\<exists>n. c' = set_node c i (Some n) \<and> n_log n = lg a i" using c' lg by auto
qed

lemma boot_all_rel:
  assumes "rel c a" and "\<forall>i \<in> set is. i < size_of c \<and> nodes c ! i = None" and "distinct is" and "boot_all env c is = Some c'"
  shows "rel c' a \<and> size_of c' = size_of c"
  using assms
proof (induction "is" arbitrary: c)
  case (Cons i "is")
  obtain c1 where c1: "boot env c i = Some c1" "boot_all env c1 is = Some c'"
    using Cons.prems(4) by (auto elim: bind_SomeE)
  have i: "i < size_of c" "nodes c ! i = None" using Cons.prems(2) by simp_all
  note B = boot_rel [OF Cons.prems(1) i c1(1)]
  obtain n where n: "c1 = set_node c i (Some n)" using B(3) by blast
  have "\<forall>j \<in> set is. j < size_of c1 \<and> nodes c1 ! j = None"
    using Cons.prems(2,3) by (metis B(2) list.set_intros(2) distinct.simps(2) n nth_list_update_neq set_node_nodes)
  then show ?case using Cons.IH [OF B(1) _ _ c1(2)] Cons.prems(3) B(2) by simp
qed simp

lemma restart_rel:
  assumes r: "rel c a" and i: "i < size_of c" and rs: "restart env c i = Some (c', res)"
  shows "rel c' a" and "size_of c' = size_of c" and "res = Inr ()"
proof -
  note R = cluster_relD [OF r] and K = checker_relD [OF cluster_relD(5) [OF r]]
  obtain no where no: "vec_get (nodes c) i = Some no" and run: "(if no \<noteq> None then Some (c, Inr ())
     else do {
       c \<leftarrow> boot env c i;
       c \<leftarrow> count_up restarts restarts_update c;
       no \<leftarrow> vec_get (nodes c) i;
       n \<leftarrow> no;
       m \<leftarrow> vec_get (max_commit_seen c) i;
       let known = min (unat m) (length (c_committed c));
       if length (n_log n) < known \<or> take known (n_log n) \<noteq> take known (c_committed c)
       then Some (c, violation_at c (LostCommitted i m))
       else Some (c, Inr ()) }) = Some (c', res)"
    using rs unfolding restart_def by (rule bind_SomeE)
  have "rel c' a \<and> size_of c' = size_of c \<and> res = Inr ()"
  proof (cases no)
    case (Some n)
    then show ?thesis using run r by auto
  next
    case None
    then obtain c1 c2 where c1: "boot env c i = Some c1" and c2: "count_up restarts restarts_update c1 = Some c2"
      and run2: "do {
       no \<leftarrow> vec_get (nodes c2) i;
       n \<leftarrow> no;
       m \<leftarrow> vec_get (max_commit_seen c2) i;
       let known = min (unat m) (length (c_committed c2));
       if length (n_log n) < known \<or> take known (n_log n) \<noteq> take known (c_committed c2)
       then Some (c2, violation_at c2 (LostCommitted i m))
       else Some (c2, Inr ()) } = Some (c', res)"
      using run by (auto elim!: bind_SomeE)
    have down: "nodes c ! i = None" using vec_get_SomeD [OF no] None by simp
    note B = boot_rel [OF r i down c1] and U = count_up_rel [OF c2]
    obtain n where n: "c1 = set_node c i (Some n)" "n_log n = lg a i" using B(3) by blast
    have r2: "rel c2 a" and s2: "size_of c2 = size_of c" using count_up_kept [OF c2 B(1)] B(2) by simp_all
    have "nodes c2 ! i = Some n" "i < length (nodes c2)"
      using U(3) n(1) i R(2) by (simp_all add: set_node_def shaped_def size_of_def)
    then have "vec_get (nodes c2) i = Some (Some n)" by (simp add: vec_get_def)
    note run2 = run2 [unfolded this bind.simps]
    obtain m where m: "vec_get (max_commit_seen c2) i = Some m" and run3:
      "(let known = min (unat m) (length (c_committed c2)) in
       if length (n_log n) < known \<or> take known (n_log n) \<noteq> take known (c_committed c2)
       then Some (c2, violation_at c2 (LostCommitted i m))
       else Some (c2, Inr ())) = Some (c', res)"
      using run2 by (rule bind_SomeE)
    let ?k = "min (unat m) (length (c_committed c2))"
    note K2 = checker_relD [OF cluster_relD(5) [OF r2]]
    have held: "m = 0 \<or> holds (size_of c) a i (unat m)"
      using K2(4) [of i] vec_get_SomeD [OF m] i s2 by auto
    have each: "k < length (lg a i) \<and> lg a i ! k = c_committed c2 ! k" if k: "k < ?k" for k
    proof -
      have "m \<noteq> 0" using k by auto
      then have h: "holds (size_of c) a i (unat m)" using held by blast
      obtain u where "chosen (size_of c) a u (Suc k) (c_committed c2 ! k)" using K2(3) k s2 by auto
      then show ?thesis using chosen_held [OF R(1) h] k by simp
    qed
    have len: "\<not> length (lg a i) < ?k"
      using each [of "length (lg a i)"] by blast
    then have eq: "take ?k (lg a i) = take ?k (c_committed c2)"
      using each len not_less by (intro nth_take_lemma) (blast, simp, blast)
    then have "\<not> (length (lg a i) < ?k \<or> take ?k (lg a i) \<noteq> take ?k (c_committed c2))" using len by blast
    then have "Some (c2, Inr ()) = Some (c', res)" using run3 unfolding n(2) Let_def by (simp only: if_False)
    then show ?thesis using r2 s2 by simp
  qed
  then show "rel c' a" and "size_of c' = size_of c" and "res = Inr ()" by blast+
qed

lemma restart_all_rel:
  assumes "rel c a" and "\<forall>i \<in> set is. i < size_of c" and "restart_all env c is = Some (c', res)"
  shows "rel c' a \<and> size_of c' = size_of c \<and> res = Inr ()"
  using assms
proof (induction "is" arbitrary: c)
  case (Cons i "is")
  obtain c1 v where c1: "restart env c i = Some (c1, v)"
    and run: "(case v of Inl e \<Rightarrow> Some (c1, Inl e) | Inr _ \<Rightarrow> restart_all env c1 is) = Some (c', res)"
    using Cons.prems(3) by (auto simp: go_on_def elim!: bind_SomeE)
  have i: "i < size_of c" using Cons.prems(2) by simp
  note S = restart_rel [OF Cons.prems(1) i c1]
  have "restart_all env c1 is = Some (c', res)" using run S(3) by simp
  then show ?case using Cons.IH [OF S(1)] Cons.prems(2) S(2) by simp
qed simp

lemma quiesce_rel:
  assumes "rel c a" and "quiesce env c = Some (c', res)"
  shows "rel c' a \<and> size_of c' = size_of c \<and> res = Inr ()"
proof -
  let ?c = "heal (c\<lparr>c_cfg := (c_cfg c)\<lparr>cc_faults := no_faults\<rparr>\<rparr>)"
  have "rel ?c a" using assms(1) by (simp add: heal_rel)
  moreover have "size_of ?c = size_of c" by (simp add: heal_rel)
  ultimately show ?thesis
    using restart_all_rel [of ?c a "[0..<size_of ?c]" c' res] assms(2) by (simp add: quiesce_def Let_def)
qed

section \<open>One tick\<close>

lemma inject_crash_rel:
  assumes "rel c a" and "inject_crash c = Some c'"
  shows "\<exists>b. rel c' b \<and> evolves (size_of c) a b \<and> size_of c' = size_of c"
proof -
  obtain c1 hit where c1: "draw (f_crash (cc_faults (c_cfg c))) c = (c1, hit)" by fastforce
  note D = draw_rel [OF c1]
  have r1: "rel c1 a" using assms(1) D(1) by blast
  show ?thesis
  proof (cases hit)
    case True
    then obtain c2 i where c2: "draw_node c1 = Some (c2, i)" "crash c2 i = Some c'"
      using assms(2) c1 by (auto simp: inject_crash_def elim!: bind_SomeE)
    note E = draw_node_rel [OF c2(1)]
    have r2: "rel c2 a" using r1 E(1) by blast
    have "i < length (nodes c2)" using c2(2) by (auto simp: crash_def dest!: vec_get_SomeD elim: bind_SomeE)
    then have i: "i < size_of c2" using cluster_relD(2) [OF r2] by (simp add: shaped_def)
    note X = crash_rel [OF r2 i c2(2) storage_axioms]
    then show ?thesis using D(2) E(2) by auto
  next
    case False
    then show ?thesis using assms(2) c1 r1 D(2) by (auto simp: inject_crash_def)
  qed
qed

lemma inject_restart_rel:
  assumes "rel c a" and "inject_restart env c = Some (c', res)"
  shows "rel c' a \<and> size_of c' = size_of c \<and> res = Inr ()"
proof -
  obtain c1 hit where c1: "draw (f_restart (cc_faults (c_cfg c))) c = (c1, hit)" by fastforce
  note D = draw_rel [OF c1]
  have r1: "rel c1 a" using assms(1) D(1) by blast
  show ?thesis
  proof (cases hit)
    case True
    then obtain c2 i where c2: "draw_node c1 = Some (c2, i)" "restart env c2 i = Some (c', res)"
      using assms(2) c1 by (auto simp: inject_restart_def elim!: bind_SomeE)
    note E = draw_node_rel [OF c2(1)]
    have r2: "rel c2 a" using r1 E(1) by blast
    have "i < length (nodes c2)" using c2(2) by (auto simp: restart_def dest!: vec_get_SomeD elim: bind_SomeE)
    then have i: "i < size_of c2" using cluster_relD(2) [OF r2] by (simp add: shaped_def)
    show ?thesis using restart_rel [OF r2 i c2(2)] D(2) E(2) by simp
  next
    case False
    then show ?thesis using assms(2) c1 r1 D(2) by (auto simp: inject_restart_def)
  qed
qed

lemma inject_partition_rel:
  assumes "rel c a" and "inject_partition c = Some c'"
  shows "rel c' a \<and> size_of c' = size_of c"
proof -
  obtain c1 hit where c1: "draw (f_partition (cc_faults (c_cfg c))) c = (c1, hit)" by fastforce
  obtain c2 side where c2: "draw_sides (size_of c1) c1 = (c2, side)" by fastforce
  note D = draw_rel [OF c1] and E = draw_sides_rel [OF c2]
  have r1: "rel c1 a" using assms(1) D(1) by blast
  then have r2: "rel c2 a" using E by blast
  show ?thesis
  proof (cases hit)
    case True
    then have "cl_partition c2 side = Some c'" using assms(2) c1 c2 by (simp add: inject_partition_def)
    note P = cl_partition_rel [OF this]
    have "rel c' a" using P r2 by blast
    moreover have "size_of c' = size_of c2" "size_of c2 = size_of c1" using P E by blast+
    ultimately show ?thesis using D(2) by simp
  next
    case False
    then show ?thesis using assms(2) c1 r1 D(2) by (simp add: inject_partition_def)
  qed
qed

lemma inject_heal_rel:
  assumes "rel c a"
  shows "rel (inject_heal c) a \<and> size_of (inject_heal c) = size_of c"
proof -
  obtain c1 hit where c1: "draw (f_heal (cc_faults (c_cfg c))) c = (c1, hit)" by fastforce
  note D = draw_rel [OF c1]
  have "rel c1 a" using assms(1) D(1) by blast
  then show ?thesis using c1 D(2) by (auto simp: inject_heal_def heal_rel)
qed

end

lemma length_decimal: "k < 10 ^ Suc d \<Longrightarrow> length (decimal k) \<le> Suc d"
proof (induction d arbitrary: k)
  case 0
  then show ?case by (simp add: decimal.simps)
next
  case (Suc d)
  have "k div 10 < 10 ^ Suc d" using Suc.prems by (simp add: less_mult_imp_div_less)
  then have "length (decimal (k div 10)) \<le> Suc d" by (rule Suc.IH)
  then show ?case by (subst decimal.simps) simp
qed

lemma command_bytes_small: "length (command_bytes k) < 2 ^ 32"
proof -
  have "unat k < 10 ^ Suc 19" using unat_lt_2_64 [of k] by simp
  from length_decimal [OF this] show ?thesis by (simp add: command_bytes_def)
qed

context cluster_env
begin

lemma inject_propose_rel:
  assumes "rel c a" and "inject_propose env c = Some c'"
  shows "\<exists>b. rel c' b \<and> evolves (size_of c) a b \<and> size_of c' = size_of c"
proof -
  obtain c1 hit where c1: "draw (f_propose (cc_faults (c_cfg c))) c = (c1, hit)" by fastforce
  note D = draw_rel [OF c1]
  have r1: "rel c1 a" using assms(1) D(1) by blast
  show ?thesis
  proof (cases hit)
    case True
    then obtain c2 q where c2: "cl_propose env c1 (command_bytes (next_command c1)) = Some (c2, q)"
      and run: "(case q of Inl _ \<Rightarrow> Some c2
        | Inr _ \<Rightarrow> do { k \<leftarrow> add64 (next_command c2) 1; Some (c2\<lparr>next_command := k\<rparr>) }) = Some c'"
      using assms(2) c1 by (auto simp: inject_propose_def elim!: bind_SomeE)
    have c': "c' = c2 \<or> (\<exists>k. c' = c2\<lparr>next_command := k\<rparr>)"
      using run by (cases q) (auto elim!: bind_SomeE)
    obtain b where b: "rel c2 b" "evolves (size_of c1) a b" "size_of c2 = size_of c1"
      using cl_propose_rel [OF r1 command_bytes_small c2] by blast
    have "rel c' b" "size_of c' = size_of c" using c' b(1,3) D(2) by auto
    then show ?thesis using b(2) D(2) by auto
  next
    case False
    then show ?thesis using assms(2) c1 r1 D(2) by (auto simp: inject_propose_def)
  qed
qed

text \<open>
  The state a tick leaves behind is related to a later protocol state, and the only violation
  it can report is the one of a leader left behind.
\<close>

definition next_good :: "('s, 'ch) cluster \<Rightarrow> raft \<Rightarrow> ('s, 'ch) cluster \<Rightarrow> bool" where
  "next_good c a c' \<longleftrightarrow> (\<exists>b. rel c' b \<and> evolves (size_of c) a b \<and> size_of c' = size_of c)"

lemma next_goodI: "rel c' b \<Longrightarrow> evolves (size_of c) a b \<Longrightarrow> size_of c' = size_of c \<Longrightarrow> next_good c a c'"
  unfolding next_good_def by blast

lemma next_good_trans: "next_good c1 b c' \<Longrightarrow> evolves (size_of c) a b \<Longrightarrow> size_of c1 = size_of c \<Longrightarrow> next_good c a c'"
  unfolding next_good_def using evolves_trans by metis

lemma after_mono: "after P Q r \<Longrightarrow> (\<And>c. P c \<Longrightarrow> P' c) \<Longrightarrow> after P' Q r"
  by (auto simp: after_def)

lemma after_events_rel:
  assumes "rel c a"
  shows "after (next_good c a) (stale_leader_alarm view) (after_events env c)"
  unfolding after_events_def
proof (intro after_bind)
  fix c1 assume "inject_partition c = Some c1"
  note P = inject_partition_rel [OF assms this]
  have h: "rel (inject_heal c1) a" "size_of (inject_heal c1) = size_of c" using inject_heal_rel [of c1 a] P by simp_all
  fix c2 assume "inject_propose env (inject_heal c1) = Some c2"
  from inject_propose_rel [OF h(1) this] obtain b where b: "rel c2 b" "evolves (size_of c) a b" "size_of c2 = size_of c"
    unfolding h(2) by blast
  fix x assume x: "collect env c2 (List.product [0..<size_of c2] [0..<size_of c2]) = Some x"
  obtain c3 as where x': "x = (c3, as)" by (cases x)
  have c3: "rel c3 b" "arrivals_ok (size_of c2) b as" "size_of c3 = size_of c2"
    using collect_rel [OF b(1) _ x [unfolded x']] by auto
  have arr: "arrivals_ok (size_of c3) b as" using c3(2,3) by simp
  show "after (next_good c a) (stale_leader_alarm view) (case x of (c, arrivals) \<Rightarrow> do {
     c \<leftarrow> deliver_all env c arrivals;
     c \<leftarrow> timers env c [0..<size_of c];
     check_invariants c })"
    unfolding x' case_prod_conv
  proof (intro after_bind)
    fix c4 assume "deliver_all env c3 as = Some c4"
    from deliver_all_rel [OF c3(1) arr this] obtain d where d: "rel c4 d" "evolves (size_of c3) b d" "size_of c4 = size_of c3"
      by blast
    fix c5 assume "timers env c4 [0..<size_of c4] = Some c5"
    from timers_rel [OF d(1) _ this] obtain e where e: "rel c5 e" "evolves (size_of c4) d e" "size_of c5 = size_of c4"
      by auto
    have ev: "evolves (size_of c) a e"
      using evolves_trans [OF b(2)] evolves_trans [of "size_of c" b d e] d(2,3) e(2) c3(3) b(3) by simp
    have s5: "size_of c5 = size_of c" using e(3) d(3) c3(3) b(3) by simp
    have "after (good (size_of c) e) (stale_leader_alarm view) (check_invariants c5)"
      by (rule check_invariants_after) (simp add: good_def e(1) s5)
    then show "after (next_good c a) (stale_leader_alarm view) (check_invariants c5)"
      by (rule after_mono) (auto simp: good_def intro: next_goodI [OF _ ev])
  qed
qed

lemma cl_step_rel:
  assumes "rel c a"
  shows "after (next_good c a) (stale_leader_alarm view) (cl_step env c)"
  unfolding cl_step_def
proof (intro after_bind)
  fix t c1 assume c1: "inject_crash (c\<lparr>c_now := t\<rparr>) = Some c1"
  have "rel (c\<lparr>c_now := t\<rparr>) a" using assms by simp
  from inject_crash_rel [OF this c1] obtain b where b: "rel c1 b" "evolves (size_of c) a b" "size_of c1 = size_of c" by auto
  show "after (next_good c a) (stale_leader_alarm view) (go_on (inject_restart env c1) (after_events env))"
  proof (cases "inject_restart env c1")
    case (Some x)
    obtain c2 v where x: "x = (c2, v)" by (cases x)
    note R = inject_restart_rel [OF b(1) Some [unfolded x]]
    have "after (next_good c2 b) (stale_leader_alarm view) (after_events env c2)"
      using after_events_rel R by blast
    then have "after (next_good c a) (stale_leader_alarm view) (after_events env c2)"
    proof (rule after_mono)
      fix c3 assume "next_good c2 b c3"
      then show "next_good c a c3" by (rule next_good_trans [OF _ b(2)]) (use R b(3) in simp)
    qed
    then show ?thesis using Some x R by (simp add: go_on_def)
  qed (simp add: go_on_def)
qed

end

section \<open>Reachable states\<close>

text \<open>What lies at the place of a node.\<close>

definition left_behind :: "('s, 'ch) cluster \<Rightarrow> nodeid \<Rightarrow> 's" where
  "left_behind c i = (case nodes c ! i of Some n \<Rightarrow> store n | None \<Rightarrow> disks c ! i)"

text \<open>
  One call of a method of the cluster, with any outcome, or a new cluster over the state the
  old one left: every node, every link and the checker start afresh.
\<close>

inductive cl_op :: "('s, 'ch, 'e) env \<Rightarrow> ('s, 'ch) cluster \<Rightarrow> ('s, 'ch) cluster \<Rightarrow> bool" for env where
  op_step: "cl_step env c = Some (c', r) \<Longrightarrow> cl_op env c c'"
| op_propose: "cl_propose env c cmd = Some (c', q) \<Longrightarrow> length cmd < 2 ^ 32 \<Longrightarrow> cl_op env c c'"
| op_crash: "crash c i = Some c' \<Longrightarrow> cl_op env c c'"
| op_restart: "restart env c i = Some (c', r) \<Longrightarrow> cl_op env c c'"
| op_partition: "cl_partition c side = Some c' \<Longrightarrow> cl_op env c c'"
| op_isolate: "isolate c i = Some c' \<Longrightarrow> cl_op env c c'"
| op_heal: "cl_op env c (heal c)"
| op_quiesce: "quiesce env c = Some (c', r) \<Longrightarrow> cl_op env c c'"
| op_rebuild: "cluster_new (env\<lparr>backend := (backend env)\<lparr>st_initial := left_behind c\<rparr>\<rparr>) conf = Some c' \<Longrightarrow>
    cc_n conf = size_of c \<Longrightarrow> cl_op env c c'"

definition later :: "('s, 'ch, 'e) env \<Rightarrow> ('s, 'ch) cluster \<Rightarrow> ('s, 'ch) cluster \<Rightarrow> bool" where
  "later env = (cl_op env)\<^sup>*\<^sup>*"

definition cl_reach :: "('s, 'ch, 'e) env \<Rightarrow> cluster_config \<Rightarrow> ('s, 'ch) cluster \<Rightarrow> bool" where
  "cl_reach env conf c \<longleftrightarrow> (\<exists>c0. cluster_new env conf = Some c0 \<and> later env c0 c)"

text \<open>Every node starts on an empty storage.\<close>

definition fresh_backend :: "('s, 'ch, 'e) env \<Rightarrow> ('s \<Rightarrow> persistent) \<Rightarrow> ('s \<Rightarrow> bool) \<Rightarrow> bool" where
  "fresh_backend env view ok \<longleftrightarrow>
     (\<forall>i. ok (st_initial (backend env) i) \<and> view (st_initial (backend env) i) = empty_persistent)"

lemma later_refl [simp]: "later env c c"
  by (simp add: later_def)

lemma later_op: "later env c c1 \<Longrightarrow> cl_op env c1 c' \<Longrightarrow> later env c c'"
  unfolding later_def by (rule rtranclp.rtrancl_into_rtrancl)

lemma later_trans: "later env c c1 \<Longrightarrow> later env c1 c' \<Longrightarrow> later env c c'"
  unfolding later_def by (rule rtranclp_trans)

lemma reach_new: "cluster_new env conf = Some c \<Longrightarrow> cl_reach env conf c"
  unfolding cl_reach_def using later_refl by blast

lemma reach_later: "cl_reach env conf c \<Longrightarrow> later env c c' \<Longrightarrow> cl_reach env conf c'"
  unfolding cl_reach_def using later_trans by blast

lemma run_later: "cl_run env k c = Some (c', r) \<Longrightarrow> later env c c'"
proof (induction k arbitrary: c)
  case (Suc k)
  obtain c1 v where c1: "cl_step env c = Some (c1, v)"
    and run: "(case v of Inl e \<Rightarrow> Some (c1, Inl e) | Inr _ \<Rightarrow> cl_run env k c1) = Some (c', r)"
    using Suc.prems by (auto simp: go_on_def elim!: bind_SomeE)
  have l: "later env c c1" using later_op [OF later_refl op_step [OF c1]] .
  show ?case
  proof (cases v)
    case (Inr u)
    then have "cl_run env k c1 = Some (c', r)" using run by simp
    then show ?thesis using Suc.IH later_trans [OF l] by blast
  qed (use run l in auto)
qed simp

context cluster_env
begin

lemma cluster_new_rel:
  assumes "cluster_new (env\<lparr>backend := (backend env)\<lparr>st_initial := f\<rparr>\<rparr>) conf = Some c"
    and "rinv (cc_n conf) a" and "\<forall>i < cc_n conf. down_rel view ok i (f i) a \<and> (\<forall>e \<in> set (lg a i). small e)"
  shows "rel c a \<and> size_of c = cc_n conf"
proof -
  let ?env = "env\<lparr>backend := (backend env)\<lparr>st_initial := f\<rparr>\<rparr>"
  let ?n = "cc_n conf"
  have int: "int ?n * int ?n < 2 ^ 64" using assms(1) by (auto simp: cluster_new_def Let_def split: if_splits)
  obtain ls where ls: "map_opt (\<lambda>i. do {
           k \<leftarrow> add64 (as_word i) 1;
           Some (ch_new (channels env) (xor (cc_seed conf) (k * 0xD6E8FEB86659FD93)) (cc_profile conf)) })
           [0..<?n * ?n] = Some ls"
    and all: "boot_all ?env
          \<lparr>c_cfg = conf, c_now = 0, c_rng = rng_new (xor (cc_seed conf) 0xA5A5A5A55A5A5A5A), links = ls,
           blocked = replicate (?n * ?n) False, nodes = replicate ?n None,
           disks = map f [0..<?n], c_stats = stats_default, next_command = 0,
           leaders_by_term = [], c_committed = [], max_commit_seen = replicate ?n 0,
           max_term_seen = replicate ?n 0\<rparr> [0..<?n] = Some c"
    using assms(1) int by (auto simp: cluster_new_def Let_def elim!: bind_SomeE)
  let ?c = "\<lparr>c_cfg = conf, c_now = 0, c_rng = rng_new (xor (cc_seed conf) 0xA5A5A5A55A5A5A5A), links = ls,
           blocked = replicate (?n * ?n) False, nodes = replicate ?n None,
           disks = map f [0..<?n], c_stats = stats_default, next_command = 0,
           leaders_by_term = [], c_committed = [], max_commit_seen = replicate ?n 0,
           max_term_seen = replicate ?n 0\<rparr>"
  have n64: "?n < 2 ^ 64"
  proof (rule ccontr)
    assume "\<not> ?n < 2 ^ 64"
    then have "(2 ^ 64 :: int) \<le> int ?n" by simp
    then have "(2 ^ 64 :: int) * 1 \<le> int ?n * int ?n" by (intro mult_mono) simp_all
    then show False using int by simp
  qed
  have len: "length ls = ?n * ?n" using ls by (simp add: map_opt_Some_iff)
  have new: "carried l = {}" if l: "l \<in> set ls" for l
  proof -
    obtain s p where "l = ch_new (channels env) s p" using map_opt_in_setD [OF ls l] by (auto elim!: bind_SomeE)
    then show ?thesis by (simp add: new_carries)
  qed
  have "i * ?n + j < length ls" if "i < ?n" "j < ?n" for i j
  proof -
    have "i * ?n + j < Suc i * ?n" using that by simp
    also have "\<dots> \<le> ?n * ?n" using that by (intro mult_right_mono) simp_all
    finally show ?thesis by (simp add: len)
  qed
  then have "link_rel carried (frame_dec env) ?c a"
    using new by (auto simp: link_rel_def size_of_def)
  moreover have "checker_rel ?c a" by (simp add: checker_rel_def size_of_def map_ok_def)
  ultimately have "rel ?c a"
    using assms(2,3) len n64 by (simp add: cluster_rel_def shaped_def node_rel_def size_of_def)
  moreover have "boot_all ?env d is = boot_all env d is" for d "is"
  proof (induction "is" arbitrary: d)
    case (Cons i "is")
    have "boot ?env d i = boot env d i" by (simp add: boot_def)
    then show ?case using Cons.IH by simp
  qed simp
  ultimately show ?thesis
    using boot_all_rel [of ?c a "[0..<?n]" c] all by (simp add: size_of_def)
qed

text \<open>Taking every node down.\<close>

lemma take_down:
  assumes "rel c a" and "k \<le> size_of c"
  shows "\<exists>c' b. rel c' b \<and> evolves (size_of c) a b \<and> size_of c' = size_of c
    \<and> (\<forall>i < k. nodes c' ! i = None) \<and> (\<forall>i < size_of c. left_behind c' i = left_behind c i)"
  using assms(2)
proof (induction k)
  case 0
  then show ?case using assms(1) evolves_refl by blast
next
  case (Suc k)
  then obtain c1 b where c1: "rel c1 b" "evolves (size_of c) a b" "size_of c1 = size_of c"
    "\<forall>i < k. nodes c1 ! i = None" "\<forall>i < size_of c. left_behind c1 i = left_behind c i" by auto
  show ?case
  proof (cases "nodes c1 ! k")
    case None
    then show ?thesis using c1 by (intro exI [of _ c1] exI [of _ b]) (simp add: less_Suc_eq)
  next
    case (Some n)
    have k: "k < size_of c1" using Suc.prems c1(3) by simp
    have len: "length (nodes c1) = size_of c1" "length (disks c1) = size_of c1"
      using cluster_relD(2) [OF c1(1)] by (simp_all add: shaped_def)
    let ?c = "(set_node c1 k None)\<lparr>disks := (disks c1)[k := store n]\<rparr>"
    obtain d where d: "rel ?c d" "evolves (size_of c1) b d"
      using crash_node_rel [OF c1(1) k Some storage_axioms] by blast
    have "nodes ?c ! i = None" if "i < Suc k" for i
      using that c1(4) k len by (cases "i = k") (simp_all add: set_node_def)
    moreover have "left_behind ?c i = left_behind c i" if "i < size_of c" for i
    proof -
      have "left_behind ?c i = left_behind c1 i"
        using k len Some by (cases "i = k") (simp_all add: left_behind_def set_node_def split: option.split)
      then show ?thesis using c1(5) that by simp
    qed
    moreover have "evolves (size_of c) a d" using evolves_trans [OF c1(2)] d(2) c1(3) by simp
    moreover have "size_of ?c = size_of c" using c1(3) by simp
    ultimately show ?thesis using d(1) by blast
  qed
qed

lemma cl_op_rel:
  assumes "cl_op env c c'" and r: "rel c a"
  shows "next_good c a c'"
  using assms(1)
proof (cases rule: cl_op.cases)
  case (op_step r)
  then show ?thesis using afterD [OF cl_step_rel [OF assms(2)]] by blast
next
  case (op_propose cmd q)
  then show ?thesis using cl_propose_rel [OF r] by (blast intro: next_goodI)
next
  case (op_crash i)
  then have "i < length (nodes c)" by (auto simp: crash_def dest!: vec_get_SomeD elim: bind_SomeE)
  then have i: "i < size_of c" using cluster_relD(2) [OF r] by (simp add: shaped_def)
  note X = crash_rel [OF r i op_crash storage_axioms]
  then show ?thesis by (blast intro: next_goodI)
next
  case (op_restart i v)
  then have "i < length (nodes c)" by (auto simp: restart_def dest!: vec_get_SomeD elim: bind_SomeE)
  then have i: "i < size_of c" using cluster_relD(2) [OF r] by (simp add: shaped_def)
  show ?thesis using restart_rel [OF r i op_restart] by (intro next_goodI [of _ a]) simp_all
next
  case (op_partition side)
  note P = cl_partition_rel [OF op_partition]
  have "rel c' a" "size_of c' = size_of c" using P r by blast+
  then show ?thesis by (intro next_goodI [of _ a]) simp_all
next
  case (op_isolate i)
  note P = isolate_rel [OF op_isolate]
  have "rel c' a" "size_of c' = size_of c" using P r by blast+
  then show ?thesis by (intro next_goodI [of _ a]) simp_all
next
  case op_heal
  then show ?thesis using r by (intro next_goodI [of _ a]) (simp_all add: heal_rel)
next
  case (op_quiesce v)
  then show ?thesis using quiesce_rel [OF r op_quiesce] by (intro next_goodI [of _ a]) simp_all
next
  case (op_rebuild conf)
  obtain c1 b where c1: "rel c1 b" "evolves (size_of c) a b" "size_of c1 = size_of c"
    "\<forall>i < size_of c. nodes c1 ! i = None" "\<forall>i < size_of c. left_behind c1 i = left_behind c i"
    using take_down [OF r order_refl] by blast
  have "down_rel view ok i (left_behind c i) b \<and> (\<forall>e \<in> set (lg b i). small e)" if "i < size_of c" for i
  proof -
    have "left_behind c i = disks c1 ! i" using c1(4,5) that by (simp add: left_behind_def flip: c1(5))
    then show ?thesis using cluster_relD(3) [OF c1(1), of i] that c1(3,4) by (simp add: node_rel_def)
  qed
  then have "rel c' b \<and> size_of c' = cc_n conf"
    using cluster_relD(1) [OF c1(1)] c1(3) op_rebuild(2) by (intro cluster_new_rel [OF op_rebuild(1)]) simp_all
  then show ?thesis using c1(2) op_rebuild(2) by (intro next_goodI [of _ b]) simp_all
qed

lemma later_rel:
  assumes "later env c c'" and "rel c a"
  shows "next_good c a c'"
  using assms(1) unfolding later_def
proof (induction rule: rtranclp_induct)
  case base
  then show ?case using assms(2) by (intro next_goodI [of _ a]) simp_all
next
  case (step c1 c')
  obtain b where b: "rel c1 b" "evolves (size_of c) a b" "size_of c1 = size_of c"
    using step.IH unfolding next_good_def by blast
  show ?case by (rule next_good_trans [OF cl_op_rel [OF step.hyps(2) b(1)] b(2,3)])
qed

lemma reach_rel:
  assumes "cl_reach env conf c" and "fresh_backend env view ok"
  shows "\<exists>a. rel c a"
proof -
  obtain c0 where c0: "cluster_new env conf = Some c0" "later env c0 c"
    using assms(1) unfolding cl_reach_def by blast
  have eq: "env = env\<lparr>backend := (backend env)\<lparr>st_initial := st_initial (backend env)\<rparr>\<rparr>" by simp
  have "down_rel view ok i (st_initial (backend env) i) init_raft \<and> (\<forall>e \<in> set (lg init_raft i). small e)" for i
    using assms(2) by (simp add: fresh_backend_def down_rel_def init_raft_def empty_persistent_def)
  then have "rel c0 init_raft"
    using cluster_new_rel [of "st_initial (backend env)" conf c0 init_raft] c0(1) rinv_init by simp
  then show ?thesis using later_rel [OF c0(2)] unfolding next_good_def by blast
qed

end

section \<open>Properties\<close>

text \<open>
  C9: What the checker can report.  Whatever the channels do and whichever nodes crash, a tick
  of a reachable cluster reports no violation of term monotonicity, election safety,
  state-machine safety or log matching; the only thing it can report is that a leader lacks a
  committed entry, and then some node has stored a later term than that leader's, so the leader
  has been deposed.  A restart, and ending the chaos, never report lost entries.
\<close>

theorem checker_reports:
  assumes "cluster_env env view ok carried" and "fresh_backend env view ok" and "cl_reach env conf c"
  shows "(cl_step env c = Some (c1, Inl v) \<longrightarrow> stale_leader_alarm view c1 v)
    \<and> (i < size_of c \<longrightarrow> restart env c i = Some (c2, r) \<longrightarrow> r = Inr ())
    \<and> (quiesce env c = Some (c3, q) \<longrightarrow> q = Inr ())"
proof -
  obtain a where a: "cluster_rel view ok carried (frame_dec env) c a"
    using cluster_env.reach_rel [OF assms(1,3,2)] by blast
  show ?thesis
    using afterD [OF cluster_env.cl_step_rel [OF assms(1) a]] cluster_env.restart_rel(3) [OF assms(1) a]
      cluster_env.quiesce_rel [OF assms(1) a] by blast
qed

text \<open>
  C7: Committed entries are kept.  What the checker has recorded as committed in a reachable
  cluster and what it records at any later time, whatever happens between, the replacement of
  the whole cluster by a new one over the same storages included, agree.
\<close>

theorem committed_kept:
  assumes "cluster_env env view ok carried" and "fresh_backend env view ok" and "cl_reach env conf c"
    and "later env c c'" and "k < length (c_committed c)" and "k < length (c_committed c')"
  shows "c_committed c' ! k = c_committed c ! k"
proof -
  obtain a where a: "cluster_rel view ok carried (frame_dec env) c a"
    using cluster_env.reach_rel [OF assms(1,3,2)] by blast
  obtain b where b: "cluster_rel view ok carried (frame_dec env) c' b" "evolves (size_of c) a b" "size_of c' = size_of c"
    using cluster_env.later_rel [OF assms(1,4) a] cluster_env.next_good_def [OF assms(1)] by blast
  note R = cluster_relD [OF a] and R' = cluster_relD [OF b(1)]
  obtain u where u: "chosen (size_of c) a u (Suc k) (c_committed c ! k)"
    using checker_relD(3) [OF R(5) assms(5)] by blast
  obtain v where "chosen (size_of c') b v (Suc k) (c_committed c' ! k)"
    using checker_relD(3) [OF R'(5) assms(6)] by blast
  moreover have "chosen (size_of c') b u (Suc k) (c_committed c ! k)"
    using evolves_chosen [OF b(2) R(1) u] b(3) by simp
  ultimately show ?thesis using chosen_unique [OF R'(1)] by blast
qed

text \<open>
  C8: Replicas agree.  In a reachable cluster the committed logs of two live nodes are the
  same as far as both go; nodes with the same commit index have the same key-value state.
\<close>

theorem replicas_agree:
  assumes "cluster_env env view ok carried" and "fresh_backend env view ok" and "cl_reach env conf c"
    and "i < size_of c" and "nodes c ! i = Some n" and "j < size_of c" and "nodes c ! j = Some m"
    and "commit_index n \<le> commit_index m"
  shows "take (unat (commit_index n)) (n_log n) = take (unat (commit_index n)) (n_log m)
    \<and> (commit_index n = commit_index m \<longrightarrow>
        replay (take (unat (commit_index n)) (n_log n)) = replay (take (unat (commit_index m)) (n_log m)))"
proof -
  obtain a where a: "cluster_rel view ok carried (frame_dec env) c a"
    using cluster_env.reach_rel [OF assms(1,3,2)] by blast
  note R = cluster_relD [OF a]
  note rn = node_rel_up(1) [OF R(3) [OF assms(4)] assms(5)] and rm = node_rel_up(1) [OF R(3) [OF assms(6)] assms(7)]
  let ?k = "unat (commit_index n)"
  have le: "?k \<le> unat (commit_index m)" using assms(8) by (simp add: word_le_nat_alt)
  have inv: "inv_commit (size_of c) a" using R(1) unfolding rinv_def by blast
  have len: "?k \<le> length (n_log n)" "unat (commit_index m) \<le> length (n_log m)"
    using commit_within_log [OF inv] node_simD(3,5) [OF relatedD(2) [OF rn]] node_simD(3,5) [OF relatedD(2) [OF rm]]
    by metis+
  have "n_log n ! k = n_log m ! k" if "k < ?k" for k
    using related_chosen [OF R(1) rn, of "Suc k"] related_chosen [OF R(1) rm, of "Suc k"] that le
      chosen_unique [OF R(1)] by fastforce
  then have "take ?k (n_log n) = take ?k (n_log m)" using len le by (intro nth_take_lemma) simp_all
  then show ?thesis by (cases "commit_index n = commit_index m") simp_all
qed

end
