(* ===== verification/Cluster_Clock.thy ===== *)
theory Cluster_Clock
  imports Cluster_Safety
begin

text \<open>
  Virtual time: every tick moves the clock of the cluster by one and nothing else moves it, a
  violation is dated with the tick that found it, and a run stops there.
\<close>

section \<open>What leaves the clock alone\<close>

definition frame_kept :: "('s, 'ch) cluster \<Rightarrow> ('s, 'ch) cluster \<Rightarrow> bool" where
  "frame_kept c c' \<longleftrightarrow> c_now c' = c_now c \<and> length (nodes c') = length (nodes c)"

lemma count_up_now: "count_up get put c = Some c' \<Longrightarrow> frame_kept c c'"
  by (auto simp: frame_kept_def count_up_def elim!: bind_SomeE)

lemma draw_now: "draw p c = (c', hit) \<Longrightarrow> frame_kept c c'"
  by (auto simp: frame_kept_def draw_def split: prod.splits)

lemma draw_node_now: "draw_node c = Some (c', i) \<Longrightarrow> frame_kept c c'"
  by (auto simp: frame_kept_def draw_node_def elim!: bind_SomeE)

lemma draw_sides_now: "draw_sides k c = (c', side) \<Longrightarrow> frame_kept c c'"
  by (induction k arbitrary: c c' side) (auto simp: frame_kept_def Let_def dest: draw_now split: prod.splits)

lemma boot_now: "boot env c i = Some c' \<Longrightarrow> frame_kept c c'"
  by (auto simp: frame_kept_def boot_def set_node_def Let_def elim!: bind_SomeE)

lemma boot_all_now: "boot_all env c is = Some c' \<Longrightarrow> frame_kept c c'"
  by (induction "is" arbitrary: c) (auto simp: frame_kept_def elim!: bind_SomeE dest!: boot_now)

lemma cluster_new_now: "cluster_new env conf = Some c \<Longrightarrow> c_now c = 0"
  by (auto simp: cluster_new_def Let_def frame_kept_def elim!: bind_SomeE dest!: boot_all_now split: if_splits)

lemma crash_now: "crash c i = Some c' \<Longrightarrow> frame_kept c c'"
  by (auto simp: frame_kept_def crash_def set_node_def elim!: bind_SomeE dest!: count_up_now split: option.splits)

lemma cl_partition_now: "cl_partition c side = Some c' \<Longrightarrow> frame_kept c c'"
  by (auto simp: frame_kept_def cl_partition_def elim!: bind_SomeE)

lemma heal_now [simp]: "frame_kept c (heal c)"
  by (simp add: frame_kept_def heal_def)

lemma route_now: "route env c src out = Some c' \<Longrightarrow> frame_kept c c'"
proof (induction out arbitrary: c)
  case (Cons o1 out)
  from Cons.prems show ?case
    by (auto simp: frame_kept_def Let_def elim!: bind_SomeE split: if_splits dest!: Cons.IH count_up_now)
qed (simp add: frame_kept_def)

lemma cl_propose_now: "cl_propose env c cmd = Some (c', q) \<Longrightarrow> frame_kept c c'"
  by (auto simp: frame_kept_def cl_propose_def set_node_def Let_def elim!: bind_SomeE dest!: route_now count_up_now
      split: option.splits sum.splits prod.splits)

lemma collect_now: "collect env c ps = Some (c', ds) \<Longrightarrow> frame_kept c c'"
proof (induction ps arbitrary: c c' ds)
  case (Cons p ps)
  obtain src dst where "p = (src, dst)" by (cases p)
  then show ?case using Cons.prems
    by (auto simp: frame_kept_def Let_def elim!: bind_SomeE split: if_splits prod.splits dest!: Cons.IH)
qed (simp add: frame_kept_def)

lemma deliver_one_now: "deliver_one env c a = Some c' \<Longrightarrow> frame_kept c c'"
  by (auto simp: frame_kept_def deliver_one_def set_node_def Let_def elim!: bind_SomeE
      dest!: route_now crash_now count_up_now draw_now split: option.splits sum.splits prod.splits if_splits)

lemma deliver_all_now: "deliver_all env c as = Some c' \<Longrightarrow> frame_kept c c'"
  by (induction as arbitrary: c) (auto simp: frame_kept_def elim!: bind_SomeE dest!: deliver_one_now)

lemma timers_now: "timers env c is = Some c' \<Longrightarrow> frame_kept c c'"
proof (induction "is" arbitrary: c)
  case (Cons i "is")
  from Cons.prems show ?case
    by (auto simp: frame_kept_def set_node_def elim!: bind_SomeE dest!: route_now Cons.IH split: option.splits)
qed (simp add: frame_kept_def)

lemma inject_now:
  "inject_crash c = Some c' \<Longrightarrow> frame_kept c c'"
  "inject_partition c = Some c' \<Longrightarrow> frame_kept c c'"
  "frame_kept c (inject_heal c)"
  "inject_propose env c = Some c' \<Longrightarrow> frame_kept c c'"
proof -
  show "inject_crash c = Some c' \<Longrightarrow> frame_kept c c'"
    by (auto simp: frame_kept_def inject_crash_def Let_def elim!: bind_SomeE dest!: crash_now draw_node_now draw_now
        split: prod.splits if_splits)
  show "inject_partition c = Some c' \<Longrightarrow> frame_kept c c'"
    by (auto simp: frame_kept_def inject_partition_def Let_def dest!: cl_partition_now draw_sides_now draw_now
        split: prod.splits if_splits)
  show "frame_kept c (inject_heal c)"
    by (auto simp: frame_kept_def inject_heal_def heal_def Let_def dest!: draw_now split: prod.splits)
  show "inject_propose env c = Some c' \<Longrightarrow> frame_kept c c'"
    by (auto simp: frame_kept_def inject_propose_def Let_def elim!: bind_SomeE dest!: cl_propose_now draw_now
        split: prod.splits if_splits sum.splits)
qed

section \<open>Violations are dated\<close>

text \<open>The clock shows \<open>t\<close> in the end, and a violation is of that tick.\<close>

definition clocked :: "u64 \<Rightarrow> nat \<Rightarrow> ('s, 'ch) cluster \<Rightarrow> bool" where
  "clocked t m c \<longleftrightarrow> c_now c = t \<and> length (nodes c) = m"

lemma clocked_kept: "frame_kept c c' \<Longrightarrow> clocked t m c \<Longrightarrow> clocked t m c'"
  by (simp add: clocked_def frame_kept_def)

lemma clocked_update [simp]:
  "clocked t m (c\<lparr>leaders_by_term := lt\<rparr>) = clocked t m c" "clocked t m (c\<lparr>c_stats := st\<rparr>) = clocked t m c"
  "clocked t m (c\<lparr>max_term_seen := ts\<rparr>) = clocked t m c" "clocked t m (c\<lparr>c_committed := es\<rparr>) = clocked t m c"
  "clocked t m (c\<lparr>max_commit_seen := ms\<rparr>) = clocked t m c"
  by (simp_all add: clocked_def)

abbreviation dated :: "u64 \<Rightarrow> nat \<Rightarrow> ('s, 'ch) outcome \<Rightarrow> bool" where
  "dated t m \<equiv> after (clocked t m) (\<lambda>c v. clocked t m c \<and> v_tick v = t)"

lemma dated_violation [simp]: "dated t m (Some (c, violation_at c k)) \<longleftrightarrow> clocked t m c"
  by (auto simp: after_def violation_at_def clocked_def)

lemma check_leader_dated: "clocked t m c \<Longrightarrow> dated t m (check_leader c i n)"
  by (auto simp: check_leader_def Let_def split: option.splits)

lemma check_term_dated: "clocked t m c \<Longrightarrow> dated t m (check_term c i)"
  unfolding check_term_def
  by (intro after_bind) (auto intro!: after_bind check_leader_dated split: option.splits)

lemma check_entries_dated: "clocked t m c \<Longrightarrow> dated t m (check_entries c i k es)"
  by (induction es arbitrary: c k) auto

lemma check_commit_dated: "clocked t m c \<Longrightarrow> dated t m (check_commit c i)"
  unfolding check_commit_def
  by (intro after_bind)
    (auto simp: Let_def intro!: after_bind after_go_on check_entries_dated split: option.splits)

lemma check_complete_dated: "clocked t m c \<Longrightarrow> dated t m (check_complete c i)"
  unfolding check_complete_def by (intro after_bind) (auto split: option.splits)

lemma check_match_dated: "clocked t m c \<Longrightarrow> dated t m (check_match c p)"
  unfolding check_match_def case_prod_beta by (intro after_bind) (auto split: option.splits)

lemma check_invariants_dated: "clocked t m c \<Longrightarrow> dated t m (check_invariants c)"
  unfolding check_invariants_def Let_def
  by (intro after_go_on after_each check_term_dated check_commit_dated check_complete_dated check_match_dated)

lemma restart_dated: "clocked t m c \<Longrightarrow> dated t m (restart env c i)"
  unfolding restart_def
  by (intro after_bind) (auto simp: Let_def intro!: after_bind dest!: boot_now count_up_now, (blast intro: clocked_kept)+)

lemma inject_restart_dated: "clocked t m c \<Longrightarrow> dated t m (inject_restart env c)"
  by (auto simp: inject_restart_def Let_def intro!: after_bind restart_dated dest!: draw_now draw_node_now intro: clocked_kept
      split: prod.splits)

lemma after_events_dated: "clocked t m c \<Longrightarrow> dated t m (after_events env c)"
  unfolding after_events_def case_prod_beta
  by (intro after_bind check_invariants_dated)
    (auto dest!: inject_now(2,4) collect_now deliver_all_now timers_now,
     blast intro: clocked_kept inject_now(3))

lemma cl_step_dated:
  assumes "cl_step env c = Some (c', r)"
  shows "c_now c' = c_now c + 1" and "unat (c_now c') = Suc (unat (c_now c))"
    and "length (nodes c') = length (nodes c)" and "r = Inl v \<Longrightarrow> v_tick v = c_now c'"
proof -
  obtain t c1 where t: "add64 (c_now c) 1 = Some t" and c1: "inject_crash (c\<lparr>c_now := t\<rparr>) = Some c1"
    and go: "go_on (inject_restart env c1) (after_events env) = Some (c', r)"
    using assms unfolding cl_step_def by (elim bind_SomeE)
  have now: "clocked t (length (nodes c)) c1" using inject_now(1) [OF c1] by (simp add: frame_kept_def clocked_def)
  have "dated t (length (nodes c)) (go_on (inject_restart env c1) (after_events env))"
    by (rule after_go_on) (rule inject_restart_dated [OF now], rule after_events_dated)
  note D = afterD [OF this go, unfolded clocked_def]
  show "c_now c' = c_now c + 1" "unat (c_now c') = Suc (unat (c_now c))" using D add64_SomeD [OF t] by auto
  show "length (nodes c') = length (nodes c)" using D by simp
  show "r = Inl v \<Longrightarrow> v_tick v = c_now c'" using D by simp
qed

section \<open>Runs\<close>

lemma cl_run_Suc: "cl_run env (Suc k) c = Some p \<longleftrightarrow> (\<exists>d r. cl_step env c = Some (d, r)
    \<and> (\<forall>v. r = Inl v \<longrightarrow> p = (d, Inl v)) \<and> (r = Inr () \<longrightarrow> cl_run env k d = Some p))"
proof (cases "cl_step env c")
  case (Some x)
  obtain d r where "x = (d, r)" by (cases x)
  then show ?thesis using Some by (cases r) (auto simp: go_on_def)
qed (simp add: go_on_def)

lemma cl_run_now: "cl_run env k c = Some (d, Inr ()) \<Longrightarrow> unat (c_now d) = unat (c_now c) + k
    \<and> length (nodes d) = length (nodes c)"
proof (induction k arbitrary: c)
  case (Suc k)
  then obtain e where "cl_step env c = Some (e, Inr ())" "cl_run env k e = Some (d, Inr ())"
    using sum.exhaust [where 'a = violation and 'b = unit] unfolding cl_run_Suc by (metis (full_types) Pair_inject old.unit.exhaust sum.distinct(1))
  then show ?case using Suc.IH cl_step_dated(2,3) by fastforce
qed simp

lemma cl_run_stop:
  assumes "cl_run env k c = Some (d, Inl v)"
  shows "\<exists>j < k. unat (c_now d) = unat (c_now c) + Suc j \<and> v_tick v = c_now d
    \<and> (\<forall>m. j < m \<longrightarrow> cl_run env m c = Some (d, Inl v)) \<and> (\<forall>m \<le> j. \<exists>e. cl_run env m c = Some (e, Inr ()))"
  using assms
proof (induction k arbitrary: c)
  case (Suc k)
  then obtain e r where e: "cl_step env c = Some (e, r)" "\<forall>w. r = Inl w \<longrightarrow> (d, Inl v) = (e, Inl w)"
    "r = Inr () \<longrightarrow> cl_run env k e = Some (d, Inl v)"
    unfolding cl_run_Suc by blast
  show ?case
  proof (cases r)
    case (Inl w)
    then have "cl_step env c = Some (d, Inl v)" using e by simp
    then show ?thesis using cl_step_dated [of env c d "Inl v"]
      by (intro exI [of _ 0]) (auto simp: go_on_def gr0_conv_Suc)
  next
    case (Inr u)
    then have run: "cl_run env k e = Some (d, Inl v)" "cl_step env c = Some (e, Inr ())" using e by simp_all
    obtain j where j: "j < k" "unat (c_now d) = unat (c_now e) + Suc j" "v_tick v = c_now d"
      "\<forall>m. j < m \<longrightarrow> cl_run env m e = Some (d, Inl v)" "\<forall>m \<le> j. \<exists>e'. cl_run env m e = Some (e', Inr ())"
      using Suc.IH [OF run(1)] by blast
    have step: "cl_run env (Suc m) c = cl_run env m e" for m using run(2) by (simp add: go_on_def)
    have "\<forall>m. Suc j < m \<longrightarrow> cl_run env m c = Some (d, Inl v)"
      using j(4) step by (metis Suc_lessE Suc_less_eq)
    moreover have "\<exists>e'. cl_run env m c = Some (e', Inr ())" if "m \<le> Suc j" for m
      using that j(5) step by (cases m) (simp_all del: cl_run.simps(2))
    ultimately show ?thesis
      using j(1-3) cl_step_dated(2) [OF run(2)] by (intro exI [of _ "Suc j"]) simp
  qed
qed simp

text \<open>What the run of a reachable cluster can report.\<close>

lemma run_alarm:
  assumes "cluster_env env view ok carried" and "fresh_backend env view ok" and "cl_reach env conf c"
    and "cl_run env k c = Some (d, Inl v)"
  shows "stale_leader_alarm view d v"
  using assms(3,4)
proof (induction k arbitrary: c)
  case (Suc k)
  obtain a where a: "cluster_rel view ok carried (frame_dec env) c a"
    using cluster_env.reach_rel [OF assms(1) Suc.prems(1) assms(2)] by blast
  obtain e r where e: "cl_step env c = Some (e, r)" "\<forall>w. r = Inl w \<longrightarrow> (d, Inl v) = (e, Inl w)"
    "r = Inr () \<longrightarrow> cl_run env k e = Some (d, Inl v)"
    using Suc.prems(2) unfolding cl_run_Suc by blast
  show ?case
  proof (cases r)
    case (Inl w)
    then show ?thesis using afterD [OF cluster_env.cl_step_rel [OF assms(1) a] e(1)] e(2) by simp
  next
    case (Inr u)
    have "cl_reach env conf e" by (rule reach_later [OF Suc.prems(1) later_op [OF later_refl op_step [OF e(1)]]])
    then show ?thesis using Suc.IH e(3) Inr by simp
  qed
qed simp

text \<open>
  C35: A violation is dated with the tick that found it: the run stops at that tick, any run that
  is at least as long ends with the same violation in the same state, and any shorter run ends
  without one.
\<close>

theorem violation_tick:
  assumes "cl_run env k c = Some (c', Inl v)"
  shows "unat (c_now c) < unat (v_tick v) \<and> unat (v_tick v) \<le> unat (c_now c) + k
    \<and> (\<forall>m. unat (v_tick v) - unat (c_now c) \<le> m \<longrightarrow> cl_run env m c = Some (c', Inl v))
    \<and> (\<forall>m < unat (v_tick v) - unat (c_now c). \<exists>d. cl_run env m c = Some (d, Inr ()))"
proof -
  obtain j where "j < k" "unat (c_now c') = unat (c_now c) + Suc j" "v_tick v = c_now c'"
      "\<forall>m. j < m \<longrightarrow> cl_run env m c = Some (c', Inl v)" "\<forall>m \<le> j. \<exists>d. cl_run env m c = Some (d, Inr ())"
    using cl_run_stop [OF assms] by blast
  then show ?thesis by (auto simp: Suc_le_eq less_Suc_eq_le)
qed

end
