(* ===== verification/Chaos_Rules.thy ===== *)
theory Chaos_Rules
  imports Chaos Cluster_Clock
begin

text \<open>
  What the command line tool promises: numbers print and parse back, configurations stay in
  their ranges, summaries are ordered, the exit code tells whether a run violated an invariant,
  and the command printed for a violation reproduces it.
\<close>

section \<open>Numbers\<close>

definition is_digit :: "u8 \<Rightarrow> bool" where
  "is_digit d \<longleftrightarrow> 48 \<le> d \<and> d \<le> 57"

text \<open>The number that decimal digits denote.\<close>

definition digits_value :: "nat \<Rightarrow> bytes \<Rightarrow> nat" where
  "digits_value = foldl (\<lambda>v d. v * 10 + (unat d - 48))"

lemma digits_value_simps [simp]:
  "digits_value v [] = v" "digits_value v (d # ds) = digits_value (v * 10 + (unat d - 48)) ds"
  "digits_value v (ds @ es) = digits_value (digits_value v ds) es"
  by (simp_all add: digits_value_def)

lemma digits_value_ge: "v \<le> digits_value v ds"
  by (induction ds arbitrary: v) (simp, metis add_leD1 digits_value_simps(2) le_trans mult_le_cancel1
      mult.commute nat_mult_1_right one_le_numeral)

lemma digit_unat: "is_digit d \<Longrightarrow> 48 \<le> unat d \<and> unat d \<le> 57"
  by (simp add: is_digit_def word_le_nat_alt)

lemma parse_digits_iff:
  "parse_digits acc ds = Some k \<longleftrightarrow> (\<forall>d \<in> set ds. is_digit d) \<and> digits_value (unat acc) ds = unat k"
proof (induction ds arbitrary: acc)
  case Nil
  show ?case by (auto dest: word_unat_eq_iff [THEN iffD2])
next
  case (Cons d ds)
  let ?v = "unat acc * 10 + (unat d - 48)"
  have fits: "uint acc * 10 + (uint d - 48) < 2 ^ 64 \<longleftrightarrow> ?v < 2 ^ 64" if "is_digit d"
  proof -
    have eq: "uint acc * 10 + (uint d - 48) = int ?v" using digit_unat [OF that] by (simp add: of_nat_diff)
    have "int ?v < int (2 ^ 64) \<longleftrightarrow> ?v < 2 ^ 64" by (simp only: of_nat_less_iff)
    then show ?thesis unfolding eq by (simp only: of_nat_power of_nat_numeral)
  qed
  have step: "parse_digits acc (d # ds) = (if is_digit d \<and> ?v < 2 ^ 64
      then parse_digits (acc * 10 + of_nat (unat d - 48)) ds else None)"
    using fits by (auto simp: is_digit_def simp del: power_numeral)
  show ?case
  proof (cases "is_digit d \<and> ?v < 2 ^ 64")
    case True
    have "unat (of_nat ?v :: u64) = ?v" by (subst unat_of_nat) (use True in simp)
    moreover have "acc * 10 + of_nat (unat d - 48) = of_nat ?v" by simp
    ultimately have "unat (acc * 10 + of_nat (unat d - 48)) = ?v" by metis
    then show ?thesis using True Cons.IH [of "acc * 10 + of_nat (unat d - 48)"] unfolding step by simp
  next
    case False
    then have "parse_digits acc (d # ds) = None" unfolding step by (rule if_not_P)
    moreover have "digits_value (unat acc) (d # ds) \<noteq> unat k" if "is_digit d"
      using False that digits_value_ge [of ?v ds] unat_lt_2_64 [of k] by simp
    ultimately show ?thesis by auto
  qed
qed

lemma decimal_digits: "(\<forall>d \<in> set (decimal n). is_digit d) \<and> decimal n \<noteq> [] \<and> digits_value 0 (decimal n) = n"
proof (induction n rule: decimal.induct)
  case (1 n)
  have d: "is_digit (of_nat (48 + m))" "unat (of_nat (48 + m) :: u8) = 48 + m" if "m < 10" for m
  proof -
    show "unat (of_nat (48 + m) :: u8) = 48 + m"
      using unat_of_nat [of "48 + m", where 'a = 8] that by (simp del: of_nat_add)
    then show "is_digit (of_nat (48 + m))" using that by (simp add: is_digit_def word_le_nat_alt)
  qed
  show ?case
  proof (cases "n < 10")
    case True
    then show ?thesis using d [of n] by (simp add: decimal.simps [of n])
  next
    case False
    have "n mod 10 < 10" by simp
    then show ?thesis using 1 [OF False] d [of "n mod 10"] False by (simp add: decimal.simps [of n])
  qed
qed

lemma parse_decimal: "parse_u64 (decimal (unat k)) = Some k"
proof -
  obtain d ds where d: "decimal (unat k) = d # ds" using decimal_digits [of "unat k"] by (cases "decimal (unat k)") auto
  have "d \<noteq> 43" using decimal_digits [of "unat k"] by (auto simp: d is_digit_def)
  then have "parse_u64 (decimal (unat k)) = parse_digits 0 (decimal (unat k))" by (simp add: parse_u64_def d)
  then show ?thesis using parse_digits_iff [of 0 "decimal (unat k)" k] decimal_digits [of "unat k"] by simp
qed

text \<open>
  Numbers on the command line.  A \<open>u64\<close> is read from exactly the texts that consist of an
  optional plus sign and at least one decimal digit and denote a number below \<open>2 ^ 64\<close>, and the
  number read is the one denoted; what the tool prints for a number is read back as that number.
\<close>

theorem parse_u64_exact:
  "(parse_u64 s = Some k \<longleftrightarrow> (\<exists>ds. (s = ds \<or> s = 43 # ds) \<and> ds \<noteq> [] \<and> (\<forall>d \<in> set ds. is_digit d) \<and> digits_value 0 ds = unat k))
   \<and> parse_u64 (decimal (unat k)) = Some k"
proof
  let ?ds = "case s of d # ds \<Rightarrow> if d = 43 then ds else s | [] \<Rightarrow> s"
  have parse: "parse_u64 s = Some k \<longleftrightarrow> ?ds \<noteq> [] \<and> (\<forall>d \<in> set ?ds. is_digit d) \<and> digits_value 0 ?ds = unat k"
    using parse_digits_iff [of 0 ?ds k] unfolding parse_u64_def Let_def by simp
  have plus: "\<not> is_digit 43" by (simp add: is_digit_def)
  show "parse_u64 s = Some k \<longleftrightarrow> (\<exists>ds. (s = ds \<or> s = 43 # ds) \<and> ds \<noteq> []
      \<and> (\<forall>d \<in> set ds. is_digit d) \<and> digits_value 0 ds = unat k)"
    unfolding parse using plus by (cases s) (auto split: if_splits)
  show "parse_u64 (decimal (unat k)) = Some k" by (rule parse_decimal)
qed

section \<open>Configurations\<close>

lemma fraction_of_range:
  assumes "fraction_of (f64 m) r = (r', x)"
  shows "0 \<le> x" and "x \<le> f64 m" and "fits53 x"
proof -
  obtain s y where y: "next_u64 r = (s, y)" by (cases "next_u64 r")
  have x: "x = f64 (of_int (uint (drop_bit 11 y)) / 2 ^ 53 * f64 m)" using assms by (simp add: fraction_of_def y)
  have "of_int (uint (drop_bit 11 y)) / 2 ^ 53 * f64 m \<le> 1 * f64 m"
    using draw_less_one [of y] by (intro mult_right_mono) simp_all
  then show "x \<le> f64 m" unfolding x by (simp add: f64_le)
  show "0 \<le> x" "fits53 x" unfolding x by (simp_all add: f64_fits)
qed

lemma fits53_double: "fits53 x \<Longrightarrow> fits53 (x * 2)"
  unfolding fits53_def by (metis (no_types) mult.assoc power_int_add_1 zero_neq_numeral)

lemma scaled_range:
  assumes "0 \<le> x" and "x \<le> b" and "fits53 x"
  shows "0 \<le> f64 (x * (if churn then 2 else 1)) \<and> f64 (x * (if churn then 2 else 1)) \<le> b * (if churn then 2 else 1)"
  using assms by (simp add: f64_exact fits53_double)

lemma offset_range:
  assumes "0 \<le> x" and "x \<le> b"
  shows "f64 a \<le> f64 (f64 a + x) \<and> f64 (f64 a + x) \<le> f64 (f64 a + b)"
  using assms f64_ge [of a "f64 a + x"] f64_mono [of "f64 a + x" "f64 a + b"] by simp

lemma below_SomeE:
  assumes "0 < n" and "n < 2 ^ 64"
  obtains r' k where "below n r = Some (r', k)" and "k < n"
  using below_rule [OF assms(2), of r] assms(1) by blast

text \<open>
  C37: The configuration of every run.  Deriving it never panics; the cluster has three or five
  nodes and the run's seed; every probability lies in its documented range, doubled for crashes
  and partitions under churn; delays are positive and small; and the election timeout is a
  non-empty range above the heartbeat interval.
\<close>

theorem config_for_range:
  "\<exists>cfg. config_for clean seed churn = Some cfg \<and> cc_n cfg \<in> {3, 5} \<and> cc_seed cfg = seed
    \<and> (let p = cc_profile cfg in fp_loss p \<in> {0..f64 (3 / 10)} \<and> fp_duplication p \<in> {0..f64 (2 / 10)}
        \<and> fp_reorder_max_delay p < 30 \<and> fp_corruption p \<in> {0..f64 (1 / 10)} \<and> fp_truncation p \<in> {0..f64 (1 / 10)}
        \<and> fp_base_delay p \<in> {1, 2, 3})
    \<and> (let f = cc_faults cfg in f_crash f \<in> {0..f64 (1 / 100) * (if churn then 2 else 1)}
        \<and> f_restart f \<in> {f64 (2 / 100)..f64 (f64 (2 / 100) + f64 (5 / 100))}
        \<and> f_partition f \<in> {0..f64 (1 / 100) * (if churn then 2 else 1)}
        \<and> f_heal f \<in> {f64 (2 / 100)..f64 (f64 (2 / 100) + f64 (5 / 100))}
        \<and> f_crash_after_event f \<in> {0..f64 (3 / 1000) * (if churn then 2 else 1)}
        \<and> f_propose f \<in> {f64 (5 / 100)..f64 (f64 (5 / 100) + f64 (15 / 100))})
    \<and> (cc_election_timeout cfg, cc_heartbeat_interval cfg) = (if churn then ((20, 45), 6) else ((150, 300), 50))"
proof -
  obtain r1 five where r1: "chance (f64 (4 / 10)) (rng_new (xor seed 0x123456789ABCDEF0)) = (r1, five)" by fastforce
  obtain r2 a1 where r2: "fraction_of (f64 (3 / 10)) r1 = (r2, a1)" by fastforce
  obtain r3 a2 where r3: "fraction_of (f64 (2 / 10)) r2 = (r3, a2)" by fastforce
  obtain r4 d where r4: "below 30 r3 = Some (r4, d)" "d < 30" by (rule below_SomeE [of 30 r3]) simp_all
  obtain r5 a3 where r5: "fraction_of (f64 (1 / 10)) r4 = (r5, a3)" by fastforce
  obtain r6 a4 where r6: "fraction_of (f64 (1 / 10)) r5 = (r6, a4)" by fastforce
  obtain r7 b where r7: "below 3 r6 = Some (r7, b)" "b < 3" by (rule below_SomeE [of 3 r6]) simp_all
  have b: "b = 0 \<or> b = 1 \<or> b = 2" using r7(2) by linarith
  have d: "(of_nat d :: u64) < 30"
  proof -
    have "unat (of_nat d :: u64) = d" by (subst unat_of_nat) (use r4(2) in simp)
    then show ?thesis using r4(2) by (simp add: word_less_nat_alt)
  qed
  obtain r8 x1 where r8: "fraction_of (f64 (1 / 100)) r7 = (r8, x1)" by fastforce
  obtain r9 x2 where r9: "fraction_of (f64 (5 / 100)) r8 = (r9, x2)" by fastforce
  obtain r10 x3 where r10: "fraction_of (f64 (1 / 100)) r9 = (r10, x3)" by fastforce
  obtain r11 x4 where r11: "fraction_of (f64 (5 / 100)) r10 = (r11, x4)" by fastforce
  obtain r12 x5 where r12: "fraction_of (f64 (3 / 1000)) r11 = (r12, x5)" by fastforce
  obtain r13 x6 where r13: "fraction_of (f64 (15 / 100)) r12 = (r13, x6)" by fastforce
  note F = fraction_of_range
  have base: "add64 1 (of_nat b) = Some (1 + of_nat b)" using b by (auto simp: add64_def)
  have bs: "1 + (of_nat b :: u64) \<in> {1, 2, 3}" using b by auto
  note S = scaled_range [OF F [OF r8], of churn] scaled_range [OF F [OF r10], of churn] scaled_range [OF F [OF r12], of churn]
  note O = offset_range [OF F(1,2) [OF r9], of "2 / 100"] offset_range [OF F(1,2) [OF r11], of "2 / 100"]
    offset_range [OF F(1,2) [OF r13], of "5 / 100"]
  note steps = config_for_def Let_def r1 r2 r3 r4(1) r5 r6 r7(1) r8 r9 r10 r11 r12 r13 prod.case Option.bind.bind_lunit
    as_word_of_nat base
  show ?thesis
    unfolding steps
    using F [OF r2] F [OF r3] F [OF r5] F [OF r6] S O d bs
    by (cases churn) (simp_all add: cluster_config_new_def)
qed

section \<open>Summaries\<close>

lemma fits53_of_nat: "k < 2 ^ 53 \<Longrightarrow> fits53 (of_nat k)"
proof -
  assume "k < 2 ^ 53"
  then have "int k < int (2 ^ 53)" by (simp only: of_nat_less_iff)
  then have "int k < 2 ^ 53" by (simp only: of_nat_power of_nat_numeral)
  then show ?thesis using fits53I [of "int k" 0] by simp
qed

text \<open>The index of a quantile.\<close>

definition quantile_index :: "nat \<Rightarrow> rat \<Rightarrow> nat" where
  "quantile_index k q = nat \<lfloor>f64 (f64 (of_nat k) * f64 q)\<rfloor>"

lemma quantile_index_le:
  assumes "k < 2 ^ 53" and "q \<le> 1"
  shows "quantile_index k q \<le> k"
proof -
  have k: "f64 (of_nat k) = of_nat k" using fits53_of_nat [OF assms(1)] by (rule f64_exact)
  have one: "fits53 1" using fits53I [of 1 0] by simp
  have "f64 q \<le> 1" using f64_mono [OF assms(2)] f64_exact [OF one] by simp
  then have "of_nat k * f64 q \<le> f64 (of_nat k)" by (simp add: k mult_left_le)
  then have "f64 (of_nat k * f64 q) \<le> of_nat k" using f64_le k by metis
  then have "\<lfloor>f64 (of_nat k * f64 q)\<rfloor> \<le> int k" by (metis floor_mono floor_of_nat)
  then show ?thesis by (simp add: quantile_index_def k nat_le_iff)
qed

lemma quantile_index_mono: "q \<le> q' \<Longrightarrow> quantile_index k q \<le> quantile_index k q'"
  unfolding quantile_index_def by (intro nat_mono floor_mono f64_mono mult_left_mono) simp_all

lemma quantile_index_half:
  assumes "k < 2 ^ 53"
  shows "quantile_index k (1 / 2) = k div 2"
proof -
  have k: "f64 (of_nat k) = of_nat k" using fits53_of_nat [OF assms(1)] by (rule f64_exact)
  have "int k < 2 ^ 53" using assms by (metis of_nat_less_iff of_nat_numeral of_nat_power)
  then have "fits53 (of_nat k / 2)" using fits53I [of "int k" "- 1"] by (simp add: power_int_minus field_simps)
  moreover have "fits53 (1 / 2)" using fits53I [of 1 "- 1"] by (simp add: power_int_minus field_simps)
  ultimately have "f64 (f64 (of_nat k) * f64 (1 / 2)) = of_nat k / 2" by (simp add: k f64_exact)
  moreover have "\<lfloor>of_nat k / 2 :: rat\<rfloor> = int (k div 2)"
    using floor_divide_of_nat_eq [of k 2, where 'a = rat] by simp
  ultimately show ?thesis by (simp only: quantile_index_def nat_int)
qed

lemma quantile_Some:
  "v \<noteq> [] \<Longrightarrow> quantile_index (length v - 1) q < length v \<Longrightarrow> quantile v q = Some (v ! quantile_index (length v - 1) q)"
  unfolding quantile_def quantile_index_def
  by (simp only: length_0_conv if_False Option.bind.bind_lunit vec_get_def if_True)

text \<open>
  The summary of a sample.  An empty sample panics.  Otherwise the four figures are values of
  the sample: its smallest and largest, the median at the middle position and the 99th
  percentile, in ascending order.
\<close>

theorem summarize_rule:
  "summarize [] = None \<and> (v \<noteq> [] \<longrightarrow> length v \<le> 2 ^ 53 \<longrightarrow> (\<exists>s. summarize v = Some s
     \<and> s_min s = Min (set v) \<and> s_median s = sort v ! ((length v - 1) div 2) \<and> s_p99 s \<in> set v \<and> s_max s = Max (set v)
     \<and> s_min s \<le> s_median s \<and> s_median s \<le> s_p99 s \<and> s_p99 s \<le> s_max s \<and> s_count s = length v))"
proof (intro conjI impI)
  show "summarize [] = None" by (simp add: summarize_def vec_get_def)
next
  assume v: "v \<noteq> []" "length v \<le> 2 ^ 53"
  let ?w = "sort v" and ?k = "length v - 1"
  have w: "?w \<noteq> []" using v(1) by (metis length_0_conv length_sort)
  have k: "?k < 2 ^ 53" "?k < length v" using v by (cases v; simp)+
  let ?m = "quantile_index ?k (1 / 2)" and ?p = "quantile_index ?k (99 / 100)"
  have i: "?m \<le> ?p" "?p \<le> ?k" using quantile_index_mono quantile_index_le [OF k(1)] by simp_all
  have q: "quantile ?w (1 / 2) = Some (?w ! ?m)" "quantile ?w (99 / 100) = Some (?w ! ?p)"
    using i k(2) w quantile_Some [OF w] by auto
  let ?s = "\<lparr>s_min = ?w ! 0, s_median = ?w ! ?m, s_p99 = ?w ! ?p, s_max = ?w ! ?k, s_count = length v\<rparr>"
  have s: "summarize v = Some ?s" using q k(2) w by (simp add: summarize_def vec_get_def Let_def)
  have le: "?w ! a \<le> ?w ! b" if "a \<le> b" "b \<le> ?k" for a b
    using sorted_nth_mono [of ?w a b] that k(2) by simp
  have mem: "?w ! a \<in> set v" if "a \<le> ?k" for a using nth_mem [of a ?w] that k(2) by simp
  have all: "?w ! 0 \<le> x \<and> x \<le> ?w ! ?k" if "x \<in> set v" for x
  proof -
    have "x \<in> set ?w" using that by simp
    then obtain a where "a < length v" "x = ?w ! a" unfolding in_set_conv_nth by auto
    then show ?thesis using le [of 0 a] le [of a ?k] by simp
  qed
  have "?w ! 0 = Min (set v)" "?w ! ?k = Max (set v)"
    using all mem [of 0] mem [of ?k] v(1) by (auto intro!: Min_eqI [symmetric] Max_eqI [symmetric])
  then show "\<exists>s. summarize v = Some s
     \<and> s_min s = Min (set v) \<and> s_median s = sort v ! ((length v - 1) div 2) \<and> s_p99 s \<in> set v \<and> s_max s = Max (set v)
     \<and> s_min s \<le> s_median s \<and> s_median s \<le> s_p99 s \<and> s_p99 s \<le> s_max s \<and> s_count s = length v"
    using s le [of 0 ?m] le [OF i] le [of ?p ?k] i mem [of ?p] quantile_index_half [OF k(1)]
    by (intro exI [of _ ?s]) simp
qed

theorem summarize_rule_witness: "\<exists>s. summarize [5, 3, 9] = Some s \<and> s_median s = 5"
  using summarize_rule [of "[5, 3, 9]"] by auto

section \<open>The command line\<close>

lemma option_names [simp]:
  "ascii ''--runs'' \<noteq> ascii ''--seed''" "ascii ''--ticks'' \<noteq> ascii ''--seed''"
  "ascii ''--seed'' \<noteq> ascii ''--runs''" "ascii ''--seed'' \<noteq> ascii ''--ticks''"
  "ascii ''--runs'' \<noteq> ascii ''--ticks''" "ascii ''--ticks'' \<noteq> ascii ''--runs''"
  "ascii ''--churn'' \<noteq> ascii ''--runs''" "ascii ''--churn'' \<noteq> ascii ''--ticks''" "ascii ''--churn'' \<noteq> ascii ''--seed''"
  by code_simp+

lemma parse_one [simp]: "parse_u64 (ascii ''1'') = Some 1"
  by code_simp

lemma parse_reproduce:
  "parse_args default_options (reproduce seed ticks churn)
    = Inr \<lparr>o_runs = 1, o_ticks = ticks, o_start = seed, o_churn = churn, o_measure = False\<rparr>"
  by (simp add: reproduce_def num_def parse_decimal default_options_def)

section \<open>The runs\<close>

lemma seed_range_SomeD:
  assumes "seed_range start runs = Some seeds"
  shows "set seeds = {seed. start \<le> seed \<and> seed < start + runs}" and "distinct seeds"
    and "unat (start + runs) = unat start + unat runs"
proof -
  have s: "unat (start + runs) = unat start + unat runs" "seeds = map of_nat [unat start..<unat (start + runs)]"
    using assms add64_SomeD [of start runs] by (auto simp: seed_range_def elim!: bind_SomeE)
  show "unat (start + runs) = unat start + unat runs" by (rule s(1))
  have id: "unat (of_nat k :: u64) = k" if "k < unat (start + runs)" for k
    using that unat_lt_2_64 [of "start + runs"] by (simp add: unat_of_nat)
  show "distinct seeds"
    unfolding s(2) distinct_map using id by (auto intro!: inj_onI) (metis)
  show "set seeds = {seed. start \<le> seed \<and> seed < start + runs}"
  proof (intro set_eqI iffI)
    fix x assume "x \<in> set seeds"
    then obtain k where "unat start \<le> k" "k < unat (start + runs)" "x = of_nat k" unfolding s(2) by auto
    then show "x \<in> {seed. start \<le> seed \<and> seed < start + runs}"
      using id [of k] by (simp add: word_le_nat_alt word_less_nat_alt)
  next
    fix x assume "x \<in> {seed. start \<le> seed \<and> seed < start + runs}"
    then have "unat x \<in> set [unat start..<unat (start + runs)]" by (simp add: word_le_nat_alt word_less_nat_alt)
    moreover have "x = of_nat (unat x)" by simp
    ultimately show "x \<in> set seeds" unfolding s(2) set_map by (rule rev_image_eqI)
  qed
qed

lemma chaos_runs_SomeD:
  assumes "chaos_runs env ticks churn t seeds = Some (t', ls)"
  shows "(\<forall>seed \<in> set seeds. chaos_run env ticks churn seed \<noteq> None)
    \<and> (\<forall>l. l \<in> set ls \<longleftrightarrow> (\<exists>seed \<in> set seeds. \<exists>c v. chaos_run env ticks churn seed = Some (c, Inl v)
          \<and> l = Violation_line seed churn v (reproduce seed ticks churn)))
    \<and> unat (t_violations t') = unat (t_violations t) + length ls"
  using assms
proof (induction seeds arbitrary: t ls)
  case (Cons seed seeds)
  obtain c r where run: "chaos_run env ticks churn seed = Some (c, r)"
    using Cons.prems by (auto elim!: bind_SomeE)
  show ?case
  proof (cases r)
    case (Inl v)
    obtain k ls' where k: "add64 (t_violations t) 1 = Some k"
      and rest: "chaos_runs env ticks churn (t\<lparr>t_violations := k\<rparr>) seeds = Some (t', ls')"
      and ls: "ls = Violation_line seed churn v (reproduce seed ticks churn) # ls'"
      using Cons.prems run Inl by (auto elim!: bind_SomeE)
    show ?thesis using Cons.IH [OF rest] add64_Some_unat [OF k] run Inl ls by auto
  next
    case (Inr u)
    obtain t1 where t1: "add_run env c t = Some t1" "chaos_runs env ticks churn t1 seeds = Some (t', ls)"
      using Cons.prems run Inr by (auto elim!: bind_SomeE)
    have "t_violations t1 = t_violations t" using t1(1) by (auto simp: add_run_def elim!: bind_SomeE)
    then show ?thesis using Cons.IH [OF t1(2)] run Inr by auto
  qed
qed simp

text \<open>What the tool does when it neither measures nor rejects its arguments.\<close>

lemma chaos_main_SomeD:
  assumes "chaos_main env args = Some (out, code)" and "parse_args default_options args = Inr opts" and "\<not> o_measure opts"
  obtains seeds t ls totals where "seed_range (o_start opts) (o_runs opts) = Some seeds"
    and "chaos_runs env (o_ticks opts) (o_churn opts)
      \<lparr>t_violations = 0, t_commits = 0, t_terms = 0, t_crashes = 0, t_faults = ch_no_stats (channels env)\<rparr> seeds = Some (t, ls)"
    and "out = ls @ [totals]" and "\<forall>seed ch v cmd. totals \<noteq> Violation_line seed ch v cmd"
    and "code = (if t_violations t = 0 then 0 else 1)"
proof -
  obtain seeds t ls totals where "seed_range (o_start opts) (o_runs opts) = Some seeds"
    "chaos_runs env (o_ticks opts) (o_churn opts)
      \<lparr>t_violations = 0, t_commits = 0, t_terms = 0, t_crashes = 0, t_faults = ch_no_stats (channels env)\<rparr> seeds = Some (t, ls)"
    "out = ls @ [totals]" "\<forall>seed ch v cmd. totals \<noteq> Violation_line seed ch v cmd"
    "code = (if t_violations t = 0 then 0 else 1)"
    using assms by (auto simp: chaos_main_def elim!: bind_SomeE)
  then show ?thesis by (rule that)
qed

lemma measure_lines:
  assumes "measure_table env = Some ls" and "l \<in> set ls"
  shows "\<exists>name n a b. l = Measurement name n a b"
  using map_opt_in_setD [OF assms(1) [unfolded measure_table_def] assms(2)]
  by (auto elim!: bind_SomeE)

text \<open>
  C34: The exit code.  Arguments the tool does not understand end it with code 2 and a single
  complaint.  Otherwise, when it runs schedules, it prints a violation for exactly the seeds from
  the first to before the first plus the number of runs whose run violates an invariant, and it
  exits with 0 when every one of these runs kept the invariants and with 1 when one did not.
\<close>

theorem chaos_exit_code:
  assumes "chaos_main env args = Some (out, code)"
  shows "(\<forall>complaint. parse_args default_options args = Inl complaint \<longrightarrow> code = 2 \<and> out = [complaint])
    \<and> (\<forall>opts. parse_args default_options args = Inr opts \<longrightarrow> \<not> o_measure opts \<longrightarrow>
        (let tried = {seed. o_start opts \<le> seed \<and> seed < o_start opts + o_runs opts};
             run = chaos_run env (o_ticks opts) (o_churn opts)
         in card tried = unat (o_runs opts)
          \<and> code = (if \<forall>seed \<in> tried. \<exists>c. run seed = Some (c, Inr ()) then 0 else 1)
          \<and> (\<forall>seed v. (\<exists>ch cmd. Violation_line seed ch v cmd \<in> set out) \<longleftrightarrow> seed \<in> tried \<and> (\<exists>c. run seed = Some (c, Inl v)))))"
proof (intro conjI allI impI)
  show "code = 2" "out = [complaint]" if "parse_args default_options args = Inl complaint" for complaint
    using assms that by (simp_all add: chaos_main_def)
next
  fix opts assume opts: "parse_args default_options args = Inr opts" "\<not> o_measure opts"
  let ?run = "chaos_run env (o_ticks opts) (o_churn opts)"
  obtain seeds t ls totals where seeds: "seed_range (o_start opts) (o_runs opts) = Some seeds"
    and runs: "chaos_runs env (o_ticks opts) (o_churn opts)
      \<lparr>t_violations = 0, t_commits = 0, t_terms = 0, t_crashes = 0, t_faults = ch_no_stats (channels env)\<rparr> seeds = Some (t, ls)"
    and out: "out = ls @ [totals]" "\<forall>seed ch v cmd. totals \<noteq> Violation_line seed ch v cmd"
    and code: "code = (if t_violations t = 0 then 0 else 1)"
    using chaos_main_SomeD [OF assms opts] by metis
  note S = seed_range_SomeD [OF seeds]
  note R = chaos_runs_SomeD [OF runs]
  have found: "l \<in> set ls \<longleftrightarrow> (\<exists>seed \<in> set seeds. \<exists>c v. ?run seed = Some (c, Inl v)
          \<and> l = Violation_line seed (o_churn opts) v (reproduce seed (o_ticks opts) (o_churn opts)))" for l
    using R by blast
  have count: "unat (t_violations t) = length ls" using conjunct2 [OF conjunct2 [OF R]] by simp
  have ran: "seed \<in> set seeds \<Longrightarrow> ?run seed \<noteq> None" for seed using R by blast
  have "card (set seeds) = length seeds" using S(2) by (rule distinct_card)
  also have "\<dots> = unat (o_runs opts)"
    using seeds S(3) by (auto simp: seed_range_def dest!: add64_SomeD elim!: bind_SomeE)
  finally have card: "card (set seeds) = unat (o_runs opts)" .
  have none: "t_violations t = 0 \<longleftrightarrow> ls = []"
    using count by (metis length_0_conv unat_0_iff)
  have lines: "(\<exists>ch cmd. Violation_line seed ch v cmd \<in> set out) \<longleftrightarrow> seed \<in> set seeds \<and> (\<exists>c. ?run seed = Some (c, Inl v))" for seed v
    unfolding out(1) using out(2) found [of "Violation_line seed _ v _"] by auto
  have ok: "(\<exists>c. ?run seed = Some (c, Inr ())) \<longleftrightarrow> \<not> (\<exists>c v. ?run seed = Some (c, Inl v))" if "seed \<in> set seeds" for seed
  proof -
    have "?run seed \<noteq> None" using that by (rule ran)
    then obtain c r where "?run seed = Some (c, r)" by auto
    then show ?thesis by (cases r) auto
  qed
  have "ls = [] \<longleftrightarrow> (\<forall>seed \<in> set seeds. \<exists>c. ?run seed = Some (c, Inr ()))"
  proof
    assume "ls = []"
    then show "\<forall>seed \<in> set seeds. \<exists>c. ?run seed = Some (c, Inr ())" using found ok by fastforce
  next
    assume all: "\<forall>seed \<in> set seeds. \<exists>c. ?run seed = Some (c, Inr ())"
    have "l \<notin> set ls" for l using found [of l] all by fastforce
    then show "ls = []" by (cases ls) auto
  qed
  then show "let tried = {seed. o_start opts \<le> seed \<and> seed < o_start opts + o_runs opts}; run = ?run
      in card tried = unat (o_runs opts) \<and> code = (if \<forall>seed \<in> tried. \<exists>c. run seed = Some (c, Inr ()) then 0 else 1)
        \<and> (\<forall>seed v. (\<exists>ch cmd. Violation_line seed ch v cmd \<in> set out) \<longleftrightarrow> seed \<in> tried \<and> (\<exists>c. run seed = Some (c, Inl v)))"
    using card code none lines by (simp add: S(1))
qed

lemma parse_args_Inl:
  "parse_args opts as = Inl e \<Longrightarrow> \<exists>a. e = Needs_number a \<or> e = Unknown_argument a"
  by (induction opts "as" rule: parse_args.induct) (auto split: if_splits option.splits)

lemma seed_range_one: "unat seed + 1 < 2 ^ 64 \<Longrightarrow> seed_range seed 1 = Some [seed]"
  by (simp add: seed_range_def add64_defined unat_word_ariths)

text \<open>
  C33: Every violation can be reproduced.  The command printed with a violation, given back to the
  tool as its arguments, reports the same violation of the same seed, as the only one of the one
  run it makes, prints the same command again and exits with code 1.
\<close>

theorem reproduce_replays:
  assumes "chaos_main env args = Some (out, code)" and "Violation_line seed churn v cmd \<in> set out"
  shows "\<exists>ticks a b c d. chaos_main env cmd
    = Some ([Violation_line seed churn v cmd, Totals_line 1 ticks churn 1 0 0 0 a b c d], 1)"
proof -
  obtain opts where opts: "parse_args default_options args = Inr opts"
    using assms parse_args_Inl by (cases "parse_args default_options args") (fastforce simp: chaos_main_def)+
  have run: "\<not> o_measure opts"
    using assms opts measure_lines by (fastforce simp: chaos_main_def elim!: bind_SomeE)
  obtain seeds t ls totals where seeds: "seed_range (o_start opts) (o_runs opts) = Some seeds"
    and runs: "chaos_runs env (o_ticks opts) (o_churn opts)
      \<lparr>t_violations = 0, t_commits = 0, t_terms = 0, t_crashes = 0, t_faults = ch_no_stats (channels env)\<rparr> seeds = Some (t, ls)"
    and out: "out = ls @ [totals]" "\<forall>seed ch v cmd. totals \<noteq> Violation_line seed ch v cmd"
    using chaos_main_SomeD [OF assms(1) opts run] by metis
  have "Violation_line seed churn v cmd \<in> set ls" using assms(2) out by auto
  then obtain c where c: "seed \<in> set seeds" "chaos_run env (o_ticks opts) (o_churn opts) seed = Some (c, Inl v)"
    "churn = o_churn opts" "cmd = reproduce seed (o_ticks opts) churn"
    using conjunct1 [OF conjunct2 [OF chaos_runs_SomeD [OF runs]]] by auto
  have "unat seed < unat (o_start opts + o_runs opts)"
    using c(1) seed_range_SomeD(1) [OF seeds] by (simp add: word_less_nat_alt)
  then have one: "seed_range seed 1 = Some [seed]"
    using unat_lt_2_64 [of "o_start opts + o_runs opts"] by (intro seed_range_one) simp
  have parse: "parse_args default_options cmd
      = Inr \<lparr>o_runs = 1, o_ticks = o_ticks opts, o_start = seed, o_churn = churn, o_measure = False\<rparr>"
    unfolding c(4) by (rule parse_reproduce)
  show ?thesis
    using c(2) unfolding chaos_main_def parse by (simp add: one c(3,4) add64_defined)
qed

section \<open>What the runs can report\<close>

text \<open>
  C32: On an implementation of the channels, the frames and the stores that keeps its contract, a
  run of the tool ends without a violation or with one false alarm of the leader-completeness
  check, about a leader that has been deposed, at one of its ticks: whatever the seed, the fault
  intensities derived from it and the number of ticks.
\<close>

theorem chaos_run_alarms:
  assumes "cluster_env env view ok carried" and "fresh_backend env view ok"
    and "chaos_run env ticks churn seed = Some (c, r)"
  shows "r = Inr () \<or> (\<exists>v. r = Inl v \<and> stale_leader_alarm view c v \<and> v_tick v \<in> {1..ticks})"
proof (cases r)
  case (Inl v)
  obtain cfg c0 where new: "cluster_new env cfg = Some c0" and run: "cl_run env (unat ticks) c0 = Some (c, Inl v)"
    using assms(3) Inl by (auto simp: chaos_run_def elim!: bind_SomeE)
  have zero: "c_now c0 = 0" by (rule cluster_new_now [OF new])
  have "stale_leader_alarm view c v"
    by (rule run_alarm [OF assms(1,2) reach_new [OF new] run])
  moreover obtain j where "j < unat ticks" "unat (c_now c) = unat (c_now c0) + Suc j" "v_tick v = c_now c"
    using cl_run_stop [OF run] by blast
  then have "v_tick v \<in> {1..ticks}" using zero by (simp add: word_le_nat_alt)
  ultimately show ?thesis using Inl by blast
qed simp

section \<open>Measurements\<close>

lemma unwrap_step_iff: "unwrap_step env c = Some d \<longleftrightarrow> cl_step env c = Some (d, Inr ())"
proof (cases "cl_step env c")
  case (Some x)
  obtain e r where "x = (e, r)" by (cases x)
  then show ?thesis using Some by (cases r) (auto simp: unwrap_step_def)
qed (simp add: unwrap_step_def)

lemma uncommitted_defined: "l < length (nodes c) \<Longrightarrow> uncommitted c l idx = Some True \<or> uncommitted c l idx = Some False"
  by (auto simp: uncommitted_def vec_get_def)

text \<open>One round of the wait.\<close>

lemma await_commit_done: "uncommitted c l idx = Some False \<or> uncommitted c l idx = Some True \<and> 3000 \<le> w \<Longrightarrow>
    await_commit env l idx w c = Some c"
  by (subst await_commit.simps) auto

lemma await_commit_next: "uncommitted c l idx = Some True \<Longrightarrow> w < 3000 \<Longrightarrow>
    await_commit env l idx w c = Option.bind (unwrap_step env c) (await_commit env l idx (w + 1))"
  by (subst await_commit.simps) simp

lemma await_commit_cases:
  assumes "l < length (nodes c)" and "w \<le> 3000"
  shows "(\<exists>k c'. k + w \<le> 3000 \<and> await_commit env l idx w c = Some c' \<and> cl_run env k c = Some (c', Inr ())
      \<and> (k + w = 3000 \<or> uncommitted c' l idx = Some False))
    \<or> (\<exists>k e. k + w < 3000 \<and> await_commit env l idx w c = None \<and> cl_run env k c = Some (e, Inr ())
      \<and> uncommitted e l idx = Some True \<and> (\<forall>e'. cl_step env e \<noteq> Some (e', Inr ())))"
  using assms
proof (induction "3000 - w" arbitrary: w c)
  case 0
  then have "await_commit env l idx w c = Some c" using uncommitted_defined [OF 0(2), of idx] await_commit_done [of c l idx w env] by auto
  then show ?case using 0 by (intro disjI1 exI [of _ 0] exI [of _ c]) simp
next
  case (Suc m)
  then have w: "w < 3000" by simp
  consider "uncommitted c l idx = Some False" | "uncommitted c l idx = Some True" "unwrap_step env c = None"
    | d where "uncommitted c l idx = Some True" "unwrap_step env c = Some d"
    using uncommitted_defined [OF Suc.prems(1)] by (cases "unwrap_step env c") blast+
  then show ?case
  proof cases
    case 1
    then show ?thesis using w await_commit_done [of c l idx w env]
      by (intro disjI1 exI [of _ 0] exI [of _ c]) simp
  next
    case 2
    then have "\<forall>e'. cl_step env c \<noteq> Some (e', Inr ())" by (simp flip: unwrap_step_iff)
    then show ?thesis using 2 w await_commit_next [OF 2(1) w, of env]
      by (intro disjI2 exI [of _ 0] exI [of _ c]) simp
  next
    case 3
    have d: "cl_step env c = Some (d, Inr ())" using 3(2) unwrap_step_iff by blast
    have step: "await_commit env l idx w c = await_commit env l idx (w + 1) d" "cl_run env (Suc k) c = cl_run env k d" for k
      using await_commit_next [OF 3(1) w, of env] 3(2) d by (simp_all add: go_on_def)
    have "l < length (nodes d)" "m = 3000 - (w + 1)" "w + 1 \<le> 3000"
      using Suc.prems(1) cl_step_dated(3) [OF d] Suc.hyps(2) w by simp_all
    then consider (found) k c' where "k + (w + 1) \<le> 3000" "await_commit env l idx (w + 1) d = Some c'"
        "cl_run env k d = Some (c', Inr ())" "k + (w + 1) = 3000 \<or> uncommitted c' l idx = Some False"
      | (failed) k e where "k + (w + 1) < 3000" "await_commit env l idx (w + 1) d = None"
        "cl_run env k d = Some (e, Inr ())" "uncommitted e l idx = Some True" "\<forall>e'. cl_step env e \<noteq> Some (e', Inr ())"
      using Suc.hyps(1) [of "w + 1" d] by blast
    then show ?thesis
    proof cases
      case found
      then show ?thesis by (intro disjI1 exI [of _ "Suc k"] exI [of _ c']) (simp add: step del: cl_run.simps)
    next
      case failed
      then show ?thesis by (intro disjI2 exI [of _ "Suc k"] exI [of _ e]) (simp add: step del: cl_run.simps)
    qed
  qed
qed

text \<open>
  C38: The wait for a commit ends.  It returns within 3000 ticks, with the entry committed at the
  leader or after exactly 3000 ticks, unless one of these ticks panics or reports a violation
  while the entry is not committed, which makes the measurement panic.
\<close>

theorem await_commit_ends:
  assumes "l < length (nodes c)"
  shows "(\<exists>k \<le> 3000. \<exists>c'. await_commit env l idx 0 c = Some c' \<and> cl_run env k c = Some (c', Inr ())
      \<and> (k = 3000 \<or> uncommitted c' l idx = Some False))
    \<or> (\<exists>k < 3000. \<exists>e. await_commit env l idx 0 c = None \<and> cl_run env k c = Some (e, Inr ())
      \<and> uncommitted e l idx = Some True \<and> (\<forall>e'. cl_step env e \<noteq> Some (e', Inr ())))"
  using await_commit_cases [OF assms, of 0 env idx] by auto

lemma await_commit_now:
  assumes "await_commit env l idx 0 c = Some c'"
  shows "unat (c_now c') \<le> unat (c_now c) + 3000"
proof -
  have "uncommitted c l idx \<noteq> None" using assms by (subst (asm) await_commit.simps) (auto elim!: bind_SomeE)
  then have "l < length (nodes c)" by (auto simp: uncommitted_def vec_get_def split: if_splits)
  from await_commit_cases [OF this, of 0 env idx] obtain k where "k \<le> 3000" "cl_run env k c = Some (c', Inr ())"
    using assms by auto
  then show ?thesis using cl_run_now by fastforce
qed

lemma measure_commits_bounds:
  assumes "measure_commits env c ks = Some ds"
  shows "length ds \<le> length ks \<and> (\<forall>d \<in> set ds. d \<le> 3000)"
  using assms
proof (induction ks arbitrary: c ds)
  case (Cons k ks)
  obtain c1 r where p: "cl_propose env c (ascii ''m'' @ decimal k) = Some (c1, r)"
    using Cons.prems by (auto elim!: bind_SomeE)
  show ?case
  proof (cases r)
    case (Inr lx)
    obtain l idx where lx: "lx = (l, idx)" by (cases lx)
    obtain c2 d rest where c2: "await_commit env l idx 0 c1 = Some c2" "sub64 (c_now c2) (c_now c1) = Some d"
      and more: "measure_commits env c2 ks = Some rest" "ds = d # rest"
      using Cons.prems p Inr lx by (auto simp: Let_def elim!: bind_SomeE)
    have "unat d = unat (c_now c2) - unat (c_now c1)"
      using c2(2) by (auto simp: sub64_def unat_sub split: if_splits)
    then have "d \<le> 3000" using await_commit_now [OF c2(1)] by (simp add: word_le_nat_alt)
    then show ?thesis using Cons.IH [OF more(1)] more(2) by simp
  qed (use Cons.prems p in simp)
qed simp

text \<open>
  The samples of a measured run.  At most ten commits are measured, and none takes longer than
  the 3000 ticks the wait allows.
\<close>

theorem samples_bounded:
  assumes "measure_run env profile n seed = Some (elected, commits)"
  shows "length commits \<le> 10 \<and> (\<forall>d \<in> set commits. d \<le> 3000)"
proof -
  obtain c where "measure_commits env c [0..<10] = Some commits"
    using assms by (auto simp: measure_run_def Let_def elim!: bind_SomeE)
  then show ?thesis using measure_commits_bounds by fastforce
qed

end
