(* ===== verification/Cluster_Partition.thy ===== *)
theory Cluster_Partition
  imports Cluster_Rel
begin

text \<open>
  Partitions of the simulated cluster: which messages get through, and that healing lets all of
  them through again.
\<close>

lemma pair_index: "(a :: nat) < n \<Longrightarrow> b < n \<Longrightarrow> a * n + b < n * n"
proof -
  assume "a < n" "b < n"
  then have "a * n + b < Suc a * n" by simp
  also have "\<dots> \<le> n * n" using \<open>a < n\<close> by (intro mult_right_mono) simp_all
  finally show ?thesis .
qed

lemma product_pair: "a < n \<Longrightarrow> b < n \<Longrightarrow> List.product [0..<n] [0..<n] ! (a * n + b) = (a, b)"
  using product_nth [of "a * n + b" "[0..<n]" "[0..<n]"] pair_index [of a n b] by simp

text \<open>Between two different nodes the partition blocks the link when they are on different sides.\<close>

lemma cl_partition_blocked:
  assumes "cl_partition c side = Some c'"
  shows "\<exists>bs. c' = c\<lparr>blocked := bs\<rparr> \<and> length bs = size_of c * size_of c
    \<and> (\<forall>a < size_of c. \<forall>b < size_of c. bs ! (a * size_of c + b) = (a \<noteq> b \<and> side ! a \<noteq> side ! b))"
proof -
  let ?ps = "List.product [0..<size_of c] [0..<size_of c]"
  let ?f = "\<lambda>(a, b). if a = b then Some False
        else do { x \<leftarrow> vec_get side a; y \<leftarrow> vec_get side b; Some (x \<noteq> y) }"
  obtain bs where bs: "map_opt ?f ?ps = Some bs" and c': "c' = c\<lparr>blocked := bs\<rparr>"
    using assms unfolding cl_partition_def by (elim bind_SomeE) simp
  have len: "length bs = size_of c * size_of c" using bs by (simp add: map_opt_Some_iff)
  have "bs ! (a * size_of c + b) = (a \<noteq> b \<and> side ! a \<noteq> side ! b)" if ab: "a < size_of c" "b < size_of c" for a b
  proof -
    have "?f (?ps ! (a * size_of c + b)) = Some (bs ! (a * size_of c + b))"
      using bs pair_index [OF ab] by (simp add: map_opt_Some_iff)
    then show ?thesis unfolding product_pair [OF ab]
      by (auto simp: vec_get_def split: if_splits)
  qed
  then show ?thesis using c' len by blast
qed

text \<open>A partition panics only when it does not name a side for every node.\<close>

lemma cl_partition_defined:
  assumes "size_of c \<le> length side"
  shows "\<exists>c'. cl_partition c side = Some c'"
proof -
  let ?f = "\<lambda>(a, b). if a = b then Some False
        else do { x \<leftarrow> vec_get side a; y \<leftarrow> vec_get side b; Some (x \<noteq> y) }"
  let ?ps = "List.product [0..<size_of c] [0..<size_of c]"
  have "map_opt ?f ?ps = Some (map (\<lambda>x. fst x \<noteq> snd x \<and> side ! fst x \<noteq> side ! snd x) ?ps)"
    by (rule map_opt_total) (use assms in \<open>auto simp: vec_get_def\<close>)
  then show ?thesis unfolding cl_partition_def by simp
qed

text \<open>Sending one message.\<close>

lemma route_one:
  assumes "route env c a [m] = Some c'"
  shows "if blocked c ! (a * size_of c + to m)
    then links c' = links c \<and> dropped_by_partition (c_stats c') = dropped_by_partition (c_stats c) + 1
    else links c' = (links c)[a * size_of c + to m :=
        ch_send (channels env) (links c ! (a * size_of c + to m)) (encode_message (frame_enc env) (message m))]
      \<and> dropped_by_partition (c_stats c') = dropped_by_partition (c_stats c)"
  using assms
  by (auto simp: Let_def count_up_def vec_get_def size_of_def elim!: bind_SomeE dest!: add64_SomeD split: if_splits)

text \<open>
  C36: What a partition does to a message.  After a partition a message between nodes on different
  sides is counted as dropped and no link changes; a message between nodes of the same side is
  put on its link and on no other.  Once the partition has healed it is put on its link either way.
\<close>

theorem partition_rule:
  assumes "cl_partition c side = Some c1" and "a < size_of c" and "to m < size_of c"
    and "k = a * size_of c + to m"
    and "sent_on = (links c)[k := ch_send (channels env) (links c ! k) (encode_message (frame_enc env) (message m))]"
  shows "(route env c1 a [m] = Some c2 \<longrightarrow>
      (if a \<noteq> to m \<and> side ! a \<noteq> side ! to m
       then links c2 = links c \<and> dropped_by_partition (c_stats c2) = dropped_by_partition (c_stats c) + 1
       else links c2 = sent_on \<and> dropped_by_partition (c_stats c2) = dropped_by_partition (c_stats c)))
    \<and> (route env (heal c1) a [m] = Some c3 \<longrightarrow> links c3 = sent_on)"
proof -
  obtain bs where bs: "c1 = c\<lparr>blocked := bs\<rparr>" "length bs = size_of c * size_of c"
    "bs ! k = (a \<noteq> to m \<and> side ! a \<noteq> side ! to m)"
    using cl_partition_blocked [OF assms(1)] assms(2-4) by blast
  have k: "k < length bs" using pair_index [OF assms(2,3)] bs(2) assms(4) by simp
  have n: "size_of c1 = size_of c" "size_of (heal c1) = size_of c" by (simp_all add: bs(1) size_of_def heal_def)
  show ?thesis
  proof (intro conjI impI)
    assume r: "route env c1 a [m] = Some c2"
    show "if a \<noteq> to m \<and> side ! a \<noteq> side ! to m
       then links c2 = links c \<and> dropped_by_partition (c_stats c2) = dropped_by_partition (c_stats c) + 1
       else links c2 = sent_on \<and> dropped_by_partition (c_stats c2) = dropped_by_partition (c_stats c)"
      using route_one [OF r] k bs(3) by (simp add: n(1)) (simp add: bs(1) assms(4,5))
  next
    assume r: "route env (heal c1) a [m] = Some c3"
    have "blocked (heal c1) ! k = False" using k by (simp add: heal_def bs(1))
    then show "links c3 = sent_on" using route_one [OF r] by (simp add: n(2) assms(4,5)) (simp add: heal_def bs(1))
  qed
qed

end
