(* ===== verification/Cluster_Runs.thy ===== *)
theory Cluster_Runs
  imports Cluster_Safety
begin

text \<open>
  Concrete runs of the simulated cluster, evaluated by the kernel: three nodes on
  \<open>MemStorage\<close>, channels that deliver everything a tick later, and partitions.
\<close>

section \<open>Instances of the parameters\<close>

definition clean_profile :: fault_profile where
  "clean_profile = \<lparr>fp_loss = 0, fp_duplication = 0, fp_reorder_max_delay = 0, fp_corruption = 0,
     fp_truncation = 0, fp_base_delay = 1\<rparr>"

definition no_stats :: fault_stats where
  "no_stats = \<lparr>fs_sent = 0, fs_delivered = 0, fs_dropped = 0, fs_duplicated = 0, fs_reordered = 0,
     fs_corrupted = 0, fs_truncated = 0\<rparr>"

text \<open>A channel that delivers every datagram, in order, at the next advance.\<close>

definition fifo_channel :: "bytes list channel_api" where
  "fifo_channel = \<lparr>ch_clean = clean_profile, ch_no_stats = no_stats, ch_stats = (\<lambda>ch. no_stats),
     ch_new = (\<lambda>seed profile. []), ch_send = (\<lambda>ch b. ch @ [b]), ch_advance = (\<lambda>ch t. ([], ch))\<rparr>"

definition demo_env :: "(mem_storage, bytes list, unit) env" where
  "demo_env = \<lparr>backend = mem_backend, channels = fifo_channel, frame_enc = plain_enc, frame_dec = plain_dec\<rparr>"

definition demo_conf :: "u64 \<Rightarrow> cluster_config" where
  "demo_conf seed = (cluster_config_new clean_profile 3 seed)
    \<lparr>cc_election_timeout := (2, 5), cc_heartbeat_interval := 2\<rparr>"

text \<open>These instances have the properties the contracts ask for.\<close>

interpretation fifo: channel_spec fifo_channel plain_dec "\<lambda>ch. set ch"
  by unfold_locales (auto simp: fifo_channel_def)

interpretation demo: cluster_env demo_env mem_view mem_ok "\<lambda>ch. set ch"
proof -
  have env: "st_ops (backend demo_env) = mem_ops" "st_open (backend demo_env) = Some"
    "channels demo_env = fifo_channel" "frame_enc demo_env = plain_enc" "frame_dec demo_env = plain_dec"
    by (simp_all add: demo_env_def mem_backend_def)
  show "cluster_env demo_env mem_view mem_ok (\<lambda>ch. set ch)"
    by (intro cluster_env.intro cluster_env_axioms.intro)
      (auto simp: env plain_enc_def intro: mem.storage_axioms fifo.channel_spec_axioms)
qed

lemma demo_env: "cluster_env demo_env mem_view mem_ok (\<lambda>ch. set ch)"
  by (rule demo.cluster_env_axioms)

lemma demo_fresh: "fresh_backend demo_env mem_view mem_ok"
  by (simp add: fresh_backend_def demo_env_def mem_backend_def mem_view_def mem_ok_def empty_persistent_def
      vec_cap_def vote_storable_def)

section \<open>A false alarm\<close>

text \<open>
  Node 2 leads term 1 and is cut off before it sends its first entry; node 0 is elected in
  term 2 by a node that has no entries either, and is cut off in turn.  Node 2 rejoins, is
  elected in a later term by the third node, and the two commit node 2's entry of term 1.
\<close>

definition before_alarm :: "(mem_storage, bytes list) cluster option" where
  "before_alarm = do {
     c \<leftarrow> cluster_new demo_env (demo_conf 48);
     (c, _) \<leftarrow> cl_run demo_env 4 c;
     c \<leftarrow> isolate c 2;
     (c, _) \<leftarrow> cl_run demo_env 3 c;
     c \<leftarrow> isolate c 0;
     (c, _) \<leftarrow> cl_run demo_env 10 c;
     Some c }"

lemma alarm_run:
  "(do { c \<leftarrow> before_alarm; (c', r) \<leftarrow> cl_step demo_env c; Some (r, size_of c') })
    = Some (Inl \<lparr>v_tick = 18, v_what = LacksCommitted 0 2 1\<rparr>, 3)"
  by code_simp

lemma reach_run: "cl_reach env conf c \<Longrightarrow> cl_run env k c = Some p \<Longrightarrow> cl_reach env conf (fst p)"
  by (cases p) (auto intro: reach_later run_later)

lemma reach_isolate: "cl_reach env conf c \<Longrightarrow> isolate c i = Some c' \<Longrightarrow> cl_reach env conf c'"
  using reach_later [OF _ later_op [OF later_refl op_isolate]] .

lemma before_alarm_reach:
  assumes "before_alarm = Some c"
  shows "cl_reach demo_env (demo_conf 48) c"
proof -
  obtain c0 p1 c2 p3 c4 p5 where c0: "cluster_new demo_env (demo_conf 48) = Some c0"
    and p1: "cl_run demo_env 4 c0 = Some p1" and c2: "isolate (fst p1) 2 = Some c2"
    and p3: "cl_run demo_env 3 c2 = Some p3" and c4: "isolate (fst p3) 0 = Some c4"
    and p5: "cl_run demo_env 10 c4 = Some p5" and c: "Some (fst p5) = Some c"
    using assms unfolding before_alarm_def case_prod_beta by (elim bind_SomeE) blast
  have "cl_reach demo_env (demo_conf 48) (fst p5)"
    by (rule reach_run [OF reach_isolate [OF reach_run [OF reach_isolate [OF reach_run [OF reach_new
      [OF c0] p1] c2] p3] c4] p5])
  then show ?thesis using c by simp
qed

lemma alarm_states:
  obtains c c' where "before_alarm = Some c" and "size_of c' = 3"
    and "cl_step demo_env c = Some (c', Inl \<lparr>v_tick = 18, v_what = LacksCommitted 0 2 1\<rparr>)"
  using alarm_run by (auto elim!: bind_SomeE)

text \<open>
  The leader-completeness check raises a false alarm.  It compares the term of a committed
  entry with the leader's, not the term in which the entry was committed, so it reports a
  leader of term 2 that lacks an entry of term 1 which was committed only later.  The cluster
  is one the safety properties of \<open>Cluster_Safety\<close> apply to.
\<close>

theorem false_alarm_raised:
  "\<exists>c c'. cl_reach demo_env (demo_conf 48) c
    \<and> cl_step demo_env c = Some (c', Inl \<lparr>v_tick = 18, v_what = LacksCommitted 0 2 1\<rparr>)"
  using alarm_states before_alarm_reach by metis

theorem checker_reports_witness:
  "\<exists>c c' v. cl_step demo_env c = Some (c', Inl v) \<and> stale_leader_alarm mem_view c' v"
proof -
  obtain c c' where c: "before_alarm = Some c"
    "cl_step demo_env c = Some (c', Inl \<lparr>v_tick = 18, v_what = LacksCommitted 0 2 1\<rparr>)"
    by (rule alarm_states)
  then show ?thesis
    using checker_reports [OF demo_env demo_fresh before_alarm_reach [OF c(1)]] by blast
qed

section \<open>A run on stored files\<close>

text \<open>The same channels, with every node's state in a (reference) key-value store.\<close>

definition disk_env :: "((bytes \<times> bytes) list sietch, bytes list, unit) env" where
  "disk_env = \<lparr>backend = sietch_backend ref_api (\<lambda>_. []), channels = fifo_channel, frame_enc = plain_enc,
     frame_dec = plain_dec\<rparr>"

interpretation disk: cluster_env disk_env "sietch_view ref_api" "sietch_ok map_get map_ok" "\<lambda>ch. set ch"
proof -
  have env: "st_ops (backend disk_env) = sietch_ops ref_api" "st_open (backend disk_env) = (\<lambda>s. expect (sietch_open ref_api (st_store s)))"
    "channels disk_env = fifo_channel" "frame_enc disk_env = plain_enc" "frame_dec disk_env = plain_dec"
    by (simp_all add: disk_env_def sietch_backend_def)
  show "cluster_env disk_env (sietch_view ref_api) (sietch_ok map_get map_ok) (\<lambda>ch. set ch)"
    by (intro cluster_env.intro cluster_env_axioms.intro)
      (auto simp: env plain_enc_def expect_Some intro: ref_store.disk.storage_axioms fifo.channel_spec_axioms
        dest: ref_store.reopen)
qed

definition pair_conf :: cluster_config where
  "pair_conf = (demo_conf 0)\<lparr>cc_n := 2, cc_election_timeout := (1, 3), cc_heartbeat_interval := 1\<rparr>"

definition pair_run :: "((bytes \<times> bytes) list sietch, bytes list) cluster option" where
  "pair_run = do { c \<leftarrow> cluster_new disk_env pair_conf; (c, _) \<leftarrow> cl_run disk_env 6 c; Some c }"

lemma pair_eval: "map_option (\<lambda>c. (size_of c, map (map_option commit_index) (nodes c), length (c_committed c))) pair_run
    = Some (2, [Some 1, Some 1], 1)"
  by code_simp

lemma disk_env: "cluster_env disk_env (sietch_view ref_api) (sietch_ok map_get map_ok) (\<lambda>ch. set ch)"
  by (rule disk.cluster_env_axioms)

lemma disk_fresh: "fresh_backend disk_env (sietch_view ref_api) (sietch_ok map_get map_ok)"
  using ref_empty_ok by (simp add: fresh_backend_def disk_env_def sietch_backend_def ref_empty_def)

lemma pair_states:
  obtains c n m where "cl_reach disk_env pair_conf c" and "size_of c = 2" and "length (c_committed c) = 1"
    and "nodes c ! 0 = Some n" and "nodes c ! 1 = Some m" and "commit_index n = 1" and "commit_index m = 1"
proof -
  obtain c0 p where c0: "cluster_new disk_env pair_conf = Some c0" and p: "cl_run disk_env 6 c0 = Some p"
    and c: "size_of (fst p) = 2" "map (map_option commit_index) (nodes (fst p)) = [Some 1, Some 1]"
    "length (c_committed (fst p)) = 1"
    using pair_eval unfolding pair_run_def case_prod_beta by (auto elim!: bind_SomeE)
  obtain no mo where nodes: "nodes (fst p) = [no, mo]" using c(2) by (cases "nodes (fst p)"; cases "tl (nodes (fst p))") auto
  then obtain n m where "no = Some n" "mo = Some m" "commit_index n = 1" "commit_index m = 1" using c(2) by auto
  then show ?thesis using that [OF reach_run [OF reach_new [OF c0] p] c(1,3)] nodes by simp
qed

theorem committed_kept_witness:
  "\<exists>c. later disk_env c (heal c) \<and> 0 < length (c_committed c) \<and> c_committed (heal c) ! 0 = c_committed c ! 0"
proof -
  obtain c n m where c: "cl_reach disk_env pair_conf c" "size_of c = 2" "length (c_committed c) = 1"
    "nodes c ! 0 = Some n" "nodes c ! 1 = Some m" "commit_index n = 1" "commit_index m = 1" by (rule pair_states)
  have l: "later disk_env c (heal c)" by (rule later_op [OF later_refl op_heal])
  have "0 < length (c_committed c)" "0 < length (c_committed (heal c))" using c(3) by (simp_all add: heal_def)
  then show ?thesis using committed_kept [OF disk_env disk_fresh c(1) l] l by blast
qed

theorem replicas_agree_witness:
  "\<exists>c n m. cl_reach disk_env pair_conf c \<and> nodes c ! 0 = Some n \<and> nodes c ! 1 = Some m
    \<and> replay (take 1 (n_log n)) = replay (take 1 (n_log m))"
proof -
  obtain c n m where c: "cl_reach disk_env pair_conf c" "size_of c = 2" "length (c_committed c) = 1"
    "nodes c ! 0 = Some n" "nodes c ! 1 = Some m" "commit_index n = 1" "commit_index m = 1" by (rule pair_states)
  have i: "0 < size_of c" "1 < size_of c" "commit_index n \<le> commit_index m" using c(2,6,7) by simp_all
  have "replay (take (unat (commit_index n)) (n_log n)) = replay (take (unat (commit_index m)) (n_log m))"
    using replicas_agree [OF disk_env disk_fresh c(1) i(1) c(4) i(2) c(5) i(3)] c(6,7) by simp
  then show ?thesis using c by auto
qed

end
