(* ===== verification/Chaos_Runs.thy ===== *)
theory Chaos_Runs
  imports Chaos_Rules Cluster_Partition Cluster_Runs
begin

text \<open>
  The command line tool and the simulator on concrete inputs: a network that forges entries, on
  which the tool finds a violation, and short runs on a network that does not.
\<close>

section \<open>A network that forges entries\<close>

text \<open>
  Every link delivers one message nobody sent: the only entry of term 1, with a command of its
  own, and the claim that it is committed.
\<close>

definition forged :: "u64 \<Rightarrow> bytes" where
  "forged seed = encode_message plain_enc (AppendEntries 1 0 0 [\<lparr>e_term = 1, command = [ucast seed]\<rparr>] 1)"

definition forging_channel :: "u64 option channel_api" where
  "forging_channel = \<lparr>ch_clean = clean_profile, ch_no_stats = no_stats, ch_stats = (\<lambda>ch. no_stats),
     ch_new = (\<lambda>seed profile. Some seed), ch_send = (\<lambda>ch b. ch),
     ch_advance = (\<lambda>ch t. (None, case ch of Some seed \<Rightarrow> [forged seed] | None \<Rightarrow> []))\<rparr>"

definition forging_env :: "(mem_storage, u64 option, unit) env" where
  "forging_env = \<lparr>backend = mem_backend, channels = forging_channel, frame_enc = plain_enc, frame_dec = plain_dec\<rparr>"

text \<open>The configuration the tool derives from the seed 1.\<close>

definition first_conf :: cluster_config where
  "first_conf =
    \<lparr>cc_n = 3, cc_seed = 1,
     cc_profile = \<lparr>fp_loss = 582995255827569 / 2251799813685248, fp_duplication = 2465929341303693 / 72057594037927936,
       fp_reorder_max_delay = 21, fp_corruption = 5042537223225805 / 144115188075855872,
       fp_truncation = 815853970485281 / 9007199254740992, fp_base_delay = 2\<rparr>,
     cc_faults = \<lparr>f_crash = 2257513475658413 / 288230376151711744, f_restart = 3086751214418227 / 72057594037927936,
       f_partition = 135069652844897 / 36028797018963968, f_heal = 3306402290585131 / 72057594037927936,
       f_crash_after_event = 3275643842877441 / 1152921504606846976, f_propose = 92770279201653 / 1125899906842624\<rparr>,
     cc_election_timeout = (150, 300), cc_heartbeat_interval = 50\<rparr>"

lemma first_conf: "config_for clean_profile 1 False = Some first_conf"
  by code_simp

lemma forged_violation:
  "map_option snd (do { c \<leftarrow> cluster_new forging_env first_conf; cl_run forging_env 1 c })
    = Some (Inl \<lparr>v_tick = 1, v_what = DifferentEntry 2 1\<rparr>)"
  by code_simp

lemma forging_run:
  "chaos_main forging_env [ascii ''--seed'', ascii ''1'', ascii ''--runs'', ascii ''1'', ascii ''--ticks'', ascii ''1'']
    = Some ([Violation_line 1 False \<lparr>v_tick = 1, v_what = DifferentEntry 2 1\<rparr> (reproduce 1 1 False),
        Totals_line 1 1 False 1 0 0 0 0 0 0 0], 1)"
proof -
  have "ch_clean (channels forging_env) = clean_profile" "ch_no_stats (channels forging_env) = no_stats"
    by (simp_all add: forging_env_def forging_channel_def)
  moreover obtain c where "do { c \<leftarrow> cluster_new forging_env first_conf; cl_run forging_env 1 c }
      = Some (c, Inl \<lparr>v_tick = 1, v_what = DifferentEntry 2 1\<rparr>)"
    using forged_violation by auto
  ultimately show ?thesis
    by (simp add: chaos_main_def num_def default_options_def seed_range_one chaos_run_def first_conf add64_defined
        no_stats_def)
qed

theorem chaos_exit_code_witness:
  "\<exists>c. chaos_run forging_env 1 False 1 = Some (c, Inl \<lparr>v_tick = 1, v_what = DifferentEntry 2 1\<rparr>)"
proof -
  let ?o = "\<lparr>o_runs = 1, o_ticks = 1, o_start = 1, o_churn = False, o_measure = False\<rparr>" and ?v = "\<lparr>v_tick = 1, v_what = DifferentEntry 2 1\<rparr>"
  have parse: "parse_args default_options [ascii ''--seed'', ascii ''1'', ascii ''--runs'', ascii ''1'', ascii ''--ticks'', ascii ''1'']
      = Inr ?o"
    by (simp add: num_def default_options_def)
  note tried = chaos_exit_code [OF forging_run, THEN conjunct2, THEN spec, THEN mp, OF parse, THEN mp, unfolded Let_def,
      THEN conjunct2, THEN conjunct2, THEN spec, THEN spec, of 1 ?v, THEN iffD1]
  have "1 \<in> {seed :: u64. o_start ?o \<le> seed
      \<and> seed < o_start ?o
        + o_runs ?o}
    \<and> (\<exists>c. chaos_run forging_env (o_ticks ?o)
        (o_churn ?o) 1 = Some (c, Inl ?v))"
    by (rule tried) (simp, fastforce)
  then show ?thesis by simp
qed

theorem reproduce_replays_witness:
  "\<exists>ticks a b c d. chaos_main forging_env (reproduce 1 1 False)
    = Some ([Violation_line 1 False \<lparr>v_tick = 1, v_what = DifferentEntry 2 1\<rparr> (reproduce 1 1 False),
        Totals_line 1 ticks False 1 0 0 0 a b c d], 1)"
  by (rule reproduce_replays [OF forging_run]) simp

section \<open>Runs on a network that does not\<close>

lemma short_run:
  "map_option snd (do { c \<leftarrow> cluster_new demo_env first_conf; cl_run demo_env 1 c }) = Some (Inr ())"
  by code_simp

theorem chaos_run_alarms_witness:
  "\<exists>c r. chaos_run demo_env 1 False 1 = Some (c, r)
    \<and> (r = Inr () \<or> (\<exists>v. r = Inl v \<and> stale_leader_alarm mem_view c v \<and> v_tick v \<in> {1..1}))"
proof -
  have "ch_clean (channels demo_env) = clean_profile" by (simp add: demo_env_def fifo_channel_def)
  moreover obtain c where "do { c \<leftarrow> cluster_new demo_env first_conf; cl_run demo_env 1 c } = Some (c, Inr ())"
    using short_run by auto
  ultimately have "chaos_run demo_env 1 False 1 = Some (c, Inr ())" by (simp add: chaos_run_def first_conf)
  then show ?thesis using chaos_run_alarms [OF demo_env demo_fresh] by blast
qed

theorem violation_tick_witness:
  "\<exists>c d v. cl_run demo_env 5 c = Some (d, Inl v) \<and> v_tick v = 18"
proof -
  obtain c d where "cl_step demo_env c = Some (d, Inl \<lparr>v_tick = 18, v_what = LacksCommitted 0 2 1\<rparr>)"
    by (rule alarm_states)
  then have run: "cl_run demo_env 1 c = Some (d, Inl \<lparr>v_tick = 18, v_what = LacksCommitted 0 2 1\<rparr>)"
    by (simp add: go_on_def)
  have "17 \<le> unat (c_now c)" using violation_tick [OF run] by simp
  then have "unat (18 :: u64) - unat (c_now c) \<le> 5" by simp
  moreover have "v_tick \<lparr>v_tick = 18, v_what = LacksCommitted 0 2 1\<rparr> = 18" by simp
  ultimately have "cl_run demo_env 5 c = Some (d, Inl \<lparr>v_tick = 18, v_what = LacksCommitted 0 2 1\<rparr>)"
    using violation_tick [OF run] by (simp del: cl_run.simps)
  then show ?thesis by fastforce
qed

lemma leader_run:
  "(do { c \<leftarrow> cluster_new demo_env (demo_conf 48); (c, _) \<leftarrow> cl_run demo_env 5 c; Some (leader c, length (nodes c)) }) = Some (Some 2, 3)"
  by code_simp

theorem await_commit_ends_witness:
  "\<exists>c. leader c = Some 2 \<and>
    ((\<exists>k \<le> 3000. \<exists>c'. await_commit demo_env 2 1 0 c = Some c' \<and> cl_run demo_env k c = Some (c', Inr ())
      \<and> (k = 3000 \<or> uncommitted c' 2 1 = Some False))
    \<or> (\<exists>k < 3000. \<exists>e. await_commit demo_env 2 1 0 c = None \<and> cl_run demo_env k c = Some (e, Inr ())
      \<and> uncommitted e 2 1 = Some True \<and> (\<forall>e'. cl_step demo_env e \<noteq> Some (e', Inr ()))))"
proof -
  obtain c :: "(mem_storage, bytes list) cluster" where "leader c = Some 2" "length (nodes c) = 3"
    using leader_run by (auto elim!: bind_SomeE)
  then show ?thesis using await_commit_ends [of 2 c demo_env 1] by (intro exI [of _ c]) simp
qed

theorem parse_u64_exact_witness: "parse_u64 [43, 52, 50] = Some 42"
  using parse_u64_exact [of "[43, 52, 50]" 42] by (auto simp: is_digit_def intro!: exI [of _ "[52, 50]"])

lemma partition_run:
  "map_option size_of (do { c \<leftarrow> cluster_new demo_env (demo_conf 48); c1 \<leftarrow> cl_partition c [True, False, False];
     _ \<leftarrow> route demo_env c1 0 [\<lparr>to = 1, message = VoteResponse 1 True\<rparr>]; Some c }) = Some 3"
  by code_simp

theorem partition_rule_witness:
  "\<exists>c c1 c2. cl_partition c [True, False, False] = Some c1
    \<and> route demo_env c1 0 [\<lparr>to = 1, message = VoteResponse 1 True\<rparr>] = Some c2 \<and> links c2 = links c"
proof -
  obtain c :: "(mem_storage, bytes list) cluster" and c1 c2 where c: "size_of c = 3" "cl_partition c [True, False, False] = Some c1"
    "route demo_env c1 0 [\<lparr>to = 1, message = VoteResponse 1 True\<rparr>] = Some c2"
    using partition_run by (auto elim!: bind_SomeE)
  have "links c2 = links c"
    using partition_rule [OF c(2), of 0 "\<lparr>to = 1, message = VoteResponse 1 True\<rparr>", OF _ _ refl refl, of demo_env c2] c(1,3)
    by (simp del: route.simps)
  then show ?thesis using c by blast
qed

lemma lone_measure: "map_option (\<lambda>(e, ds). length ds) (measure_run demo_env clean_profile 1 0) = Some 10"
  by code_simp

theorem samples_bounded_witness:
  "\<exists>e ds. measure_run demo_env clean_profile 1 0 = Some (e, ds) \<and> length ds \<le> 10 \<and> (\<forall>d \<in> set ds. d \<le> 3000)"
proof -
  obtain e ds where "measure_run demo_env clean_profile 1 0 = Some (e, ds)" using lone_measure by auto
  then show ?thesis using samples_bounded by blast
qed

end
