(* ===== verification/Unit_Tests.thy ===== *)
theory Unit_Tests
  imports Message_Codec Sietch Kv
begin

text \<open>
  The unit tests of \<open>message.rs\<close>, \<open>storage.rs\<close> and \<open>kv/src/lib.rs\<close>, translated like the code
  they test: a test is a definition over the model's operations, \<^const>\<open>None\<close> (or
  \<^const>\<open>False\<close>, where a test only compares values) is a failed assertion or a panic, and the
  lemmas show that the model passes.  The storage tests run on any storage that keeps the
  contract, so that their result for \<open>MemStorage\<close> and \<open>SietchStorage\<close> is one lemma; the
  message tests run on any frame codec with the documented behaviour.
\<close>

section \<open>Tests that assert\<close>

definition check :: "bool \<Rightarrow> unit option" where
  "check b = (if b then Some () else None)"

text \<open>\<open>passes m Q\<close>: \<open>m\<close> does not panic, and \<open>Q\<close> holds of its result.\<close>

definition passes :: "'a option \<Rightarrow> ('a \<Rightarrow> bool) \<Rightarrow> bool" where
  "passes m Q \<longleftrightarrow> (\<exists>r. m = Some r \<and> Q r)"

named_theorems test_rules \<open>the steps of a test, backwards\<close>

lemma passes_weaken: "passes m Q \<Longrightarrow> (\<And>r. Q r \<Longrightarrow> R r) \<Longrightarrow> passes m R"
  by (auto simp: passes_def)

lemma passes_Some [test_rules]: "Q r \<Longrightarrow> passes (Some r) Q"
  by (simp add: passes_def)

lemma passes_bind [test_rules]: "passes m (\<lambda>r. passes (f r) Q) \<Longrightarrow> passes (bind m f) Q"
  by (auto simp: passes_def)

lemma passes_check [test_rules]: "b \<Longrightarrow> Q () \<Longrightarrow> passes (check b) Q"
  by (simp add: passes_def check_def)

section \<open>Storage\<close>

definition ent :: "u64 \<Rightarrow> bytes \<Rightarrow> entry" where
  "ent t c = \<lparr>e_term = t, command = c\<rparr>"

definition exercise :: "'s storage_ops \<Rightarrow> 's \<Rightarrow> 's option" where
  "exercise ops s = do {
     (s, p) \<leftarrow> load ops s;
     check (p = empty_persistent);
     s \<leftarrow> save_hard_state ops s 3 (Some 2);
     s \<leftarrow> append_entries ops s [ent 1 [0x61], ent 1 [], ent 2 [0x63]];
     s \<leftarrow> truncate_from ops s 3;
     s \<leftarrow> append_entries ops s [ent 3 [0x64]];
     s \<leftarrow> save_hard_state ops s 4 None;
     (s, p) \<leftarrow> load ops s;
     check (p = \<lparr>p_term = 4, p_voted_for = None, p_log = [ent 1 [0x61], ent 1 [], ent 3 [0x64]]\<rparr>);
     s \<leftarrow> truncate_from ops s 1;
     (s, p) \<leftarrow> load ops s;
     check (p_log p = []);
     s \<leftarrow> truncate_from ops s 1;
     s \<leftarrow> append_entries ops s [ent 9 [0x7A]];
     (s, p) \<leftarrow> load ops s;
     check (p_log p = [ent 9 [0x7A]]);
     Some s }"

text \<open>The steps of a test on a storage that keeps the contract and whose writes succeed.\<close>

context total_storage
begin

definition stands_for :: "'a \<Rightarrow> persistent \<Rightarrow> bool" where
  "stands_for s p \<longleftrightarrow> ok s \<and> view s = p"

lemma stands_forD: "stands_for s p \<Longrightarrow> view s = p"
  by (simp add: stands_for_def)

lemma stands_forI: "ok s \<Longrightarrow> view s = p \<Longrightarrow> stands_for s p"
  by (simp add: stands_for_def)

lemma passes_load:
  "stands_for s p \<Longrightarrow> (\<And>s'. stands_for s' p \<Longrightarrow> Q (s', p)) \<Longrightarrow> passes (load ops s) Q"
  using load_total [of s] load_ok [of s] by (fastforce simp: stands_for_def passes_def)

lemma passes_save:
  "stands_for s p \<Longrightarrow> vote_storable v \<Longrightarrow>
    (\<And>s'. stands_for s' (p\<lparr>p_term := t, p_voted_for := v\<rparr>) \<Longrightarrow> Q s') \<Longrightarrow>
    passes (save_hard_state ops s t v) Q"
  using save_total [of s t v] save_ok [of s v t] by (fastforce simp: stands_for_def passes_def)

lemma passes_append:
  "stands_for s p \<Longrightarrow> length (p_log p) + length es < vec_cap \<Longrightarrow>
    (\<And>s'. stands_for s' (p\<lparr>p_log := p_log p @ es\<rparr>) \<Longrightarrow> Q s') \<Longrightarrow>
    passes (append_entries ops s es) Q"
  using append_total [of s es] append_ok [of s es] by (fastforce simp: stands_for_def passes_def)

lemma passes_truncate:
  "stands_for s p \<Longrightarrow>
    (\<And>s'. stands_for s' (p\<lparr>p_log := take (unat i - 1) (p_log p)\<rparr>) \<Longrightarrow> Q s') \<Longrightarrow>
    passes (truncate_from ops s i) Q"
  using truncate_total [of s i] truncate_ok [of s i] by (fastforce simp: stands_for_def passes_def)

lemmas storage_rules = passes_load passes_save passes_append passes_truncate

lemma exercise_passes:
  assumes "ok s" and "view s = empty_persistent"
  shows "passes (exercise ops s) (\<lambda>s'. stands_for s' \<lparr>p_term = 4, p_voted_for = None, p_log = [ent 9 [0x7A]]\<rparr>)"
  unfolding exercise_def
  by (rule test_rules passes_load [OF stands_forI [OF assms]]
    | erule storage_rules
    | simp add: empty_persistent_def vote_storable_def vec_cap_def)+

end

text \<open>\<open>mem_storage_behaves\<close>.  The clone of a handle is the same cell, so it reads what was written.\<close>

definition mem_storage_behaves :: "persistent option" where
  "mem_storage_behaves = exercise mem_ops empty_persistent"

lemma mem_storage_passes: "passes mem_storage_behaves (\<lambda>p. p_log p = [ent 9 [0x7A]])"
  unfolding mem_storage_behaves_def
proof (rule passes_weaken [OF mem.exercise_passes])
  show "mem_ok empty_persistent" by (simp add: mem_ok_def empty_persistent_def vec_cap_def vote_storable_def)
  show "mem_view empty_persistent = empty_persistent" by (simp add: mem_view_def)
qed (auto dest: mem.stands_forD simp: mem_view_def)

definition mem_storage_clones_share_state :: "unit option" where
  "mem_storage_clones_share_state = do {
     a \<leftarrow> save_hard_state mem_ops empty_persistent 5 (Some 1);
     let b = a;
     check (p_term (mem_view b) = 5) }"

lemma mem_clones_pass: "passes mem_storage_clones_share_state (\<lambda>_. True)"
  by (simp add: mem_storage_clones_share_state_def mem_defs passes_def check_def)

section \<open>SietchStorage on a store whose writes succeed\<close>

locale total_store_spec = store_spec api contents valid
  for api :: "('d, 'e) store_api" and contents :: "'d \<Rightarrow> bytes \<Rightarrow> bytes option" and valid :: "'d \<Rightarrow> bool" +
  assumes put_total: "valid d \<Longrightarrow> \<exists>d'. s_put api d k v = Some d'"
    and open_total: "valid d \<Longrightarrow> \<exists>d'. s_open api d = Inr d'"
    and batch_total: "valid d \<Longrightarrow> \<exists>d'. s_apply_batch api d ops = Some d'"
begin

lemma sietch_append_total:
  assumes "sietch_ok contents valid s" and "length (p_log (sietch_view api s)) + length es < vec_cap"
  shows "\<exists>s'. sietch_append api s es = Some s'"
proof -
  note O = sietch_okD [OF assms(1)]
  let ?n = "length (p_log (sietch_view api s))"
  have "\<exists>l. add64 (st_last s) (of_nat (length es)) = Some l"
    using assms(2) unat_of_nat_small [of ?n] unat_of_nat_small [of "length es"]
    by (simp add: O(3) add64_iff vec_cap_def)
  moreover have "s_apply_batch api (st_store s) ops \<noteq> None" for ops using batch_total [OF O(1)] by simp
  moreover have "(\<exists>s'. bind m (\<lambda>d. Some (f d)) = Some s') \<longleftrightarrow> m \<noteq> None" for m and f :: "'d \<Rightarrow> 'd sietch"
    by (cases m) auto
  ultimately show ?thesis
    unfolding sietch_append_def sietch_append_ops [OF O(3) assms(2)]
    unfolding as_word_of_nat
    by (auto simp del: map_map)
qed

lemma sietch_truncate_total:
  "sietch_ok contents valid s \<Longrightarrow> \<exists>s'. sietch_truncate_from api s i = Some s'"
  using batch_total [OF sietch_okD(1)] by (auto simp: sietch_truncate_from_def Let_def bind_eq_Some_conv)

end

sublocale total_store_spec \<subseteq> total_disk: total_storage "sietch_ops api" "sietch_view api" "sietch_ok contents valid"
proof
  fix s :: "'d sietch" and t v i and es :: "entry list"
  assume ok: "sietch_ok contents valid s"
  show "\<exists>s' p. load (sietch_ops api) s = Some (s', p)"
    using sietch_okD(4) [OF ok] by (simp add: sietch_ops_def)
  show "\<exists>s'. save_hard_state (sietch_ops api) s t v = Some s'"
    using put_total [OF sietch_okD(1) [OF ok]]
    by (auto simp: sietch_ops_def sietch_save_hard_state_def Let_def bind_eq_Some_conv)
  show "\<exists>s'. truncate_from (sietch_ops api) s i = Some s'"
    using sietch_truncate_total [OF ok] by (simp add: sietch_ops_def)
  assume "length (p_log (sietch_view api s)) + length es < vec_cap"
  then show "\<exists>s'. append_entries (sietch_ops api) s es = Some s'"
    using sietch_append_total [OF ok] by (simp add: sietch_ops_def)
qed

text \<open>\<open>sietch_storage_behaves\<close>: the directory is new, so the store is the empty one.\<close>

definition sietch_storage_behaves :: "('d, 'e) store_api \<Rightarrow> 'd \<Rightarrow> 'd sietch option" where
  "sietch_storage_behaves api dir = do {
     s \<leftarrow> expect (sietch_open api dir);
     exercise (sietch_ops api) s }"

definition sietch_storage_survives :: "('d, 'e) store_api \<Rightarrow> 'd \<Rightarrow> unit option" where
  "sietch_storage_survives api dir = do {
     s \<leftarrow> expect (sietch_open api dir);
     s \<leftarrow> save_hard_state (sietch_ops api) s 8 (Some 0);
     s \<leftarrow> append_entries (sietch_ops api) s [ent 1 [0x78], ent 8 []];
     s \<leftarrow> truncate_from (sietch_ops api) s 2;
     s \<leftarrow> append_entries (sietch_ops api) s [ent 8 [0x79]];
     s \<leftarrow> expect (sietch_open api (st_store s));
     (s, p) \<leftarrow> load (sietch_ops api) s;
     check (p = \<lparr>p_term = 8, p_voted_for = Some 0, p_log = [ent 1 [0x78], ent 8 [0x79]]\<rparr>);
     s \<leftarrow> append_entries (sietch_ops api) s [ent 9 [0x6D, 0x6F, 0x72, 0x65]];
     (s, p) \<leftarrow> load (sietch_ops api) s;
     check (length (p_log p) = 3) }"

context total_store_spec
begin

lemma passes_open:
  assumes "valid d" and "holds_state (contents d) p" and "\<And>s. total_disk.stands_for s p \<Longrightarrow> Q s"
  shows "passes (expect (sietch_open api d)) Q"
proof -
  obtain d' where "s_open api d = Inr d'" using open_total [OF assms(1)] by blast
  then obtain s where s: "sietch_open api d = Inr s" by (simp add: sietch_open_def)
  then show ?thesis
    using open_holds [OF assms(1,2) s] assms(3) by (simp add: passes_def total_disk.stands_for_def)
qed

lemma passes_open_empty:
  assumes "valid d" and "contents d = Map.empty" and "\<And>s. total_disk.stands_for s empty_persistent \<Longrightarrow> Q s"
  shows "passes (expect (sietch_open api d)) Q"
proof (rule passes_open [OF assms(1) _ assms(3)])
  show "holds_state (contents d) empty_persistent"
    using assms(2) by (simp add: holds_state_def empty_persistent_def log_pairs_def vec_cap_def vote_storable_def)
qed

lemma passes_reopen:
  "total_disk.stands_for s p \<Longrightarrow> (\<And>s'. total_disk.stands_for s' p \<Longrightarrow> Q s') \<Longrightarrow>
    passes (expect (sietch_open api (st_store s))) Q"
  using passes_open [OF sietch_okD(1,2)] by (simp add: total_disk.stands_for_def)

lemma sietch_storage_passes:
  assumes "valid d" and "contents d = Map.empty"
  shows "passes (sietch_storage_behaves api d) (\<lambda>s. p_log (sietch_view api s) = [ent 9 [0x7A]])"
  unfolding sietch_storage_behaves_def
  by (intro passes_bind passes_open_empty [OF assms] passes_weaken [OF total_disk.exercise_passes])
    (auto simp: total_disk.stands_for_def)

lemma sietch_survives_passes:
  assumes "valid d" and "contents d = Map.empty"
  shows "passes (sietch_storage_survives api d) (\<lambda>_. True)"
  unfolding sietch_storage_survives_def
  by (rule test_rules TrueI passes_open_empty [OF assms] | erule passes_reopen total_disk.storage_rules
    | simp add: empty_persistent_def vote_storable_def vec_cap_def)+

end

interpretation ref_total: total_store_spec ref_api map_get map_ok
  by unfold_locales (simp_all add: ref_api_def map_ok_def)


text \<open>The contract can be kept: on the reference store the tests are evaluated.\<close>

lemma ref_storage_tests_pass:
  "sietch_storage_behaves ref_api [] \<noteq> None" "sietch_storage_survives ref_api [] = Some ()"
  using ref_total.sietch_storage_passes [of "[]"] ref_total.sietch_survives_passes [of "[]"]
  by (auto simp: passes_def map_ok_def fun_eq_iff)


section \<open>Messages\<close>

definition samples :: "message list" where
  "samples =
    [RequestVote 7 3 6,
     VoteResponse 7 True,
     AppendEntries 9 0 0 [] 0,
     AppendEntries 0xFFFFFFFFFFFFFFFF 5 4 [ent 4 [], ent 5 [1, 2, 3]] 5,
     AppendResponse 1 False 0]"

definition every_message_round_trips :: "(frame \<Rightarrow> bytes) \<Rightarrow> (bytes \<Rightarrow> 'e + frame) \<Rightarrow> bool" where
  "every_message_round_trips enc dec \<longleftrightarrow>
     list_all (\<lambda>m. decode_message dec (encode_message enc m) = Inr m) samples"

definition corruption_is_caught :: "(frame \<Rightarrow> bytes) \<Rightarrow> (bytes \<Rightarrow> 'e + frame) \<Rightarrow> bool" where
  "corruption_is_caught enc dec \<longleftrightarrow>
     list_all (\<lambda>m. let good = encode_message enc m in
       list_all (\<lambda>i. isl (decode_message dec (good[i := xor (good ! i) 1]))) [0..<length good]) samples"

definition every_truncation_is_an_error :: "(frame \<Rightarrow> bytes) \<Rightarrow> (bytes \<Rightarrow> 'e + frame) \<Rightarrow> bool" where
  "every_truncation_is_an_error enc dec \<longleftrightarrow>
     list_all (\<lambda>m. let good = encode_message enc m in
       list_all (\<lambda>cut. isl (decode_message dec (take cut good))) [0..<length good]) samples"

definition framed :: "(frame \<Rightarrow> bytes) \<Rightarrow> u8 \<Rightarrow> bytes \<Rightarrow> bytes" where
  "framed enc kind p = enc \<lparr>frame_type = kind, sequence = 0, flags = 0, payload = p\<rparr>"

definition bad_payloads_are_typed_errors :: "(frame \<Rightarrow> bytes) \<Rightarrow> (bytes \<Rightarrow> 'e + frame) \<Rightarrow> bool" where
  "bad_payloads_are_typed_errors enc dec \<longleftrightarrow>
     decode_message dec (framed enc 99 []) = Inl (UnknownType 99)
   \<and> decode_message dec (framed enc 2 (replicate 9 0)) = Inr (VoteResponse 0 False)
   \<and> decode_message dec (framed enc 2 (replicate 8 0 @ [2])) = Inl (BadBool 2)
   \<and> decode_message dec (framed enc 2 (replicate 10 0)) = Inl TrailingBytes
   \<and> decode_message dec (framed enc 1 (replicate 3 0)) = Inl Truncated"

definition huge_count_is_truncated :: "(frame \<Rightarrow> bytes) \<Rightarrow> (bytes \<Rightarrow> 'e + frame) \<Rightarrow> bool" where
  "huge_count_is_truncated enc dec \<longleftrightarrow>
     decode_message dec (framed enc 3 (replicate 32 0 @ to_le_bytes32 0xFFFFFFFF)) = Inl Truncated"

text \<open>
  What the tests need of the frame crate: it returns the frames that were written, and its
  checksum catches a flipped bit and a cut.
\<close>

definition frames_return :: "(frame \<Rightarrow> bytes) \<Rightarrow> (bytes \<Rightarrow> 'e + frame) \<Rightarrow> bool" where
  "frames_return enc dec \<longleftrightarrow> (\<forall>f. sequence f = 0 \<longrightarrow> flags f = 0 \<longrightarrow> dec (enc f) = Inr f)"

definition frames_checked :: "(frame \<Rightarrow> bytes) \<Rightarrow> (bytes \<Rightarrow> 'e + frame) \<Rightarrow> bool" where
  "frames_checked enc dec \<longleftrightarrow> (\<forall>f. \<forall>i < length (enc f).
     isl (dec ((enc f)[i := xor (enc f ! i) 1])) \<and> isl (dec (take i (enc f))))"

lemma frame_error: "isl (dec d) \<Longrightarrow> isl (decode_message dec d)"
  by (cases "dec d") (simp_all add: decode_message_def)

lemma samples_fit: "m \<in> set samples \<Longrightarrow> sizes_fit m"
  by (auto simp: samples_def ent_def)

lemma round_trips_pass: "frames_return enc dec \<Longrightarrow> every_message_round_trips enc dec"
  unfolding every_message_round_trips_def list_all_iff
proof
  fix m assume "frames_return enc dec" and m: "m \<in> set samples"
  then have "dec (enc (frame_of m)) = Inr (frame_of m)" by (simp add: frames_return_def frame_of_def)
  then show "decode_message dec (encode_message enc m) = Inr m"
    using decode_message_encoded [OF samples_fit [OF m], of dec _ "frame_of m" "[]"]
    by (simp add: encode_message_def frame_of_def)
qed

lemma checked_pass:
  "frames_checked enc dec \<Longrightarrow> corruption_is_caught enc dec \<and> every_truncation_is_an_error enc dec"
  by (simp add: corruption_is_caught_def every_truncation_is_an_error_def list_all_iff Let_def
      frames_checked_def encode_message_def frame_error)

lemma decode_framed:
  "frames_return enc dec \<Longrightarrow> decode_message dec (framed enc kind p) = and_then (decode_payload kind p)
    (\<lambda>(m, r). if r \<noteq> [] then Inl TrailingBytes else Inr m)"
  by (simp add: frames_return_def framed_def decode_message_frame)

lemma zero_word: "replicate 8 0 = to_le_bytes64 0"
  by code_simp

lemma replicate_zeros:
  "replicate 9 (0::u8) = to_le_bytes64 0 @ u8_of_bool False # []"
  "replicate 10 (0::u8) = to_le_bytes64 0 @ u8_of_bool False # [0]"
  "replicate 32 (0::u8) = to_le_bytes64 0 @ to_le_bytes64 0 @ to_le_bytes64 0 @ to_le_bytes64 0"
  by code_simp+

lemma bad_payloads_pass: "frames_return enc dec \<Longrightarrow> bad_payloads_are_typed_errors enc dec"
  by (simp add: bad_payloads_are_typed_errors_def decode_framed decode_payload_def replicate_zeros zero_word
      codec_simps) (simp add: read_u64_def read_bool_def take_bytes_def)

lemma huge_count_pass: "frames_return enc dec \<Longrightarrow> huge_count_is_truncated enc dec"
  by (simp add: huge_count_is_truncated_def decode_framed decode_payload_def decode_append_def
      append_header_def replicate_zeros codec_simps read_u32_encoded [where r = "[]", simplified])

text \<open>
  A frame codec that keeps both: each byte is written twice after a mark, and a last byte
  without a mark ends the frame.
\<close>

fun twice_enc :: "bytes \<Rightarrow> bytes" where
  "twice_enc [] = [0]"
| "twice_enc (b # bs) = 1 # b # b # twice_enc bs"

fun twice_dec :: "bytes \<Rightarrow> bytes option" where
  "twice_dec [m] = (if m = 0 then Some [] else None)"
| "twice_dec (m # b # c # r) = (if m = 1 \<and> b = c then map_option ((#) b) (twice_dec r) else None)"
| "twice_dec _ = None"

definition twice_frame_enc :: "frame \<Rightarrow> bytes" where
  "twice_frame_enc f = twice_enc (frame_type f # payload f)"

definition twice_frame_dec :: "bytes \<Rightarrow> unit + frame" where
  "twice_frame_dec d = (case twice_dec d of
     Some (k # p) \<Rightarrow> Inr \<lparr>frame_type = k, sequence = 0, flags = 0, payload = p\<rparr> | _ \<Rightarrow> Inl ())"

lemma twice_returns: "twice_dec (twice_enc bs) = Some bs"
  by (induction bs) simp_all

lemma flip_other: "xor b 1 \<noteq> (b :: u8)"
proof
  assume "xor b 1 = b"
  then have "xor b (xor b 1) = 0" by simp
  then show False by (simp add: xor.assoc [symmetric])
qed

lemma twice_flip: "i < length (twice_enc bs) \<Longrightarrow> twice_dec ((twice_enc bs)[i := xor (twice_enc bs ! i) 1]) = None"
proof (induction bs arbitrary: i)
  case (Cons b bs)
  note IH = Cons.IH
  consider "i = 0" | "i = 1" | "i = 2" | j where "i = Suc (Suc (Suc j))"
    by (metis One_nat_def Suc_1 not0_implies_Suc)
  then show ?case
  proof cases
    case 4
    then show ?thesis using IH [of j] Cons.prems by simp
  qed (use flip_other [of b] flip_other [of b, symmetric] in \<open>simp_all add: numeral_2_eq_2\<close>)
qed simp

lemma twice_cut: "i < length (twice_enc bs) \<Longrightarrow> twice_dec (take i (twice_enc bs)) = None"
proof (induction bs arbitrary: i)
  case (Cons b bs)
  consider "i = 0" | "i = 1" | "i = 2" | j where "i = Suc (Suc (Suc j))"
    by (metis One_nat_def Suc_1 not0_implies_Suc)
  then show ?case
  proof cases
    case 4
    then show ?thesis using Cons.IH [of j] Cons.prems by simp
  qed (simp_all add: numeral_2_eq_2)
qed simp

lemma twice_frames_return: "frames_return twice_frame_enc twice_frame_dec"
  by (simp add: frames_return_def twice_frame_enc_def twice_frame_dec_def twice_returns del: twice_enc.simps)

lemma twice_frames_checked: "frames_checked twice_frame_enc twice_frame_dec"
  by (simp add: frames_checked_def twice_frame_enc_def twice_frame_dec_def twice_flip twice_cut
      del: twice_enc.simps)

lemma message_tests_pass:
  "every_message_round_trips twice_frame_enc twice_frame_dec"
  "corruption_is_caught twice_frame_enc twice_frame_dec"
  "every_truncation_is_an_error twice_frame_enc twice_frame_dec"
  "bad_payloads_are_typed_errors twice_frame_enc twice_frame_dec"
  "huge_count_is_truncated twice_frame_enc twice_frame_dec"
  using round_trips_pass checked_pass bad_payloads_pass huge_count_pass twice_frames_return twice_frames_checked by blast+

section \<open>Key-value commands\<close>

definition test_entry :: "kv_command \<Rightarrow> entry" where
  "test_entry c = \<lparr>e_term = 1, command = kv_encode c\<rparr>"

definition put_get_overwrite_delete :: "unit option" where
  "put_get_overwrite_delete = do {
     let s = kv_new;
     let s = kv_apply s (test_entry (Put [0x61] [0x31]));
     let s = kv_apply s (test_entry (Put [0x61] [0x32]));
     let s = kv_apply s (test_entry (Put [0x62] []));
     check (kv_get s [0x61] = Some [0x32]);
     check (kv_get s [0x62] = Some []);
     let s = kv_apply s (test_entry (Delete [0x61]));
     check (kv_get s [0x61] = None);
     check (kv_len s = 1) }"

definition malformed_commands_are_ignored :: bool where
  "malformed_commands_are_ignored =
     kv_is_empty (fold (\<lambda>c s. kv_apply s \<lparr>e_term = 1, command = c\<rparr>)
       [[], [9], [1], [1, 255, 255, 255, 255, 1], [1, 3, 0, 0, 0, 1]] kv_new)"

definition commands_round_trip :: bool where
  "commands_round_trip =
     list_all (\<lambda>c. kv_decode (kv_encode c) = Some c)
       [Put [] [], Put [0, 1, 2] (replicate 40 9), Delete [], Delete [1, 2, 3]]"

lemma kv_tests_pass:
  "put_get_overwrite_delete = Some ()" "malformed_commands_are_ignored" "commands_round_trip"
proof -
  show "put_get_overwrite_delete = Some ()" by code_simp
  show "malformed_commands_are_ignored"
    by (simp add: malformed_commands_are_ignored_def kv_apply_def kv_new_def kv_is_empty_def)
  show "commands_round_trip"
    by (simp add: commands_round_trip_def kv_decode_encoded del: kv_decode.simps)
qed

end
