(* ===== verification/Spec2Isabelle.thy ===== *)
theory Spec2Isabelle
  imports Message_Codec Safety Node_Limits Progress Election Delivery Kv Chaos_Runs Unit_Tests
begin

text \<open>
  A verification library for \<open>landsraad\<close>: Raft consensus in Rust, its storage, its wire codec,
  a replicated key-value store, and the deterministic simulator that tests them.

  \<^bold>\<open>The program.\<close>  \<open>crates/raft\<close> holds the consensus node (\<open>node.rs\<close>), a state machine without
  input and output: \<open>tick\<close>, \<open>handle\<close> and \<open>propose\<close> take the time, a message or a client command
  and return the messages to send; \<open>take_committed\<close> hands over committed entries.  The node
  writes its term, vote and log through the trait \<open>Storage\<close> (\<open>storage.rs\<close>), kept in memory by
  \<open>MemStorage\<close> and in an external ordered store by \<open>SietchStorage\<close>.  \<open>message.rs\<close> puts messages
  into frames.  \<open>crates/kv\<close> replays committed entries into a key-value store.  \<open>crates/sim\<close> wires
  nodes by lossy channels (\<open>cluster.rs\<close>), crashes, restarts and partitions them in virtual time
  from a seeded generator (\<open>rng.rs\<close>), and checks invariants after every tick;
  \<open>landsraad-chaos.rs\<close> runs many such schedules from the command line.

  \<^bold>\<open>How it is modelled.\<close>  A panic is \<^const>\<open>None\<close>, a \<open>Result\<close> a sum with the error on the left,
  \<open>u64\<close> a 64-bit word whose \<open>+\<close> and \<open>-\<close> panic on overflow (the dev and test profile), \<open>usize\<close> a
  natural number, a vector a list, a struct a record, \<open>&mut self\<close> the returned new state
  (theory \<open>Prelude\<close>).  Definitions have the names of the code and are executable.

    \<^item> \<open>Bytes\<close>, \<open>Message\<close>: integers in bytes; messages, \<open>encode_message\<close>, \<open>decode_message\<close>.
    \<^item> \<open>Storage\<close>: the trait as a table of methods, its contract as the locale \<open>storage\<close>, and
      \<open>MemStorage\<close>.  \<open>Sietch\<close>: \<open>SietchStorage\<close>, over a store given by the locale \<open>store_spec\<close>.
    \<^item> \<open>Node\<close>: every field and every method of \<open>Node\<close>.
    \<^item> \<open>Ordered_Map\<close>, \<open>Kv\<close>: \<open>BTreeMap\<close>, the commands, the store and \<open>replay\<close>.
    \<^item> \<open>Rng\<close>, \<open>Cluster\<close>: the generator; the whole simulated cluster with its checker.
    \<^item> \<open>Float64\<close>, \<open>Chaos\<close>: rounding of \<open>f64\<close> values; the command line tool.

  \<^bold>\<open>What is proved.\<close>

    \<^item> \<open>Message_Codec\<close>: the codec is a bijection between the messages whose sizes fit and the
      payloads it accepts; truncated and padded payloads and forged counts are rejected, the last
      before any memory is reserved for the entries they declare.
    \<^item> \<open>Protocol\<close>, \<open>Protocol_Inv\<close>, \<open>Protocol_Steps\<close>, \<open>Protocol_Logs\<close>, \<open>Protocol_Commit\<close>,
      \<open>Protocol_Safety\<close>, \<open>Log_Lemmas\<close>: an abstract Raft over unbounded numbers as a step relation,
      its invariants by rule induction, and leader completeness and state machine safety.
    \<^item> \<open>Node_Lemmas\<close>, \<open>Node_Sim\<close>, \<open>Node_Refine\<close>: every operation of the node, on any storage that
      keeps the contract, is a sequence of protocol steps.  \<open>Crash_Points\<close>: so is every part of an
      operation up to one of its storage writes, followed by a crash.  \<open>System\<close>: any
      interleaving of the operations of a set of nodes, with crashes (also between two writes of
      one operation), restarts and a network that loses, delays, reorders and duplicates.
      \<open>Safety\<close>: the safety properties of Raft on these runs.
    \<^item> \<open>Node_Total\<close>, \<open>Progress\<close>: no panics.  A run panics only when a clock, a term, a log
      or an index runs out of its integer type (the bounds are in the premises, as \<open>action_room\<close>).
    \<^item> \<open>Election\<close>: liveness.  A node whose deadline has passed is elected by one exchange of messages
      with a majority that is not ahead of it, and commits its log by one more; the schedules are
      explicit lists of actions of \<open>System\<close>, and each action is performed.
    \<^item> \<open>Delivery\<close>: when the commit index falls, and what \<open>take_committed\<close> hands over in a run:
      the log in order, without a gap, each entry once unless the commit index fell.
    \<^item> \<open>Node_Rules\<close>: what each handler does on each branch.  \<open>Node_Limits\<close>: where it does not do
      what its documentation says.  \<open>Node_Sizes\<close>: what nodes send fits the codec.
    \<^item> \<open>Sietch\<close>: \<open>SietchStorage\<close> refines the same contract as \<open>MemStorage\<close>, also across restarts of
      the process, and stops on corruption.  That a store opened again holds what had been written
      to it, if opening does not fail, is an assumption of \<open>store_spec\<close>.  \<open>Kv\<close>: the key-value
      store as a map of last writes.
    \<^item> \<open>Cluster_Rel\<close>, \<open>Cluster_Check\<close>, \<open>Cluster_Safety\<close>: the simulated cluster refines the protocol,
      so what its checker can report is known; replicas agree.  \<open>Cluster_Clock\<close>: violations are
      dated.  \<open>Cluster_Partition\<close>: what partitions let through.  \<open>Chaos_Rules\<close>: the command line
      tool; reproduction of violations, exit codes, ranges, waits that end.
    \<^item> \<open>Scenario\<close>, \<open>Cluster_Runs\<close>, \<open>Chaos_Runs\<close>: concrete runs, evaluated by the kernel, to
      which the properties are applied.  \<open>Unit_Tests\<close>: the tests inside \<open>message.rs\<close>,
      \<open>storage.rs\<close> and \<open>kv/src/lib.rs\<close>, translated and passed by the model on any frame codec and
      any store that behave as documented.

  \<^bold>\<open>Interfaces.\<close>  \<open>storage\<close> (and \<open>total_storage\<close>) is interpreted on \<open>MemStorage\<close> and, by a
  \<open>sublocale\<close> of \<open>store_spec\<close> (and \<open>total_store_spec\<close>), on \<open>SietchStorage\<close>; \<open>quorum_system\<close> on
  majorities; \<open>ordered_map\<close> on the sorted list of pairs; \<open>store_spec\<close>, \<open>channel_spec\<close> and
  \<open>cluster_env\<close> state what the external crates promise and are interpreted on small
  implementations of them.

  \<^bold>\<open>Bounds and fuel.\<close>  No definition takes fuel.  The loops are recursions over the list of
  indices the code ranges over; \<open>cl_run\<close> recurses on the number of ticks; \<open>await_commit\<close> on the
  3000 ticks the code allows.  Only \<open>await_leader\<close>, which waits without a limit, is a
  \<open>partial_function\<close>.  A vector has fewer than \<open>2 ^ 63\<close> elements (\<open>vec_cap\<close>).

  \<^bold>\<open>Not modelled.\<close>  The crates \<open>frame\<close>, \<open>channel\<close> and \<open>sietch\<close> are not part of the repository: they
  are parameters, with the contracts above (a write of a storage is atomic, as \<open>storage.rs\<close>
  documents: a crash leaves the state before or after it), and the counters of a channel's
  statistics are taken to be \<open>u64\<close>.  The layout of printed lines and of violation texts is left
  out; the values printed are kept.  Methods that return a field are that field.  The
  integration tests under \<open>tests/\<close> are not translated, and the seeds they run are not evaluated.
  That the random timeouts and the network let the schedules of \<open>Election\<close> happen is not claimed, and
  release-profile arithmetic, which wraps, is not followed past an overflow.
\<close>

end
